(* ===== verification/Prelude.thy ===== *)
theory Prelude
  imports Main "HOL-Library.Word" "HOL-Library.FSet" "HOL-Library.Finite_Map"
    "HOL-Library.Product_Lexorder" "HOL-Library.List_Lexorder"
begin

section \<open>What the components share\<close>

text \<open>
  The machine integers of the source by their Rust names, the generic lemmas about the two
  ordered collections the code is built on, and the iterator adaptors it uses.

  \<^item> Rust's \<open>u8\<close>, \<open>u32\<close>, \<open>u64\<close> are words: \<open>+\<close> wraps, as in a release build. A \<open>usize\<close>
    that counts the elements of a collection is a \<open>nat\<close>: memory bounds it.
  \<^item> \<open>BTreeSet\<close> is \<open>'a fset\<close> and \<open>BTreeMap\<close> is \<open>('k, 'v) fmap\<close>: finite by type and equal when
    they hold the same elements, as Rust's derived \<open>Eq\<close> has it. Iteration is in key order:
    \<open>sorted_list_of_fset\<close>.
  \<^item> A panic is a value: \<open>Panic\<close>, next to \<open>Done v\<close>.
\<close>

type_synonym u8 = "8 word"
type_synonym u32 = "32 word"
type_synonym u64 = "64 word"
type_synonym bytes = "u8 list"

named_theorems frame "fields of the state that an operation leaves as they are"
named_theorems inv_intros "operations that keep an invariant"

subsection \<open>Ordered sets and maps\<close>

lemma set_sorted_list_of_fset [simp]: "set (sorted_list_of_fset S) = fset S"
  by (simp add: sorted_list_of_fset.rep_eq)

lemma distinct_sorted_list_of_fset [simp]: "distinct (sorted_list_of_fset S)"
  by (simp add: sorted_list_of_fset.rep_eq)

lemma sorted_sorted_list_of_fset [simp]: "sorted (sorted_list_of_fset S)"
  by (simp add: sorted_list_of_fset.rep_eq)

lemma sorted_list_of_fset_empty [simp]: "sorted_list_of_fset {||} = []"
  by (simp add: sorted_list_of_fset.rep_eq)

lemma sorted_list_of_fset_Nil_iff [simp]: "sorted_list_of_fset S = [] \<longleftrightarrow> S = {||}"
  by (metis fset_of_list_simps(1) sorted_list_of_fset_empty sorted_list_of_fset_simps(2))

lemma length_sorted_list_of_fset [simp]: "length (sorted_list_of_fset S) = fcard S"
  by (simp add: sorted_list_of_fset.rep_eq fcard.rep_eq)

lemma strict_sorted_sorted_list_of_fset [simp]: "sorted_wrt (<) (sorted_list_of_fset S)"
  by (simp add: strict_sorted_iff)

lemma strict_sorted_pairs:
  assumes "sorted_wrt (<) cs" and "\<And>c. sorted_wrt (<) (f c)"
  shows "sorted_wrt (<) (concat (map (\<lambda>c. map (Pair (c :: 'a::linorder)) (f c :: 'b::linorder list)) cs))"
  using assms(1)
proof (induction cs)
  case (Cons c cs)
  have "sorted_wrt (<) (map (Pair c) (f c))"
    using assms(2) [of c] by (simp add: sorted_wrt_map)
  with Cons show ?case by (auto simp: sorted_wrt_append)
qed simp

lemma hd_sorted_list_of_fset_le:
  assumes "x |\<in>| S"
  shows "hd (sorted_list_of_fset S) |\<in>| S \<and> hd (sorted_list_of_fset S) \<le> x"
proof -
  obtain y ys where ys: "sorted_list_of_fset S = y # ys"
    using assms by (cases "sorted_list_of_fset S") auto
  have "y |\<in>| S" using set_sorted_list_of_fset [of S] ys by auto
  moreover have "y \<le> x"
  proof -
    have "x \<in> set (y # ys)" using assms by (simp flip: ys)
    moreover have "sorted (y # ys)" by (simp flip: ys)
    ultimately show ?thesis by auto
  qed
  ultimately show ?thesis by (simp add: ys)
qed

text \<open>\<open>map.get(k).copied().unwrap_or(d)\<close>, and \<open>map.entry(k).or_default()\<close> read back.\<close>

definition get_or :: "'v \<Rightarrow> ('k, 'v) fmap \<Rightarrow> 'k \<Rightarrow> 'v" where
  "get_or d m k = (case fmlookup m k of Some v \<Rightarrow> v | None \<Rightarrow> d)"

lemma get_or_upd [simp]: "get_or d (fmupd k v m) k' = (if k' = k then v else get_or d m k')"
  by (simp add: get_or_def)

lemma get_or_drop [simp]: "get_or d (fmdrop k m) k' = (if k' = k then d else get_or d m k')"
  by (simp add: get_or_def)

lemma get_or_empty [simp]: "get_or d fmempty k = d"
  by (simp add: get_or_def)

lemma get_or_Some [simp]: "fmlookup m k = Some v \<Longrightarrow> get_or d m k = v"
  by (simp add: get_or_def)

text \<open>\<open>iter().next()\<close> on an ordered map: the entry with the least key.\<close>

definition first_entry :: "('k::linorder, 'v) fmap \<Rightarrow> ('k \<times> 'v) option" where
  "first_entry m = (case sorted_list_of_fset (fmdom m) of
      [] \<Rightarrow> None
    | k # _ \<Rightarrow> (case fmlookup m k of Some v \<Rightarrow> Some (k, v) | None \<Rightarrow> None))"

lemma first_entry_None [simp]: "first_entry m = None \<longleftrightarrow> m = fmempty"
proof
  assume none: "first_entry m = None"
  have "sorted_list_of_fset (fmdom m) = []"
  proof (cases "sorted_list_of_fset (fmdom m)")
    case (Cons k ks)
    then have "k |\<in>| fmdom m" using set_sorted_list_of_fset [of "fmdom m"] by auto
    then obtain v where "fmlookup m k = Some v" by (auto simp: fmlookup_dom_iff)
    with none Cons show ?thesis by (simp add: first_entry_def)
  qed
  then have "fmdom m = {||}" by simp
  then have "\<forall>k. fmlookup m k = None" by (simp add: fmdom_notD)
  then show "m = fmempty" by (intro fmap_ext) simp
qed (simp add: first_entry_def)

lemma first_entry_fmempty [simp]: "first_entry fmempty = None"
  by simp

lemma first_entry_SomeD:
  assumes "first_entry m = Some (k, v)"
  shows "fmlookup m k = Some v" and "\<And>k'. k' |\<in>| fmdom m \<Longrightarrow> k \<le> k'"
proof -
  from assms obtain ks where ks: "sorted_list_of_fset (fmdom m) = k # ks"
    and v: "fmlookup m k = Some v"
    by (auto simp: first_entry_def split: list.splits option.splits)
  from v show "fmlookup m k = Some v" .
  fix k' assume "k' |\<in>| fmdom m"
  then show "k \<le> k'" using hd_sorted_list_of_fset_le [of k' "fmdom m"] by (simp add: ks)
qed

text \<open>Iteration over a map: its entries in key order. The library's congruence rule for \<open>fmfilter\<close> keeps the simplifier away from the map argument.\<close>

declare fmfilter_cong [cong del]

lemma mem_sorted_list_of_fmap [simp]: "(k, v) \<in> set (sorted_list_of_fmap m) \<longleftrightarrow> fmlookup m k = Some v"
  by (auto simp: sorted_list_of_fmap_def image_iff fmlookup_dom_iff)

lemma fcard_fmdrop: "fmlookup m k = Some v \<Longrightarrow> fcard (fmdom (fmdrop k m)) < fcard (fmdom m)"
  using fcard_fminus1_less [OF fmdomI] by simp

subsection \<open>Iterator adaptors\<close>

text \<open>
  Rust's \<open>max_by_key\<close> returns the last of several maxima and \<open>min_by_key\<close> the first of several
  minima; both return \<open>None\<close> on an empty iterator.
\<close>

fun max_by_key :: "('a \<Rightarrow> 'k::linorder) \<Rightarrow> 'a list \<Rightarrow> 'a option" where
  "max_by_key f [] = None"
| "max_by_key f (x # xs) = Some (foldl (\<lambda>a b. if f a \<le> f b then b else a) x xs)"

fun min_by_key :: "('a \<Rightarrow> 'k::linorder) \<Rightarrow> 'a list \<Rightarrow> 'a option" where
  "min_by_key f [] = None"
| "min_by_key f (x # xs) = Some (foldl (\<lambda>a b. if f a \<le> f b then a else b) x xs)"

lemma foldl_max_key:
  "foldl (\<lambda>a b. if f a \<le> f b then b else a) x xs \<in> set (x # xs) \<and>
   (\<forall>y \<in> set (x # xs). (f y :: 'k::linorder) \<le> f (foldl (\<lambda>a b. if f a \<le> f b then b else a) x xs))"
proof (induction xs arbitrary: x)
  case (Cons b xs)
  show ?case using Cons.IH [of "if f x \<le> f b then b else x"]
    by (auto split: if_splits intro: order_trans)
qed simp

lemma foldl_min_key:
  "foldl (\<lambda>a b. if f a \<le> f b then a else b) x xs \<in> set (x # xs) \<and>
   (\<forall>y \<in> set (x # xs). f (foldl (\<lambda>a b. if f a \<le> f b then a else b) x xs) \<le> (f y :: 'k::linorder))"
proof (induction xs arbitrary: x)
  case (Cons b xs)
  show ?case using Cons.IH [of "if f x \<le> f b then x else b"]
    by (auto split: if_splits intro: order_trans)
qed simp

lemma max_by_key_None [simp]: "max_by_key f xs = None \<longleftrightarrow> xs = []"
  by (cases xs) auto

lemma min_by_key_None [simp]: "min_by_key f xs = None \<longleftrightarrow> xs = []"
  by (cases xs) auto

lemma max_by_key_SomeD:
  "max_by_key f xs = Some x \<Longrightarrow> x \<in> set xs \<and> (\<forall>y \<in> set xs. f y \<le> f x)"
  using foldl_max_key [of f] by (cases xs) fastforce+

lemma min_by_key_SomeD:
  "min_by_key f xs = Some x \<Longrightarrow> x \<in> set xs \<and> (\<forall>y \<in> set xs. f x \<le> f y)"
  using foldl_min_key [of f] by (cases xs) fastforce+

lemma finite_has_max:
  assumes "finite D" and "D \<noteq> {}"
  shows "\<exists>d \<in> D. \<forall>e \<in> D. (f e :: 'k::linorder) \<le> f d"
proof -
  have "Max (f ` D) \<in> f ` D" using assms by (intro Max_in) auto
  then obtain d where "d \<in> D" "f d = Max (f ` D)" by auto
  moreover from this have "\<forall>e \<in> D. f e \<le> f d" using assms(1) by simp
  ultimately show ?thesis by blast
qed

text \<open>\<open>std::cmp::Reverse\<close>: the same values in the opposite order.\<close>

datatype 'a reverse = Reverse (unreverse: 'a)

instantiation reverse :: (linorder) linorder
begin

definition less_eq_reverse :: "'a reverse \<Rightarrow> 'a reverse \<Rightarrow> bool" where
  "less_eq_reverse a b = (unreverse b \<le> unreverse a)"

definition less_reverse :: "'a reverse \<Rightarrow> 'a reverse \<Rightarrow> bool" where
  "less_reverse a b = (unreverse b < unreverse a)"

instance
  by standard (auto simp: less_eq_reverse_def less_reverse_def reverse.expand)

end

lemma Reverse_le [simp]: "Reverse a \<le> Reverse b \<longleftrightarrow> b \<le> a"
  by (simp add: less_eq_reverse_def)

subsection \<open>Panics\<close>

datatype 'a exec = Panic | Done 'a

fun bind_exec :: "'a exec \<Rightarrow> ('a \<Rightarrow> 'b exec) \<Rightarrow> 'b exec" where
  "bind_exec Panic f = Panic"
| "bind_exec (Done a) f = f a"

lemma bind_exec_Done [simp]: "bind_exec e Done = e"
  by (cases e) auto

lemma bind_exec_eq_Done: "bind_exec e f = Done b \<longleftrightarrow> (\<exists>a. e = Done a \<and> f a = Done b)"
  by (cases e) auto

lemma bind_exec_assoc: "bind_exec (bind_exec e f) g = bind_exec e (\<lambda>a. bind_exec (f a) g)"
  by (cases e) auto

subsection \<open>Loops over a list that keep an invariant\<close>

text \<open>
  A \<open>for\<close> loop whose body may panic, changes a state and pushes to an output. Its rule is total: the
  loop ends without a panic, in a state the invariant describes by what has been visited.
\<close>

fun for_each :: "('k \<Rightarrow> 's \<Rightarrow> ('e list \<times> 's) exec) \<Rightarrow> 'k list \<Rightarrow> 's \<Rightarrow> ('e list \<times> 's) exec" where
  "for_each f [] s = Done ([], s)"
| "for_each f (k # ks) s =
     bind_exec (f k s) (\<lambda>(fx, s1).
     bind_exec (for_each f ks s1) (\<lambda>(fx', s2). Done (fx @ fx', s2)))"

lemma for_each_rule:
  assumes "P [] [] s"
    and "\<And>ks k rest fx t. xs = ks @ k # rest \<Longrightarrow> P ks fx t \<Longrightarrow>
           \<exists>fx' t'. f k t = Done (fx', t') \<and> P (ks @ [k]) (fx @ fx') t'"
  shows "\<exists>fx t. for_each f xs s = Done (fx, t) \<and> P xs fx t"
proof -
  have "\<exists>fx' t'. for_each f rest t = Done (fx', t') \<and> P xs (fx @ fx') t'"
    if "xs = ks @ rest" "P ks fx t" for ks rest fx t
    using that
  proof (induction rest arbitrary: ks fx t)
    case (Cons k rest)
    from assms(2) [OF Cons.prems] obtain fx1 t1
      where f: "f k t = Done (fx1, t1)" and P: "P (ks @ [k]) (fx @ fx1) t1" by blast
    from Cons.IH [OF _ P] Cons.prems(1) f show ?case by auto
  qed auto
  from this [of "[]" xs "[]" s] assms(1) show ?thesis by simp
qed


lemma for_each_rel:
  assumes "for_each f xs s = Done (fx, t)"
    and "\<And>s. R s [] s" and "\<And>s t u fx fx'. R s fx t \<Longrightarrow> R t fx' u \<Longrightarrow> R s (fx @ fx') u"
    and "\<And>k s fx t. k \<in> set xs \<Longrightarrow> f k s = Done (fx, t) \<Longrightarrow> R s fx t"
  shows "R s fx t"
  using assms(1,4)
proof (induction xs arbitrary: s fx)
  case Nil
  with assms(2) show ?case by simp
next
  case (Cons k ks)
  then obtain fx1 s1 fx2 where "f k s = Done (fx1, s1)" "for_each f ks s1 = Done (fx2, t)"
    and "fx = fx1 @ fx2"
    by (auto simp: bind_exec_eq_Done)
  with Cons assms(3) show ?case by (metis list.set_intros)
qed

lemma fold_keeps:
  assumes "P s" and "\<And>x s. x \<in> set xs \<Longrightarrow> P s \<Longrightarrow> P (f x s)"
  shows "P (fold f xs s)"
  using assms by (induction xs arbitrary: s) auto

subsection \<open>Successors and predecessors of a word\<close>

lemma word_less_add_one: "(x::'a::len word) < y \<Longrightarrow> x + 1 \<le> y"
  by (rule inc_le)

lemma unat_minus_one_less: "(x::'a::len word) < y \<Longrightarrow> unat (y - 1) = unat y - 1"
  by (rule unat_minus_one) auto

lemma word_le_minus_one: "(x::'a::len word) < y \<Longrightarrow> x \<le> y - 1"
  by (simp add: word_le_nat_alt word_less_nat_alt unat_minus_one_less)

lemma word_minus_one_less: "(x::'a::len word) < y \<Longrightarrow> y - 1 < y"
  by (simp add: word_less_nat_alt unat_minus_one_less)

lemma word_less_iff_le_minus_one:
  "(z::'a::len word) < y \<Longrightarrow> x < y \<longleftrightarrow> x \<le> y - 1"
  by (meson order_le_less_trans word_le_minus_one word_minus_one_less)

text \<open>\<open>u64::from\<close> of a smaller word, and \<open>as\<close> back.\<close>

lemma widen_narrow [simp]: "(ucast (ucast (x :: u32) :: u64) :: u32) = x"
  by (rule bit_word_eqI) (auto simp: bit_ucast_iff)

lemma widen_zero [simp]: "(ucast (x :: u32) :: u64) = 0 \<longleftrightarrow> x = 0"
  by (metis widen_narrow unsigned_0)

subsection \<open>Byte order\<close>

text \<open>\<open>to_be_bytes\<close> and \<open>to_le_bytes\<close>; byte \<open>i\<close> of a word counts from the least significant.\<close>

definition byte_at :: "nat \<Rightarrow> 'a::len word \<Rightarrow> u8" where
  "byte_at i n = ucast (drop_bit (8 * i) n)"

definition u32_be_bytes :: "u32 \<Rightarrow> bytes" where
  "u32_be_bytes n = [byte_at 3 n, byte_at 2 n, byte_at 1 n, byte_at 0 n]"

definition u64_le_bytes :: "u64 \<Rightarrow> bytes" where
  "u64_le_bytes n = map (\<lambda>i. byte_at i n) [0, 1, 2, 3, 4, 5, 6, 7]"

definition u64_be_bytes :: "u64 \<Rightarrow> bytes" where
  "u64_be_bytes n = rev (u64_le_bytes n)"

lemma unat_byte_at: "unat (byte_at i n) = (unat n div 2 ^ (8 * i)) mod 256"
  by (simp add: byte_at_def unsigned_ucast_eq take_bit_eq_mod unsigned_drop_bit_eq
      flip: drop_bit_eq_div)

lemma length_u32_be_bytes [simp]: "length (u32_be_bytes n) = 4"
  by (simp add: u32_be_bytes_def)

lemma length_u64_le_bytes [simp]: "length (u64_le_bytes n) = 8"
  by (simp add: u64_le_bytes_def)

lemma length_u64_be_bytes [simp]: "length (u64_be_bytes n) = 8"
  by (simp add: u64_be_bytes_def)

text \<open>Big-endian bytes compare as the numbers do.\<close>

lemma nat_less_by_digits:
  "(x::nat) < y \<longleftrightarrow> x div 256 < y div 256 \<or> x div 256 = y div 256 \<and> x mod 256 < y mod 256"
proof -
  have "x < y" if "x div 256 < y div 256"
    using that by (metis div_le_mono not_le)
  moreover have "x div 256 \<le> y div 256" if "x < y"
    using that by (simp add: div_le_mono)
  moreover have "x < y \<longleftrightarrow> x mod 256 < y mod 256" if "x div 256 = y div 256"
    using that div_mult_mod_eq [of x 256] div_mult_mod_eq [of y 256] by linarith
  ultimately show ?thesis by (auto simp: order_le_less)
qed

lemma nat_eq_by_digits: "(x::nat) = y \<longleftrightarrow> x div 256 = y div 256 \<and> x mod 256 = y mod 256"
  by (metis div_mult_mod_eq)

lemma u32_be_bytes_less: "u32_be_bytes a < u32_be_bytes b \<longleftrightarrow> a < b"
proof -
  define x1 x2 x3 where "x1 = unat a div 256" and "x2 = x1 div 256" and "x3 = x2 div 256"
  define y1 y2 y3 where "y1 = unat b div 256" and "y2 = y1 div 256" and "y3 = y2 div 256"
  note defs = x1_def x2_def x3_def y1_def y2_def y3_def
  have top: "x3 < 256" "y3 < 256"
    using unsigned_less [of a, where ?'a = nat] unsigned_less [of b, where ?'a = nat]
    by (simp_all add: defs less_mult_imp_div_less)
  have "unat a < unat b \<longleftrightarrow> x1 < y1 \<or> x1 = y1 \<and> unat a mod 256 < unat b mod 256"
    unfolding x1_def y1_def by (rule nat_less_by_digits)
  moreover have "x1 < y1 \<longleftrightarrow> x2 < y2 \<or> x2 = y2 \<and> x1 mod 256 < y1 mod 256"
    unfolding x2_def y2_def by (rule nat_less_by_digits)
  moreover have "x1 = y1 \<longleftrightarrow> x2 = y2 \<and> x1 mod 256 = y1 mod 256"
    unfolding x2_def y2_def by (rule nat_eq_by_digits)
  moreover have "x2 < y2 \<longleftrightarrow> x3 < y3 \<or> x3 = y3 \<and> x2 mod 256 < y2 mod 256"
    unfolding x3_def y3_def by (rule nat_less_by_digits)
  moreover have "x2 = y2 \<longleftrightarrow> x3 = y3 \<and> x2 mod 256 = y2 mod 256"
    unfolding x3_def y3_def by (rule nat_eq_by_digits)
  moreover have "unat (byte_at 3 a) = x3" "unat (byte_at 3 b) = y3"
    "unat (byte_at 2 a) = x2 mod 256" "unat (byte_at 2 b) = y2 mod 256"
    "unat (byte_at 1 a) = x1 mod 256" "unat (byte_at 1 b) = y1 mod 256"
    "unat (byte_at 0 a) = unat a mod 256" "unat (byte_at 0 b) = unat b mod 256"
    using top by (simp_all add: unat_byte_at defs div_mult2_eq [symmetric])
  ultimately show ?thesis
    by (auto simp: u32_be_bytes_def word_less_nat_alt word_unat_eq_iff)
qed

end
