(* ===== verification/Identity.thy ===== *)
theory Identity
  imports Prelude
begin

section \<open>The identity seam: \<open>crates/types\<close>\<close>

text \<open>
  The reserve entry \<open>(address, batchID, stampHash)\<close> and the small identifiers of the
  scheduler. A fixed array \<open>[u8; 32]\<close> is a list of bytes; that it has 32 of them is
  \<open>wf_triple\<close>, which the constructors of the source have by typing. The derived order of
  \<open>Triple\<close> is lexicographic, field by field, which is the order of a \<open>BTreeMap\<close> keyed by it.
\<close>

type_synonym Address = bytes
type_synonym BatchId = bytes
type_synonym StampHash = bytes
type_synonym PeerId = u8
type_synonym Bin = u8
type_synonym BinId = u64

datatype triple = Triple (address: Address) (batch_id: BatchId) (stamp_hash: StampHash)

definition triple_key :: "triple \<Rightarrow> Address \<times> BatchId \<times> StampHash" where
  "triple_key t = (address t, batch_id t, stamp_hash t)"

lemma triple_key_eq [simp]: "triple_key a = triple_key b \<longleftrightarrow> a = b"
  by (cases a; cases b) (simp add: triple_key_def)

instantiation triple :: linorder
begin

definition less_eq_triple :: "triple \<Rightarrow> triple \<Rightarrow> bool" where
  "less_eq_triple a b = (triple_key a \<le> triple_key b)"

definition less_triple :: "triple \<Rightarrow> triple \<Rightarrow> bool" where
  "less_triple a b = (triple_key a < triple_key b)"

instance
  by standard (auto simp: less_eq_triple_def less_triple_def order_less_le)

end

definition wf_triple :: "triple \<Rightarrow> bool" where
  "wf_triple t \<longleftrightarrow> length (address t) = 32 \<and> length (batch_id t) = 32 \<and> length (stamp_hash t) = 32"

definition Triple_new :: "Address \<Rightarrow> BatchId \<Rightarrow> StampHash \<Rightarrow> triple" where
  "Triple_new a b s = Triple a b s"

text \<open>\<open>Triple::mock\<close>: byte 0 is a tag, the last four bytes are the seed, the rest is zero.\<close>

definition mock_tag :: "u32 \<Rightarrow> u8 \<Rightarrow> bytes" where
  "mock_tag n k = k # replicate 27 0 @ u32_be_bytes n"

definition mock :: "u32 \<Rightarrow> triple" where
  "mock n = Triple (mock_tag n 0xA) (mock_tag n 0xB) (mock_tag n 0xC)"

lemma wf_mock [simp]: "wf_triple (mock n)"
  by (simp add: wf_triple_def mock_def mock_tag_def)

lemma list_less_append [simp]:
  "(xs @ ys < xs @ (zs :: 'a::linorder list)) \<longleftrightarrow> ys < zs"
  by (induction xs) auto

lemma mock_tag_less: "mock_tag m k < mock_tag n k \<longleftrightarrow> m < n"
  by (simp add: mock_tag_def u32_be_bytes_less del: replicate.simps)

text \<open>The seeds keep their order and so stay distinct, as the comment on \<open>mock\<close> promises.\<close>

lemma mock_less: "mock m < mock n \<longleftrightarrow> m < n"
  by (auto simp: less_triple_def triple_key_def mock_def mock_tag_less less_prod_def')

end
