(* ===== verification/Machine.thy ===== *)
theory Machine
  imports Identity
begin

section \<open>The scheduling machine: \<open>crates/machine/src/lib.rs\<close>\<close>

text \<open>
  \<open>PullState<C>\<close>, polymorphic in the chunk identity as the source is. Every action takes the
  state last and returns the \<open>bool\<close> of the method with the state it leaves. Methods whose name
  is also a field (\<open>want\<close>) carry the suffix \<open>_act\<close>.
\<close>

record config =
  dedup :: bool
  failover :: bool
  exclude :: bool
  reset_on_exhaust :: bool
  single_source :: bool
  priority :: bool
  enable_live :: bool

definition PRODUCTION :: config where
  "PRODUCTION = \<lparr>dedup = True, failover = True, exclude = True, reset_on_exhaust = True,
     single_source = False, priority = True, enable_live = True\<rparr>"

type_synonym 'c peer_sets = "('c, PeerId fset) fmap"

record 'c pull_state =
  cfg :: config
  want :: "'c peer_sets"
  holders :: "'c peer_sets"
  excluded :: "'c peer_sets"
  arrived :: "'c fset"
  live :: "'c fset"
  rejected :: "'c fset"
  got :: "'c fset"
  prio :: "('c, u8) fmap"
  assign :: "('c, PeerId) fmap"
  conflict :: bool
  ndeliv :: u32
  npre :: u32

subsection \<open>The set-valued maps\<close>

definition set_insert :: "'c peer_sets \<Rightarrow> 'c \<Rightarrow> PeerId \<Rightarrow> bool \<times> 'c peer_sets" where
  "set_insert m c p =
     (let s = get_or {||} m c in (p |\<notin>| s, fmupd c (finsert p s) m))"

definition set_remove :: "'c peer_sets \<Rightarrow> 'c \<Rightarrow> PeerId \<Rightarrow> bool \<times> 'c peer_sets" where
  "set_remove m c p = (case fmlookup m c of
      Some s \<Rightarrow>
        (let s' = s |-| {|p|}
         in (p |\<in>| s, if s' = {||} then fmdrop c m else fmupd c s' m))
    | None \<Rightarrow> (False, m))"

definition set_contains :: "'c peer_sets \<Rightarrow> 'c \<Rightarrow> PeerId \<Rightarrow> bool" where
  "set_contains m c p = (case fmlookup m c of Some s \<Rightarrow> p |\<in>| s | None \<Rightarrow> False)"

definition contains_key :: "('c, 'v) fmap \<Rightarrow> 'c \<Rightarrow> bool" where
  "contains_key m c \<longleftrightarrow> c |\<in>| fmdom m"

subsection \<open>Construction\<close>

definition PullState_new :: "config \<Rightarrow> 'c pull_state" where
  "PullState_new k = \<lparr>cfg = k, want = fmempty, holders = fmempty, excluded = fmempty,
     arrived = {||}, live = {||}, rejected = {||}, got = {||}, prio = fmempty, assign = fmempty,
     conflict = False, ndeliv = 0, npre = 0\<rparr>"

definition preload :: "'c \<Rightarrow> 'c pull_state \<Rightarrow> bool \<times> 'c pull_state" where
  "preload c s =
     (if c |\<notin>| got s then (True, s\<lparr>got := finsert c (got s), npre := npre s + 1\<rparr>)
      else (False, s))"

definition set_prio :: "'c \<Rightarrow> u8 \<Rightarrow> 'c pull_state \<Rightarrow> 'c pull_state" where
  "set_prio c depth s = s\<lparr>prio := fmupd c depth (prio s)\<rparr>"

definition set_assign :: "'c \<Rightarrow> PeerId \<Rightarrow> 'c pull_state \<Rightarrow> 'c pull_state" where
  "set_assign c p s = s\<lparr>assign := fmupd c p (assign s)\<rparr>"

subsection \<open>Observation actions\<close>

definition observe_holder :: "'c \<Rightarrow> PeerId \<Rightarrow> 'c pull_state \<Rightarrow> bool \<times> 'c pull_state" where
  "observe_holder c p s =
     (let (new, hs) = set_insert (holders s) c p in (new, s\<lparr>holders := hs\<rparr>))"

definition lose_holder :: "'c \<Rightarrow> PeerId \<Rightarrow> 'c pull_state \<Rightarrow> bool \<times> 'c pull_state" where
  "lose_holder c p s =
     (let (held, hs) = set_remove (holders s) c p;
          ws = snd (set_remove (want s) c p)
      in (held, s\<lparr>holders := hs, want := ws\<rparr>))"

definition arrive_hist :: "'c \<Rightarrow> 'c pull_state \<Rightarrow> bool \<times> 'c pull_state" where
  "arrive_hist c s =
     (if c |\<in>| got s \<or> c |\<in>| rejected s then (False, s)
      else (c |\<notin>| arrived s, s\<lparr>arrived := finsert c (arrived s)\<rparr>))"

definition arrive_live :: "'c \<Rightarrow> 'c pull_state \<Rightarrow> bool \<times> 'c pull_state" where
  "arrive_live c s =
     (if c |\<in>| got s \<or> c |\<in>| rejected s \<or> c |\<in>| arrived s then (False, s)
      else (True, s\<lparr>arrived := finsert c (arrived s), live := finsert c (live s)\<rparr>))"

subsection \<open>The guard\<close>

definition addressed :: "'c pull_state \<Rightarrow> 'c \<Rightarrow> bool" where
  "addressed s c \<longleftrightarrow> c |\<in>| got s \<or> contains_key (want s) c"

definition eligible :: "'c pull_state \<Rightarrow> 'c \<Rightarrow> bool" where
  "eligible s d \<longleftrightarrow>
     (if d |\<in>| got s then False
      else (case fmlookup (holders s) d of
          None \<Rightarrow> False
        | Some hs \<Rightarrow> fBex hs (\<lambda>p. \<not> set_contains (excluded s) d p)))"

definition prio_ok :: "'c pull_state \<Rightarrow> 'c \<Rightarrow> bool" where
  "prio_ok s c \<longleftrightarrow>
     (if \<not> priority (cfg s) then True
      else (let pc = get_or 0 (prio s) c
            in fBall (arrived s) (\<lambda>d.
                 get_or 0 (prio s) d \<le> pc \<or> \<not> eligible s d \<or> addressed s d)))"

definition claimable :: "'c pull_state \<Rightarrow> 'c \<Rightarrow> PeerId \<Rightarrow> bool" where
  "claimable s c p \<longleftrightarrow>
     c |\<in>| arrived s
     \<and> set_contains (holders s) c p
     \<and> c |\<notin>| got s
     \<and> \<not> set_contains (want s) c p
     \<and> \<not> set_contains (excluded s) c p
     \<and> (\<not> dedup (cfg s) \<or> \<not> contains_key (want s) c)
     \<and> (\<not> single_source (cfg s) \<or> fmlookup (assign s) c = Some p)
     \<and> (c |\<notin>| live s \<or> enable_live (cfg s))
     \<and> prio_ok s c"

subsection \<open>The actions\<close>

definition want_act :: "'c \<Rightarrow> PeerId \<Rightarrow> 'c pull_state \<Rightarrow> bool \<times> 'c pull_state" where
  "want_act c p s =
     (if \<not> claimable s c p then (False, s)
      else (True, s\<lparr>want := snd (set_insert (want s) c p)\<rparr>))"

definition deliver :: "'c \<Rightarrow> PeerId \<Rightarrow> 'c pull_state \<Rightarrow> bool \<times> 'c pull_state" where
  "deliver c p s =
     (if \<not> set_contains (want s) c p then (False, s)
      else (True, s\<lparr>conflict := (if c |\<in>| got s then True else conflict s),
                    got := finsert c (got s),
                    ndeliv := ndeliv s + 1,
                    want := snd (set_remove (want s) c p)\<rparr>))"

definition stall :: "'c \<Rightarrow> PeerId \<Rightarrow> 'c pull_state \<Rightarrow> bool \<times> 'c pull_state" where
  "stall c p s =
     (if \<not> failover (cfg s) \<or> \<not> set_contains (want s) c p then (False, s)
      else (let s' = s\<lparr>want := snd (set_remove (want s) c p)\<rparr>
            in (True, if exclude (cfg s)
                      then s'\<lparr>excluded := snd (set_insert (excluded s) c p)\<rparr> else s')))"

definition reject :: "'c \<Rightarrow> 'c pull_state \<Rightarrow> bool \<times> 'c pull_state" where
  "reject c s =
     (if c |\<in>| got s \<or> c |\<in>| rejected s then (False, s)
      else (True, s\<lparr>rejected := finsert c (rejected s),
                    arrived := arrived s |-| {|c|},
                    live := live s |-| {|c|},
                    want := fmdrop c (want s)\<rparr>))"

definition can_reset_excluded :: "'c pull_state \<Rightarrow> 'c \<Rightarrow> bool" where
  "can_reset_excluded s c \<longleftrightarrow>
     reset_on_exhaust (cfg s)
     \<and> c |\<in>| arrived s
     \<and> c |\<notin>| got s
     \<and> \<not> contains_key (want s) c
     \<and> (case fmlookup (excluded s) c of
          None \<Rightarrow> False
        | Some ex \<Rightarrow> ex \<noteq> {||} \<and>
            (case fmlookup (holders s) c of
               Some hs \<Rightarrow> fBall hs (\<lambda>p. p |\<in>| ex)
             | None \<Rightarrow> True))"

definition reset_excluded :: "'c \<Rightarrow> 'c pull_state \<Rightarrow> bool \<times> 'c pull_state" where
  "reset_excluded c s =
     (if \<not> can_reset_excluded s c then (False, s)
      else (True, s\<lparr>excluded := fmdrop c (excluded s)\<rparr>))"

definition forget :: "'c \<Rightarrow> 'c pull_state \<Rightarrow> bool \<times> 'c pull_state" where
  "forget c s =
     (if c |\<notin>| got s \<and> c |\<notin>| rejected s then (False, s)
      else (True, s\<lparr>arrived := arrived s |-| {|c|},
                    live := live s |-| {|c|},
                    holders := fmdrop c (holders s),
                    excluded := fmdrop c (excluded s),
                    prio := fmdrop c (prio s)\<rparr>))"

subsection \<open>Queries\<close>

definition has :: "'c pull_state \<Rightarrow> 'c \<Rightarrow> bool" where
  "has s c \<longleftrightarrow> c |\<in>| got s"

definition is_rejected :: "'c pull_state \<Rightarrow> 'c \<Rightarrow> bool" where
  "is_rejected s c \<longleftrightarrow> c |\<in>| rejected s"

definition deficit :: "'c pull_state \<Rightarrow> nat" where
  "deficit s = fcard (ffilter (\<lambda>c. c |\<notin>| got s) (arrived s))"

definition deliveries :: "'c pull_state \<Rightarrow> u32" where
  "deliveries s = ndeliv s"

text \<open>The keys, in order, under which peer \<open>p\<close> is filed: \<open>claims_of\<close>, \<open>held_by\<close>, \<open>load\<close>.\<close>

definition keys_with :: "('c::linorder) peer_sets \<Rightarrow> PeerId \<Rightarrow> 'c list" where
  "keys_with m p = filter (\<lambda>c. set_contains m c p) (sorted_list_of_fset (fmdom m))"

definition load :: "('c::linorder) pull_state \<Rightarrow> PeerId \<Rightarrow> nat" where
  "load s p = length (keys_with (want s) p)"

definition claims_of :: "('c::linorder) pull_state \<Rightarrow> PeerId \<Rightarrow> 'c list" where
  "claims_of s p = keys_with (want s) p"

definition held_by :: "('c::linorder) pull_state \<Rightarrow> PeerId \<Rightarrow> 'c list" where
  "held_by s p = keys_with (holders s) p"

definition enabled_wants :: "('c::linorder) pull_state \<Rightarrow> ('c \<times> PeerId) list" where
  "enabled_wants s =
     concat (map (\<lambda>c.
       if c |\<in>| got s then []
       else (case fmlookup (holders s) c of
           None \<Rightarrow> []
         | Some hs \<Rightarrow> map (Pair c) (filter (claimable s c) (sorted_list_of_fset hs))))
       (sorted_list_of_fset (arrived s)))"

text \<open>\<open>check_invariants\<close>: the first violated invariant by name, in the order of the source.\<close>

definition check_invariants :: "('c::linorder) pull_state \<Rightarrow> string + unit" where
  "check_invariants s =
     (if conflict s then Inl ''ConflictFree''
      else if unat (ndeliv s + npre s) \<noteq> fcard (got s) then Inl ''DeliveryFloor''
      else if dedup (cfg s) \<and>
          fBex (fmdom (want s)) (\<lambda>c. 1 < fcard (get_or {||} (want s) c)) then Inl ''DedupInv''
      else if fBex (fmdom (want s)) (\<lambda>c. fBex (get_or {||} (want s) c) (\<lambda>p.
          \<not> set_contains (holders s) c p \<or> set_contains (excluded s) c p)) then Inl ''ClaimsLive''
      else Inr ())"

end
