(* ===== verification/Transition.thy ===== *)
theory Transition
  imports Prelude
begin

section \<open>Transition systems\<close>

text \<open>
  What every state machine of the program shares: a set of start states, a step relation, and
  the two laws that make a predicate an invariant. A component gives its own start states, step
  relation and invariant as an interpretation of \<open>safety\<close> and reads off that the invariant
  holds after any run. \<open>simulation\<close> relates a concrete machine to the specification it refines.
\<close>

locale safety =
  fixes start :: "'s \<Rightarrow> bool"
    and step :: "'s \<Rightarrow> 's \<Rightarrow> bool"
    and inv :: "'s \<Rightarrow> bool"
  assumes inv_start: "start s \<Longrightarrow> inv s"
    and inv_step: "inv s \<Longrightarrow> step s t \<Longrightarrow> inv t"
begin

lemma inv_steps: "step\<^sup>*\<^sup>* s t \<Longrightarrow> inv s \<Longrightarrow> inv t"
  by (induction rule: rtranclp_induct) (auto intro: inv_step)

lemma inv_run: "start s \<Longrightarrow> step\<^sup>*\<^sup>* s t \<Longrightarrow> inv t"
  by (blast intro: inv_start inv_steps)

text \<open>A relation between two states of a run that every step has and that composes.\<close>

lemma run_relation:
  assumes run: "step\<^sup>*\<^sup>* s t" and s: "inv s" and refl: "\<And>u. R u u"
    and trans: "\<And>u v w. R u v \<Longrightarrow> R v w \<Longrightarrow> R u w"
    and one: "\<And>u v. inv u \<Longrightarrow> step u v \<Longrightarrow> R u v"
  shows "R s t"
  using run
proof (induction rule: rtranclp_induct)
  case base
  show ?case by (rule refl)
next
  case (step u v)
  from step.hyps(1) s have "inv u" by (rule inv_steps)
  with one step show ?case by (blast intro: trans)
qed

end

text \<open>A concrete machine whose every step is matched, up to stuttering, by the specification.\<close>

locale simulation = safety start step inv
  for start :: "'s \<Rightarrow> bool" and step :: "'s \<Rightarrow> 's \<Rightarrow> bool" and inv :: "'s \<Rightarrow> bool" +
  fixes astart :: "'a \<Rightarrow> bool"
    and astep :: "'a \<Rightarrow> 'a \<Rightarrow> bool"
    and abstr :: "'s \<Rightarrow> 'a"
  assumes abs_start: "start s \<Longrightarrow> astart (abstr s)"
    and abs_step: "inv s \<Longrightarrow> step s t \<Longrightarrow> astep (abstr s) (abstr t) \<or> abstr s = abstr t"
begin

lemma abs_steps: "step\<^sup>*\<^sup>* s t \<Longrightarrow> inv s \<Longrightarrow> astep\<^sup>*\<^sup>* (abstr s) (abstr t)"
proof (induction rule: rtranclp_induct)
  case (step t u)
  then have "inv t" by (blast intro: inv_steps)
  with step show ?case by (metis abs_step rtranclp.rtrancl_into_rtrancl)
qed simp

lemma abs_run: "start s \<Longrightarrow> step\<^sup>*\<^sup>* s t \<Longrightarrow> astart (abstr s) \<and> astep\<^sup>*\<^sup>* (abstr s) (abstr t)"
  by (blast intro: abs_start abs_steps inv_start)

end

end
