(* ===== verification/Machine_Inv.thy ===== *)
theory Machine_Inv
  imports Machine Transition
begin

section \<open>The scheduling machine keeps its invariants\<close>

text \<open>
  The views of the lease table, the holders and the bars as peer sets per id, the invariant
  that ties them to the window and the store, and that every action keeps it.
\<close>

abbreviation claims :: "'c pull_state \<Rightarrow> 'c \<Rightarrow> PeerId fset" where
  "claims s c \<equiv> get_or {||} (want s) c"

abbreviation holds :: "'c pull_state \<Rightarrow> 'c \<Rightarrow> PeerId fset" where
  "holds s c \<equiv> get_or {||} (holders s) c"

abbreviation bars :: "'c pull_state \<Rightarrow> 'c \<Rightarrow> PeerId fset" where
  "bars s c \<equiv> get_or {||} (excluded s) c"

subsection \<open>The set-valued maps\<close>

text \<open>The normal form the source keeps: a key with no peer is not in the map.\<close>

definition normal :: "'c peer_sets \<Rightarrow> bool" where
  "normal m \<longleftrightarrow> (\<forall>c. fmlookup m c \<noteq> Some {||})"

lemma set_contains_iff [simp]: "set_contains m c p \<longleftrightarrow> p |\<in>| get_or {||} m c"
  by (auto simp: set_contains_def get_or_def split: option.splits)

lemma set_insert_eq [simp]:
  "set_insert m c p = (p |\<notin>| get_or {||} m c, fmupd c (finsert p (get_or {||} m c)) m)"
  by (simp add: set_insert_def Let_def)

lemma get_or_set_remove [simp]:
  "get_or {||} (snd (set_remove m c p)) d =
     (if d = c then get_or {||} m c |-| {|p|} else get_or {||} m d)"
  by (auto simp: set_remove_def get_or_def Let_def split: option.splits)

lemma fst_set_remove [simp]: "fst (set_remove m c p) \<longleftrightarrow> p |\<in>| get_or {||} m c"
  by (auto simp: set_remove_def get_or_def Let_def split: option.splits)

lemma normal_empty [simp]: "normal fmempty"
  by (simp add: normal_def)

lemma normal_insert [simp]: "normal m \<Longrightarrow> normal (fmupd c (finsert p ps) m)"
  by (simp add: normal_def)

lemma normal_remove [simp]: "normal m \<Longrightarrow> normal (snd (set_remove m c p))"
  by (auto simp: normal_def set_remove_def Let_def split: option.splits)

lemma normal_drop [simp]: "normal m \<Longrightarrow> normal (fmdrop c m)"
  by (simp add: normal_def)

lemma contains_key_normal: "normal m \<Longrightarrow> contains_key m c \<longleftrightarrow> get_or {||} m c \<noteq> {||}"
  by (auto simp: normal_def contains_key_def get_or_def fmlookup_dom_iff split: option.splits)

lemma set_keys_with [simp]: "set (keys_with m p) = {c. p |\<in>| get_or {||} m c}"
  by (auto simp: keys_with_def fmlookup_dom_iff get_or_def split: option.splits)

lemma distinct_keys_with [simp]: "distinct (keys_with m p)"
  by (simp add: keys_with_def)

subsection \<open>The invariant\<close>

text \<open>
  With \<open>dedup\<close>: no double delivery was seen, deliveries and preloads count the store (modulo
  \<open>2^32\<close>, the width of the counters), a claimed id is in the open window and not yet settled,
  it has one claimant, and that peer holds it and is not barred for it.
\<close>

definition machine_inv :: "'c pull_state \<Rightarrow> bool" where
  "machine_inv s \<longleftrightarrow>
     dedup (cfg s)
     \<and> normal (want s) \<and> normal (holders s) \<and> normal (excluded s)
     \<and> \<not> conflict s
     \<and> ndeliv s + npre s = of_nat (fcard (got s))
     \<and> (\<forall>c p q. p |\<in>| claims s c \<longrightarrow> q |\<in>| claims s c \<longrightarrow> p = q)
     \<and> (\<forall>c p. p |\<in>| claims s c \<longrightarrow> p |\<in>| holds s c \<and> p |\<notin>| bars s c)
     \<and> (\<forall>c p. p |\<in>| claims s c \<longrightarrow> c |\<in>| arrived s \<and> c |\<notin>| got s)
     \<and> arrived s |\<inter>| rejected s = {||}
     \<and> live s |\<subseteq>| arrived s"

lemmas machine_defs = preload_def set_prio_def set_assign_def observe_holder_def lose_holder_def
  arrive_hist_def arrive_live_def want_act_def deliver_def stall_def reject_def
  reset_excluded_def forget_def

lemma fcard_finsert_word [simp]:
  "c |\<notin>| S \<Longrightarrow> (of_nat (fcard (finsert c S)) :: u32) = of_nat (fcard S) + 1"
  by (simp add: fcard_finsert_disjoint)

lemma fcard_empty [simp]: "fcard {||} = 0"
  by (simp add: fcard.rep_eq)

lemma machine_inv_new [simp]: "dedup k \<Longrightarrow> machine_inv (PullState_new k)"
  by (simp add: machine_inv_def PullState_new_def)

lemma machine_inv_preload [inv_intros]:
  "machine_inv s \<Longrightarrow> claims s c = {||} \<Longrightarrow> machine_inv (snd (preload c s))"
  by (auto simp: machine_inv_def preload_def add.assoc [symmetric])

lemma machine_inv_set_prio [inv_intros]: "machine_inv s \<Longrightarrow> machine_inv (set_prio c d s)"
  by (simp add: machine_inv_def set_prio_def)

lemma machine_inv_set_assign [inv_intros]: "machine_inv s \<Longrightarrow> machine_inv (set_assign c p s)"
  by (simp add: machine_inv_def set_assign_def)

lemma machine_inv_observe [inv_intros]: "machine_inv s \<Longrightarrow> machine_inv (snd (observe_holder c p s))"
  by (auto simp: machine_inv_def observe_holder_def)

lemma machine_inv_lose [inv_intros]: "machine_inv s \<Longrightarrow> machine_inv (snd (lose_holder c p s))"
  by (auto simp: machine_inv_def lose_holder_def case_prod_beta Let_def)

lemma machine_inv_arrive_hist [inv_intros]: "machine_inv s \<Longrightarrow> machine_inv (snd (arrive_hist c s))"
  by (auto simp: machine_inv_def arrive_hist_def)

lemma machine_inv_arrive_live [inv_intros]: "machine_inv s \<Longrightarrow> machine_inv (snd (arrive_live c s))"
  by (auto simp: machine_inv_def arrive_live_def)

lemma machine_inv_want [inv_intros]: "machine_inv s \<Longrightarrow> machine_inv (snd (want_act c p s))"
  by (auto simp: machine_inv_def want_act_def claimable_def contains_key_normal)

lemma machine_inv_deliver [inv_intros]: "machine_inv s \<Longrightarrow> machine_inv (snd (deliver c p s))"
  by (auto simp: machine_inv_def deliver_def add.commute add.left_commute)

lemma machine_inv_stall [inv_intros]: "machine_inv s \<Longrightarrow> machine_inv (snd (stall c p s))"
  by (auto simp: machine_inv_def stall_def Let_def)

lemma machine_inv_reject [inv_intros]: "machine_inv s \<Longrightarrow> machine_inv (snd (reject c s))"
  by (auto simp: machine_inv_def reject_def)

lemma machine_inv_reset [inv_intros]: "machine_inv s \<Longrightarrow> machine_inv (snd (reset_excluded c s))"
  by (auto simp: machine_inv_def reset_excluded_def)

lemma machine_inv_forget [inv_intros]: "machine_inv s \<Longrightarrow> machine_inv (snd (forget c s))"
  by (auto simp: machine_inv_def forget_def)

subsection \<open>Runs of the machine\<close>

text \<open>
  The public mutators of \<open>PullState\<close>, as one step relation: any caller, any order, any argument.
  The one restriction is on \<open>preload\<close>, the view of the store at sync start: an id that is
  in flight is not preloaded.
\<close>

datatype 'c action =
    Preload 'c | SetPrio 'c u8 | SetAssign 'c PeerId
  | ObserveHolder 'c PeerId | LoseHolder 'c PeerId
  | ArriveHist 'c | ArriveLive 'c
  | Want 'c PeerId | Deliver 'c PeerId | Stall 'c PeerId
  | Reject 'c | ResetExcluded 'c | Forget 'c

fun do_action :: "'c action \<Rightarrow> 'c pull_state \<Rightarrow> 'c pull_state" where
  "do_action (Preload c) s = snd (preload c s)"
| "do_action (SetPrio c d) s = set_prio c d s"
| "do_action (SetAssign c p) s = set_assign c p s"
| "do_action (ObserveHolder c p) s = snd (observe_holder c p s)"
| "do_action (LoseHolder c p) s = snd (lose_holder c p s)"
| "do_action (ArriveHist c) s = snd (arrive_hist c s)"
| "do_action (ArriveLive c) s = snd (arrive_live c s)"
| "do_action (Want c p) s = snd (want_act c p s)"
| "do_action (Deliver c p) s = snd (deliver c p s)"
| "do_action (Stall c p) s = snd (stall c p s)"
| "do_action (Reject c) s = snd (reject c s)"
| "do_action (ResetExcluded c) s = snd (reset_excluded c s)"
| "do_action (Forget c) s = snd (forget c s)"

inductive machine_step :: "'c pull_state \<Rightarrow> 'c pull_state \<Rightarrow> bool" where
  act: "(\<And>c. a = Preload c \<Longrightarrow> \<not> contains_key (want s) c) \<Longrightarrow> machine_step s (do_action a s)"

inductive_cases machine_stepE: "machine_step s t"

lemma machine_inv_step:
  assumes "machine_inv s" and "machine_step s t"
  shows "machine_inv t"
  using assms(2)
proof (rule machine_stepE)
  fix a
  assume t: "t = do_action a s" and pre: "\<And>c. a = Preload c \<Longrightarrow> \<not> contains_key (want s) c"
  have "claims s c = {||}" if "a = Preload c" for c
    using pre [OF that] assms(1) by (simp add: machine_inv_def contains_key_normal)
  then show ?thesis using assms(1) t by (cases a) (auto intro: inv_intros)
qed

interpretation machine: safety "\<lambda>s. \<exists>k. dedup k \<and> s = PullState_new k" machine_step machine_inv
  by unfold_locales (auto intro: machine_inv_step)

subsection \<open>What no action changes\<close>

lemma cfg_do_action [frame, simp]: "cfg (do_action a s) = cfg s"
  by (cases a) (auto simp: machine_defs case_prod_beta Let_def)

lemma got_do_action: "got s |\<subseteq>| got (do_action a s)"
  by (cases a) (auto simp: machine_defs case_prod_beta Let_def)

lemma rejected_do_action: "rejected s |\<subseteq>| rejected (do_action a s)"
  by (cases a) (auto simp: machine_defs case_prod_beta Let_def)

lemma conflict_do_action: "conflict s \<Longrightarrow> conflict (do_action a s)"
  by (cases a) (auto simp: machine_defs case_prod_beta Let_def)

subsection \<open>The checks of \<open>check_invariants\<close>\<close>

lemma fcard_le_1: "(\<And>p q. p |\<in>| S \<Longrightarrow> q |\<in>| S \<Longrightarrow> p = q) \<Longrightarrow> fcard S \<le> 1"
  by (simp add: fcard.rep_eq card_le_Suc0_iff_eq)

lemma check_invariants_machine_inv:
  assumes "machine_inv s" and "fcard (got s) < 2 ^ 32"
  shows "check_invariants s = Inr ()"
proof -
  have "unat (ndeliv s + npre s) = fcard (got s)"
    using assms by (simp add: machine_inv_def unat_of_nat)
  moreover have "\<not> 1 < fcard (claims s c)" for c
    using assms(1) fcard_le_1 [of "claims s c"] by (auto simp: machine_inv_def not_less)
  ultimately show ?thesis
    using assms(1) by (auto simp: check_invariants_def machine_inv_def)
qed

subsection \<open>The guard\<close>

lemma eligible_iff: "eligible s d \<longleftrightarrow> d |\<notin>| got s \<and> \<not> holds s d |\<subseteq>| bars s d"
  by (auto simp: eligible_def get_or_def split: option.splits)

lemma prio_ok_iff:
  "prio_ok s c \<longleftrightarrow> (priority (cfg s) \<longrightarrow>
     (\<forall>d. d |\<in>| arrived s \<longrightarrow> get_or 0 (prio s) c < get_or 0 (prio s) d \<longrightarrow>
        eligible s d \<longrightarrow> addressed s d))"
  by (auto simp: prio_ok_def Let_def not_le)

lemma addressed_iff: "normal (want s) \<Longrightarrow> addressed s c \<longleftrightarrow> c |\<in>| got s \<or> claims s c \<noteq> {||}"
  by (auto simp: addressed_def contains_key_normal)

lemma set_enabled_wants: "set (enabled_wants s) = {(c, p). claimable s c p}"
  by (auto simp: enabled_wants_def claimable_def get_or_def set_contains_def
      split: option.splits if_splits)

lemma in_enabled_wants [simp]: "(c, p) \<in> set (enabled_wants s) \<longleftrightarrow> claimable s c p"
  by (simp add: set_enabled_wants)

lemma strict_sorted_enabled_wants: "sorted_wrt (<) (enabled_wants s)"
proof -
  let ?f = "\<lambda>c. if c |\<in>| got s then [] else
    (case fmlookup (holders s) c of None \<Rightarrow> []
     | Some hs \<Rightarrow> filter (claimable s c) (sorted_list_of_fset hs))"
  have "enabled_wants s = concat (map (\<lambda>c. map (Pair c) (?f c)) (sorted_list_of_fset (arrived s)))"
    unfolding enabled_wants_def by (intro arg_cong [where f = concat] map_cong) (auto split: option.splits)
  also have "sorted_wrt (<) \<dots>"
    by (rule strict_sorted_pairs) (auto simp: sorted_wrt_filter split: option.splits)
  finally show ?thesis .
qed

lemma enabled_wants_cong:
  "(\<And>c p. claimable s c p = claimable t c p) \<Longrightarrow> enabled_wants s = enabled_wants t"
  by (rule strict_sorted_equal)
     (auto simp: strict_sorted_enabled_wants set_enabled_wants)

lemma distinct_enabled_wants: "distinct (enabled_wants s)"
  using strict_sorted_enabled_wants by (metis strict_sorted_iff)

end
