(* ===== verification/Machine_Props.thy ===== *)
theory Machine_Props
  imports Machine_Inv
begin

section \<open>What the scheduling machine guarantees\<close>

text \<open>
  Safety over every run, progress (the production machine is never stuck with work it could do),
  neutrality of garbage collection, confluence of independent actions, and what each design knob
  buys: the ablations of the parity suite as theorems about every state.
\<close>

subsection \<open>Runs given by a list of actions\<close>

definition do_actions :: "'c action list \<Rightarrow> 'c pull_state \<Rightarrow> 'c pull_state" where
  "do_actions as s = fold do_action as s"

definition no_preload :: "'c action \<Rightarrow> bool" where
  "no_preload a \<longleftrightarrow> (case a of Preload c \<Rightarrow> False | _ \<Rightarrow> True)"

lemma machine_run_do_actions:
  "list_all no_preload as \<Longrightarrow> machine_step\<^sup>*\<^sup>* s (do_actions as s)"
proof (induction as arbitrary: s)
  case (Cons a as)
  then have "machine_step s (do_action a s)"
    by (intro machine_step.act) (auto simp: no_preload_def)
  with Cons show ?case
    by (auto simp: do_actions_def intro: converse_rtranclp_into_rtranclp)
qed (simp add: do_actions_def)

subsection \<open>Safety\<close>


definition sample_actions :: "u32 action list" where
  "sample_actions = [ObserveHolder 1 7, ObserveHolder 1 8, ObserveHolder 2 7, ArriveHist 1,
     ArriveLive 2, Want 1 7, Want 2 7, Stall 1 7, Want 1 8, Deliver 1 8, Deliver 2 7]"


subsection \<open>Progress\<close>

lemma deepest_eligible:
  assumes c: "c |\<in>| arrived s" "eligible s c" "\<not> addressed s c"
  obtains d where "d |\<in>| arrived s" "eligible s d" "\<not> addressed s d" "prio_ok s d"
    and "get_or 0 (prio s) c \<le> get_or 0 (prio s) d"
proof -
  let ?D = "{d. d |\<in>| arrived s \<and> eligible s d \<and> \<not> addressed s d}"
  have fin: "finite ?D" by (rule finite_subset [of _ "fset (arrived s)"]) auto
  have "?D \<noteq> {}" using c by blast
  with fin obtain d where d: "d \<in> ?D" and max: "\<forall>e \<in> ?D. get_or 0 (prio s) e \<le> get_or 0 (prio s) d"
    using finite_has_max by blast
  then have "prio_ok s d" by (fastforce simp: prio_ok_iff)
  with d max c that show thesis by blast
qed

lemma eligible_claimable:
  assumes inv: "machine_inv s" and open_cfg: "\<not> single_source (cfg s)" "enable_live (cfg s)"
    and d: "d |\<in>| arrived s" "eligible s d" "\<not> addressed s d" "prio_ok s d"
  shows "\<exists>p. claimable s d p"
proof -
  from d(2) obtain p where p: "p |\<in>| holds s d" "p |\<notin>| bars s d"
    by (auto simp: eligible_iff)
  have "d |\<notin>| got s" "claims s d = {||}" "\<not> contains_key (want s) d"
    using d(3) inv by (auto simp: addressed_iff machine_inv_def contains_key_normal)
  with d p open_cfg have "claimable s d p" by (simp add: claimable_def)
  then show ?thesis ..
qed

text \<open>
  The production machine is never stuck. Whenever an id is in the window, not stored, and some
  peer holds it, one of three things can happen next: some \<open>want\<close> is enabled (the priority guard
  cannot block them all), or the id is already in flight and its claim can be released, or its
  bars cover every holder and can be cleared.
\<close>

theorem machine_never_stuck:
  assumes "machine_inv s" and "cfg s = PRODUCTION"
    and "c |\<in>| arrived s" and "c |\<notin>| got s" and "holds s c \<noteq> {||}"
  shows "enabled_wants s \<noteq> [] \<or> (\<exists>p. p |\<in>| claims s c \<and> fst (stall c p s)) \<or> fst (reset_excluded c s)"
proof -
  consider (leased) p where "p |\<in>| claims s c"
    | (barred) "claims s c = {||}" "holds s c |\<subseteq>| bars s c"
    | (free) "claims s c = {||}" "eligible s c"
    using assms(4) by (auto simp: eligible_iff)
  then show ?thesis
  proof cases
    case leased
    then show ?thesis using assms(2) by (auto simp: stall_def PRODUCTION_def Let_def)
  next
    case barred
    then obtain ex where "fmlookup (excluded s) c = Some ex" "holds s c |\<subseteq>| ex"
      using assms(5) by (cases "fmlookup (excluded s) c") (auto simp: get_or_def)
    with barred assms have "can_reset_excluded s c"
      by (auto simp: can_reset_excluded_def PRODUCTION_def machine_inv_def contains_key_normal
          get_or_def split: option.splits)
    then show ?thesis by (simp add: reset_excluded_def)
  next
    case free
    with assms have "\<not> addressed s c" by (simp add: machine_inv_def addressed_iff)
    with free assms(3) obtain d where "d |\<in>| arrived s" "eligible s d" "\<not> addressed s d" "prio_ok s d"
      by (auto elim: deepest_eligible)
    with assms(1,2) obtain p where "claimable s d p"
      using eligible_claimable [of s d] by (auto simp: PRODUCTION_def)
    then have "(d, p) \<in> set (enabled_wants s)" by simp
    then show ?thesis by (metis empty_iff list.set(1))
  qed
qed

lemma machine_inv_do_actions:
  "dedup k \<Longrightarrow> list_all no_preload as \<Longrightarrow> machine_inv (do_actions as (PullState_new k))"
  using machine.inv_run machine_run_do_actions by blast

definition stalled_actions :: "u32 action list" where
  "stalled_actions = [ObserveHolder 1 7, ArriveHist 1, Want 1 7, Stall 1 7]"

theorem machine_never_stuck_witness:
  "let s = do_actions stalled_actions (PullState_new PRODUCTION)
   in enabled_wants s \<noteq> [] \<or> (\<exists>p. p |\<in>| claims s 1 \<and> fst (stall 1 p s)) \<or> fst (reset_excluded 1 s)"
  unfolding Let_def
proof (rule machine_never_stuck)
  let ?s = "do_actions stalled_actions (PullState_new PRODUCTION)"
  show "machine_inv ?s"
    by (rule machine_inv_do_actions) (simp_all add: PRODUCTION_def stalled_actions_def no_preload_def)
  show "cfg ?s = PRODUCTION" "1 |\<in>| arrived ?s" "1 |\<notin>| got ?s" "holds ?s 1 \<noteq> {||}"
    by code_simp+
qed

subsection \<open>The deficit\<close>

text \<open>
  A delivery on a claim is accepted, stores the id, counts one delivery, and lowers the deficit
  (the source's \<open>Phi\<close>: ids in the window not yet stored) by exactly one.
\<close>

theorem deliver_lowers_deficit:
  assumes "machine_inv s" and "p |\<in>| claims s c"
  shows "fst (deliver c p s) \<and> Suc (deficit (snd (deliver c p s))) = deficit s
    \<and> deliveries (snd (deliver c p s)) = deliveries s + 1 \<and> has (snd (deliver c p s)) c"
proof -
  have c: "c |\<in>| arrived s" "c |\<notin>| got s" using assms by (auto simp: machine_inv_def)
  have "ffilter (\<lambda>d. d |\<notin>| got s) (arrived s)
      = finsert c (ffilter (\<lambda>d. d |\<notin>| finsert c (got s)) (arrived s))"
    using c by auto
  then have "deficit s = Suc (fcard (ffilter (\<lambda>d. d |\<notin>| finsert c (got s)) (arrived s)))"
    by (simp add: deficit_def fcard_finsert_disjoint)
  with assms(2) show ?thesis by (simp add: deliver_def deficit_def deliveries_def has_def)
qed

theorem deliver_lowers_deficit_witness:
  "let s = do_actions [ObserveHolder (1::u32) 7, ArriveHist 1, Want 1 7] (PullState_new PRODUCTION)
   in fst (deliver 1 7 s) \<and> Suc (deficit (snd (deliver 1 7 s))) = deficit s
     \<and> deliveries (snd (deliver 1 7 s)) = deliveries s + 1 \<and> has (snd (deliver 1 7 s)) 1"
  unfolding Let_def
proof (rule deliver_lowers_deficit)
  let ?s = "do_actions [ObserveHolder (1::u32) 7, ArriveHist 1, Want 1 7] (PullState_new PRODUCTION)"
  show "machine_inv ?s"
    by (rule machine_inv_do_actions) (simp_all add: PRODUCTION_def no_preload_def)
  show "7 |\<in>| claims ?s 1" by code_simp
qed

subsection \<open>Garbage collection is neutral\<close>

text \<open>
  \<open>forget\<close> changes no guard outcome, as its comment claims: dropping a settled id from the
  scheduling maps leaves every \<open>claimable\<close> verdict as it was, for that id and for every other, and
  keeps the terminal record that stops a second fetch.
\<close>

theorem forget_neutral:
  assumes "machine_inv s"
  shows "claimable (snd (forget c s)) d p = claimable s d p
    \<and> enabled_wants (snd (forget c s)) = enabled_wants s
    \<and> got (snd (forget c s)) = got s \<and> rejected (snd (forget c s)) = rejected s"
proof -
  have same: "claimable (snd (forget c s)) d p = claimable s d p" for d p
  proof (cases "c |\<in>| got s \<or> c |\<in>| rejected s")
    case settled: True
    let ?t = "snd (forget c s)"
    have t: "arrived ?t = arrived s |-| {|c|}" "got ?t = got s" "want ?t = want s" "cfg ?t = cfg s"
      "\<And>e. e \<noteq> c \<Longrightarrow> holds ?t e = holds s e \<and> bars ?t e = bars s e
         \<and> get_or 0 (prio ?t) e = get_or 0 (prio s) e \<and> (e |\<in>| live ?t \<longleftrightarrow> e |\<in>| live s)"
      "assign ?t = assign s"
      using settled by (auto simp: forget_def)
    show ?thesis
    proof (cases "d = c")
      case True
      then show ?thesis using assms settled t(1,2) by (auto simp: claimable_def machine_inv_def)
    next
      case False
      have "c |\<in>| arrived s \<Longrightarrow> c |\<in>| got s" using assms settled by (auto simp: machine_inv_def)
      then have "prio_ok ?t d = prio_ok s d"
        using t False by (auto simp: prio_ok_iff eligible_iff addressed_def)
      with False t show ?thesis by (simp add: claimable_def)
    qed
  qed (simp add: forget_def)
  then have "enabled_wants (snd (forget c s)) = enabled_wants s"
    by (rule enabled_wants_cong)
  with same show ?thesis by (simp add: forget_def)
qed

theorem forget_neutral_witness:
  "let s = do_actions sample_actions (PullState_new PRODUCTION)
   in claimable (snd (forget 1 s)) 2 7 = claimable s 2 7
     \<and> enabled_wants (snd (forget 1 s)) = enabled_wants s
     \<and> got (snd (forget 1 s)) = got s \<and> rejected (snd (forget 1 s)) = rejected s"
  unfolding Let_def
  by (rule forget_neutral, rule machine_inv_do_actions)
     (simp_all add: PRODUCTION_def sample_actions_def no_preload_def)

subsection \<open>Independent actions commute\<close>

text \<open>
  The id an action is about. Two actions on different ids touch different entries of every map, and
  the guards of all of them but \<open>want\<close> read only their own id.
\<close>

fun act_id :: "'c action \<Rightarrow> 'c" where
  "act_id (Preload c) = c" | "act_id (SetPrio c d) = c" | "act_id (SetAssign c p) = c"
| "act_id (ObserveHolder c p) = c" | "act_id (LoseHolder c p) = c"
| "act_id (ArriveHist c) = c" | "act_id (ArriveLive c) = c"
| "act_id (Want c p) = c" | "act_id (Deliver c p) = c" | "act_id (Stall c p) = c"
| "act_id (Reject c) = c" | "act_id (ResetExcluded c) = c" | "act_id (Forget c) = c"

fun is_want :: "'c action \<Rightarrow> bool" where
  "is_want (Want c p) = True"
| "is_want a = False"

text \<open>What the state holds about one id, and what one action adds to the counters.\<close>

definition cell where
  "cell s c = ((fmlookup (want s) c, fmlookup (holders s) c, fmlookup (excluded s) c),
     (c |\<in>| arrived s, c |\<in>| live s, c |\<in>| rejected s, c |\<in>| got s),
     fmlookup (prio s) c, fmlookup (assign s) c)"

definition latches :: "'c action \<Rightarrow> 'c pull_state \<Rightarrow> bool" where
  "latches a s \<longleftrightarrow> (case a of Deliver c p \<Rightarrow> p |\<in>| claims s c \<and> c |\<in>| got s | _ \<Rightarrow> False)"

definition delivered :: "'c action \<Rightarrow> 'c pull_state \<Rightarrow> u32" where
  "delivered a s = (case a of Deliver c p \<Rightarrow> if p |\<in>| claims s c then 1 else 0 | _ \<Rightarrow> 0)"

definition preloaded :: "'c action \<Rightarrow> 'c pull_state \<Rightarrow> u32" where
  "preloaded a s = (case a of Preload c \<Rightarrow> if c |\<notin>| got s then 1 else 0 | _ \<Rightarrow> 0)"

lemma state_eq_by_cells:
  assumes "\<And>c. cell s c = cell t c" and "cfg s = cfg t"
    and "conflict s = conflict t" "ndeliv s = ndeliv t" "npre s = npre t"
  shows "s = (t :: 'c pull_state)"
  using assms by (intro pull_state.equality) (auto simp: cell_def intro!: fmap_ext fset_eqI)

lemma fmlookup_set_remove:
  "fmlookup (snd (set_remove m c p)) d =
     (if d = c then (case fmlookup m c of None \<Rightarrow> None
        | Some s \<Rightarrow> if s |-| {|p|} = {||} then None else Some (s |-| {|p|}))
      else fmlookup m d)"
  by (auto simp: set_remove_def Let_def split: option.splits)

lemmas machine_act_simps = machine_defs case_prod_beta Let_def

lemma cell_other: "act_id a \<noteq> d \<Longrightarrow> cell (do_action a s) d = cell s d"
  by (cases a) (auto simp: machine_act_simps cell_def fmlookup_set_remove)

lemma can_reset_local:
  "cfg s = cfg t \<Longrightarrow> cell s c = cell t c \<Longrightarrow> can_reset_excluded s c = can_reset_excluded t c"
  by (simp add: cell_def can_reset_excluded_def contains_key_def fmlookup_dom_iff cong: option.case_cong)

lemma cell_own:
  assumes "\<not> is_want a" "cfg s = cfg t" "cell s (act_id a) = cell t (act_id a)"
  shows "cell (do_action a s) (act_id a) = cell (do_action a t) (act_id a)"
proof (cases a)
  case (ResetExcluded c)
  then have "can_reset_excluded s c = can_reset_excluded t c"
    using assms(2,3) by (intro can_reset_local) auto
  with ResetExcluded assms(3) show ?thesis by (simp add: reset_excluded_def cell_def)
qed (use assms in \<open>auto simp: machine_act_simps cell_def fmlookup_set_remove get_or_def\<close>)

lemma counters_do_action:
  "\<not> is_want a \<Longrightarrow> conflict (do_action a s) = (conflict s \<or> latches a s)
     \<and> ndeliv (do_action a s) = ndeliv s + delivered a s
     \<and> npre (do_action a s) = npre s + preloaded a s"
  by (cases a) (auto simp: machine_act_simps latches_def delivered_def preloaded_def)

lemma counters_local:
  "cell s (act_id a) = cell t (act_id a) \<Longrightarrow>
     latches a s = latches a t \<and> delivered a s = delivered a t \<and> preloaded a s = preloaded a t"
  by (cases a) (auto simp: cell_def latches_def delivered_def preloaded_def get_or_def)

text \<open>
  Actions on different ids commute: the two orders end in the same state, tripwire and counters
  included. This is the confluence the concurrent driver rests on when answers for different
  chunks arrive out of order; \<open>want\<close> is excepted because its guard reads the whole window.
\<close>

theorem independent_actions_commute:
  assumes "act_id a \<noteq> act_id b" and "\<not> is_want a" and "\<not> is_want b"
  shows "do_action a (do_action b s) = do_action b (do_action a s)"
proof (rule state_eq_by_cells)
  have a: "cell (do_action b s) (act_id a) = cell s (act_id a)"
    and b: "cell (do_action a s) (act_id b) = cell s (act_id b)"
    using assms(1) by (simp_all add: cell_other)
  show "cell (do_action a (do_action b s)) c = cell (do_action b (do_action a s)) c" for c
    using assms a b cell_own [of a "do_action b s" s] cell_own [of b "do_action a s" s]
    by (cases "c = act_id a"; cases "c = act_id b") (simp_all add: cell_other)
  show "conflict (do_action a (do_action b s)) = conflict (do_action b (do_action a s))"
    "ndeliv (do_action a (do_action b s)) = ndeliv (do_action b (do_action a s))"
    "npre (do_action a (do_action b s)) = npre (do_action b (do_action a s))"
    using assms(2,3) counters_local [OF a] counters_local [OF b]
    by (auto simp: counters_do_action)
qed simp

theorem independent_actions_commute_witness:
  "let s = do_actions sample_actions (PullState_new PRODUCTION)
   in do_action (Reject 3) (do_action (LoseHolder 2 7) s)
      = do_action (LoseHolder 2 7) (do_action (Reject 3) s)"
  unfolding Let_def by (rule independent_actions_commute) simp_all

subsection \<open>What each knob buys\<close>

lemma claimable_after_want:
  assumes "claimable s c p" "claimable s d q" "c \<noteq> d"
  shows "claimable (snd (want_act c p s)) d q"
  using assms
  by (auto simp: want_act_def claimable_def prio_ok_iff eligible_iff addressed_def contains_key_def)

text \<open>
  Two enabled wants on different ids do not disable each other, and committing both gives the
  same leases in either order: within a round, the policy's choice is only a choice.
\<close>

theorem enabled_wants_diamond:
  assumes "claimable s c p" and "claimable s d q" and "c \<noteq> d"
  shows "claimable (snd (want_act c p s)) d q \<and> claimable (snd (want_act d q s)) c p
    \<and> snd (want_act d q (snd (want_act c p s))) = snd (want_act c p (snd (want_act d q s)))"
proof -
  have cd: "claimable (snd (want_act c p s)) d q" "claimable (snd (want_act d q s)) c p"
    using assms by (auto intro: claimable_after_want)
  moreover have "snd (want_act d q (snd (want_act c p s))) = snd (want_act c p (snd (want_act d q s)))"
    using assms cd by (simp add: want_act_def fmupd_reorder_neq)
  ultimately show ?thesis by blast
qed

theorem enabled_wants_diamond_witness:
  "let s = do_actions [ObserveHolder (1::u32) 7, ObserveHolder 2 7, ArriveHist 1, ArriveHist 2]
             (PullState_new PRODUCTION)
   in claimable (snd (want_act 1 7 s)) 2 7 \<and> claimable (snd (want_act 2 7 s)) 1 7
     \<and> snd (want_act 2 7 (snd (want_act 1 7 s))) = snd (want_act 1 7 (snd (want_act 2 7 s)))"
  unfolding Let_def
proof (rule enabled_wants_diamond)
  let ?s = "do_actions [ObserveHolder (1::u32) 7, ObserveHolder 2 7, ArriveHist 1, ArriveHist 2]
    (PullState_new PRODUCTION)"
  show "claimable ?s 1 7" "claimable ?s 2 7" by code_simp+
qed simp

text \<open>
  One verb for every non-delivery. A stall on a claim releases it. With \<open>exclude\<close> on, the staller
  is barred and is not a candidate for that id again while the bar stands; with it off, claiming and
  stalling is a cycle: the machine is back in the very state it left, the re-grab livelock.
\<close>

theorem stall_bars_or_loops:
  assumes "claimable s c p" and "dedup (cfg s)" and "failover (cfg s)" and "normal (want s)"
  shows "let t = do_actions [Want c p, Stall c p] s
         in claims t c = {||}
            \<and> (if exclude (cfg s) then p |\<in>| bars t c \<and> \<not> claimable t c p else t = s)"
proof -
  have free: "fmlookup (want s) c = None"
    using assms by (auto simp: claimable_def contains_key_def fmlookup_dom_iff)
  let ?t = "do_actions [Want c p, Stall c p] s"
  have "want ?t = want s"
    using assms(1,3) free
    by (auto simp: do_actions_def want_act_def stall_def Let_def fmlookup_set_remove get_or_def
        intro!: fmap_ext)
  moreover have "excluded ?t = (if exclude (cfg s) then fmupd c (finsert p (bars s c)) (excluded s) else excluded s)"
    using assms(1,3) by (simp add: do_actions_def want_act_def stall_def Let_def)
  moreover have "?t = s\<lparr>want := want ?t, excluded := excluded ?t\<rparr>"
    using assms(1,3) by (simp add: do_actions_def want_act_def stall_def Let_def)
  ultimately show ?thesis
    using free by (auto simp: Let_def get_or_def claimable_def)
qed

theorem stall_bars_or_loops_witness:
  "let s = do_actions [ObserveHolder (1::u32) 7, ArriveHist 1] (PullState_new PRODUCTION);
       t = do_actions [Want 1 7, Stall 1 7] s
   in claims t 1 = {||} \<and> (if exclude (cfg s) then 7 |\<in>| bars t 1 \<and> \<not> claimable t 1 7 else t = s)"
proof -
  let ?s = "do_actions [ObserveHolder (1::u32) 7, ArriveHist 1] (PullState_new PRODUCTION)"
  have "claimable ?s 1 7" "dedup (cfg ?s)" "failover (cfg ?s)" by code_simp+
  moreover have "machine_inv ?s"
    by (rule machine_inv_do_actions) (simp_all add: PRODUCTION_def no_preload_def)
  ultimately show ?thesis
    using stall_bars_or_loops [of ?s 1 7] by (simp add: machine_inv_def Let_def)
qed

text \<open>
  Without \<open>dedup\<close>, the tripwire is reachable from every state where two peers can be asked for
  the same id: claim it twice, and the second delivery is a double delivery.
\<close>

theorem nodedup_double_delivery:
  assumes "\<not> dedup (cfg s)" and "claimable s c p" and "claimable s c q" and "p \<noteq> q"
  shows "conflict (do_actions [Want c p, Want c q, Deliver c p, Deliver c q] s)"
proof -
  let ?s1 = "snd (want_act c p s)"
  have s1: "claims ?s1 c = finsert p (claims s c)" using assms(2) by (simp add: want_act_def)
  have "claimable ?s1 c q"
    using assms by (auto simp: want_act_def claimable_def prio_ok_iff eligible_iff addressed_def
        contains_key_def)
  then have "claims (snd (want_act c q ?s1)) c = finsert q (finsert p (claims s c))"
    using assms(2) by (simp add: want_act_def)
  then show ?thesis using assms(4) by (simp add: do_actions_def deliver_def)
qed

theorem nodedup_double_delivery_witness:
  "conflict (do_actions [Want (1::u32) 7, Want 1 8, Deliver 1 7, Deliver 1 8]
     (do_actions [ObserveHolder 1 7, ObserveHolder 1 8, ArriveHist 1]
       (PullState_new (PRODUCTION\<lparr>dedup := False\<rparr>))))"
proof (rule nodedup_double_delivery)
  let ?s = "do_actions [ObserveHolder (1::u32) 7, ObserveHolder 1 8, ArriveHist 1]
    (PullState_new (PRODUCTION\<lparr>dedup := False\<rparr>))"
  show "\<not> dedup (cfg ?s)" "claimable ?s 1 7" "claimable ?s 1 8" by code_simp+
qed simp

text \<open>
  An id whose bars cover every holder and that nobody has claimed. Without \<open>reset_on_exhaust\<close> it
  stays so until a new holder shows up.
\<close>

definition stranded :: "'c pull_state \<Rightarrow> 'c \<Rightarrow> bool" where
  "stranded s c \<longleftrightarrow> \<not> reset_on_exhaust (cfg s) \<and> claims s c = {||} \<and> c |\<notin>| got s
     \<and> holds s c |\<subseteq>| bars s c"

fun revives :: "'c \<Rightarrow> 'c action \<Rightarrow> bool" where
  "revives c (ObserveHolder d p) = (d = c)"
| "revives c (Preload d) = (d = c)"
| "revives c a = False"

lemma stranded_step: "stranded s c \<Longrightarrow> \<not> revives c a \<Longrightarrow> stranded (do_action a s) c"
  by (cases a) (auto simp: stranded_def machine_act_simps claimable_def can_reset_excluded_def)

text \<open>
  Without \<open>reset_on_exhaust\<close>, one stall of an id's last unbarred holder strands the id: no
  sequence of actions that shows no new holder ever fetches it, or even claims it.
\<close>

theorem noreset_strands:
  assumes "stranded s c" and "list_all (\<lambda>a. \<not> revives c a) as"
  shows "\<not> has (do_actions as s) c \<and> \<not> claimable (do_actions as s) c p"
proof -
  have "stranded (do_actions as s) c"
    using assms by (induction as arbitrary: s) (auto simp: do_actions_def stranded_step)
  then show ?thesis by (auto simp: stranded_def has_def claimable_def)
qed

theorem noreset_strands_witness:
  "let s = do_actions [ObserveHolder (1::u32) 7, ArriveHist 1, Want 1 7, Stall 1 7]
             (PullState_new (PRODUCTION\<lparr>reset_on_exhaust := False\<rparr>))
   in \<not> has (do_actions [ResetExcluded 1, Want 1 7, Deliver 1 7] s) 1
      \<and> \<not> claimable (do_actions [ResetExcluded 1, Want 1 7, Deliver 1 7] s) 1 7"
  unfolding Let_def
proof (rule noreset_strands)
  let ?s = "do_actions [ObserveHolder (1::u32) 7, ArriveHist 1, Want 1 7, Stall 1 7]
    (PullState_new (PRODUCTION\<lparr>reset_on_exhaust := False\<rparr>))"
  show "stranded ?s 1" by code_simp
qed simp

text \<open>
  The restriction on \<open>preload\<close> is needed. If an id is preloaded while a peer is fetching it, the
  delivery that then arrives trips \<open>ConflictFree\<close>, though only one copy was ever sent.
\<close>

theorem preload_in_flight_trips:
  assumes "machine_inv s" and "p |\<in>| claims s c"
  shows "conflict (do_actions [Preload c, Deliver c p] s)"
  using assms by (auto simp: do_actions_def preload_def deliver_def)

theorem preload_in_flight_trips_witness:
  "conflict (do_actions [Preload (1::u32), Deliver 1 7]
     (do_actions [ObserveHolder 1 7, ArriveHist 1, Want 1 7] (PullState_new PRODUCTION)))"
proof (rule preload_in_flight_trips)
  let ?s = "do_actions [ObserveHolder (1::u32) 7, ArriveHist 1, Want 1 7] (PullState_new PRODUCTION)"
  show "machine_inv ?s"
    by (rule machine_inv_do_actions) (simp_all add: PRODUCTION_def no_preload_def)
  show "7 |\<in>| claims ?s 1" by code_simp
qed

end
