(* ===== verification/Settlement.thy ===== *)
theory Settlement
  imports Identity
begin

section \<open>Interval settlement: \<open>crates/settlement/src/lib.rs\<close>\<close>

text \<open>
  The resume state of one \<open>(peer, bin)\<close>: everything at or below \<open>interval\<close> is settled and
  forgotten, \<open>topmost\<close> is the highest position an offer has covered, \<open>entries\<close> is the offered
  window above the interval. The interval moves in \<open>advance\<close> only. The interface the node relies
  on is the locale \<open>resume_log\<close>, with the laws of the five operations as its assumptions.
\<close>

record peer_bin_log =
  interval :: BinId
  topmost :: BinId
  entries :: "(BinId, triple) fmap"

definition PeerBinLog_new :: peer_bin_log where
  "PeerBinLog_new = \<lparr>interval = 0, topmost = 0, entries = fmempty\<rparr>"

definition resume :: "BinId \<Rightarrow> peer_bin_log" where
  "resume i = \<lparr>interval = i, topmost = i, entries = fmempty\<rparr>"

definition next_start :: "peer_bin_log \<Rightarrow> BinId" where
  "next_start l = interval l + 1"

definition observe :: "BinId \<Rightarrow> triple \<Rightarrow> peer_bin_log \<Rightarrow> peer_bin_log" where
  "observe b c l =
     (let l1 = (if interval l < b then l\<lparr>entries := fmupd b c (entries l)\<rparr> else l)
      in if topmost l1 < b then l1\<lparr>topmost := b\<rparr> else l1)"

definition cover :: "BinId \<Rightarrow> peer_bin_log \<Rightarrow> peer_bin_log" where
  "cover t l = (if topmost l < t then l\<lparr>topmost := t\<rparr> else l)"

definition forget_entry :: "BinId \<Rightarrow> peer_bin_log \<Rightarrow> triple option \<times> peer_bin_log" where
  "forget_entry b l = (fmlookup (entries l) b, l\<lparr>entries := fmdrop b (entries l)\<rparr>)"

definition unsettled :: "peer_bin_log \<Rightarrow> (BinId \<times> triple) list" where
  "unsettled l = sorted_list_of_fmap (entries l)"

text \<open>
  The \<open>while let\<close> loop of \<open>advance\<close>: it takes settled entries off the front and stops at the
  first unsettled one. The result is the new high-water so far and the entries that are left.
\<close>

function advance_loop ::
  "(triple \<Rightarrow> bool) \<Rightarrow> BinId \<Rightarrow> BinId \<Rightarrow> (BinId, triple) fmap \<Rightarrow> BinId \<times> (BinId, triple) fmap" where
  "advance_loop settled hi new es =
     (case first_entry es of
        None \<Rightarrow> (new, es)
      | Some (b, c) \<Rightarrow>
          if \<not> settled c then (min (max new (b - 1)) hi, es)
          else advance_loop settled hi b (fmdrop b es))"
  by pat_completeness auto
termination
  by (relation "measure (\<lambda>(settled, hi, new, es). fcard (fmdom es))")
     (simp_all only: wf_measure in_measure prod.case,
      metis fcard_fmdrop first_entry_SomeD(1))

declare advance_loop.simps [simp del]

definition advance :: "(triple \<Rightarrow> bool) \<Rightarrow> peer_bin_log \<Rightarrow> BinId option \<times> peer_bin_log" where
  "advance settled l =
     (let (new1, es) = advance_loop settled (topmost l) (interval l) (entries l);
          new2 = (if es = fmempty then topmost l else new1);
          l1 = l\<lparr>entries := es\<rparr>
      in if interval l < new2 then (Some new2, l1\<lparr>interval := new2\<rparr>) else (None, l1))"

subsection \<open>The window invariant\<close>

definition log_inv :: "peer_bin_log \<Rightarrow> bool" where
  "log_inv l \<longleftrightarrow> interval l \<le> topmost l
     \<and> (\<forall>b c. fmlookup (entries l) b = Some c \<longrightarrow> interval l < b \<and> b \<le> topmost l)"

lemma log_inv_new [simp]: "log_inv PeerBinLog_new"
  by (simp add: log_inv_def PeerBinLog_new_def)

lemma log_inv_resume [simp]: "log_inv (resume i)"
  by (simp add: log_inv_def resume_def)

lemma log_inv_observe [inv_intros]: "log_inv l \<Longrightarrow> log_inv (observe b c l)"
  by (auto simp: log_inv_def observe_def Let_def split: if_splits)

lemma log_inv_cover [inv_intros]: "log_inv l \<Longrightarrow> log_inv (cover t l)"
  by (auto simp: log_inv_def cover_def)

lemma log_inv_forget_entry [inv_intros]: "log_inv l \<Longrightarrow> log_inv (snd (forget_entry b l))"
  by (auto simp: log_inv_def forget_entry_def)

lemma interval_observe [frame, simp]: "interval (observe b c l) = interval l"
  by (simp add: observe_def Let_def)

lemma interval_cover [frame, simp]: "interval (cover t l) = interval l"
  by (simp add: cover_def)

lemma interval_forget_entry [frame, simp]: "interval (snd (forget_entry b l)) = interval l"
  by (simp add: forget_entry_def)

lemma entries_observe:
  "entries (observe b c l) = (if interval l < b then fmupd b c (entries l) else entries l)"
  by (simp add: observe_def Let_def)

lemma entries_cover [frame, simp]: "entries (cover t l) = entries l"
  by (simp add: cover_def)

lemma entries_forget_entry [simp]: "entries (snd (forget_entry b l)) = fmdrop b (entries l)"
  by (simp add: forget_entry_def)

lemma topmost_observe [simp]: "topmost (observe b c l) = max (topmost l) b"
  by (auto simp: observe_def Let_def max_def)

lemma topmost_cover [simp]: "topmost (cover t l) = max (topmost l) t"
  by (auto simp: cover_def max_def)

lemma topmost_forget_entry [frame, simp]: "topmost (snd (forget_entry b l)) = topmost l"
  by (simp add: forget_entry_def)

lemma set_unsettled [simp]: "set (unsettled l) = {(b, c). fmlookup (entries l) b = Some c}"
  by (auto simp: unsettled_def)

subsection \<open>The loop\<close>

text \<open>The entries that are not below some unsettled one are exactly those the loop leaves.\<close>

definition capped :: "(triple \<Rightarrow> bool) \<Rightarrow> (BinId, triple) fmap \<Rightarrow> BinId \<Rightarrow> bool" where
  "capped settled es b \<longleftrightarrow> (\<exists>b' c'. b' \<le> b \<and> fmlookup es b' = Some c' \<and> \<not> settled c')"

lemma advance_loop_spec:
  assumes "\<forall>b c. fmlookup es b = Some c \<longrightarrow> new < b \<and> b \<le> hi"
    and "advance_loop settled hi new es = (new', es')"
  shows "(\<forall>b. fmlookup es' b = (if capped settled es b then fmlookup es b else None))
    \<and> (es' \<noteq> fmempty \<longrightarrow> (\<exists>b c. first_entry es' = Some (b, c) \<and> \<not> settled c \<and> new' = b - 1))"
  using assms
proof (induction settled hi new es arbitrary: new' es' rule: advance_loop.induct)
  case (1 settled hi new es)
  show ?case
  proof (cases "first_entry es")
    case None
    with "1.prems"(2) show ?thesis by (simp add: advance_loop.simps [of settled hi new es])
  next
    case (Some bc)
    then obtain b c where fe: "first_entry es = Some (b, c)" by (cases bc) auto
    note first = first_entry_SomeD [OF fe]
    have least: "b \<le> k" if "fmlookup es k = Some d" for k d
      using first(2) that by (simp add: fmdomI)
    show ?thesis
    proof (cases "settled c")
      case False
      have "new < b" "b \<le> hi" using "1.prems"(1) first(1) by blast+
      then have "min (max new (b - 1)) hi = b - 1"
        using word_le_minus_one [of new b] word_minus_one_less [of new b] by simp
      with False "1.prems"(2) fe have "es' = es" "new' = b - 1"
        by (simp_all add: advance_loop.simps [of settled hi new es])
      moreover have "capped settled es k" if "fmlookup es k \<noteq> None" for k
        using False first(1) least that by (auto simp: capped_def)
      ultimately show ?thesis using fe False by (metis)
    next
      case True
      have rest: "\<forall>k d. fmlookup (fmdrop b es) k = Some d \<longrightarrow> b < k \<and> k \<le> hi"
        using "1.prems"(1) least by (auto simp: order_less_le split: if_splits)
      have "advance_loop settled hi b (fmdrop b es) = (new', es')"
        using "1.prems"(2) fe True by (simp add: advance_loop.simps [of settled hi new es])
      from "1.IH" [OF fe refl _ rest this] True
      have IH: "\<forall>k. fmlookup es' k = (if capped settled (fmdrop b es) k then fmlookup (fmdrop b es) k else None)"
        and last: "es' \<noteq> fmempty \<longrightarrow> (\<exists>b c. first_entry es' = Some (b, c) \<and> \<not> settled c \<and> new' = b - 1)"
        by auto
      have "capped settled (fmdrop b es) k = capped settled es k" for k
        using first(1) True unfolding capped_def by (metis fmlookup_drop option.inject option.discI)
      moreover have "\<not> capped settled es b"
      proof
        assume "capped settled es b"
        then obtain b' c' where "b' \<le> b" "fmlookup es b' = Some c'" "\<not> settled c'"
          by (auto simp: capped_def)
        with least [of b' c'] first(1) True show False by simp
      qed
      ultimately show ?thesis using IH last by (auto split: if_splits)
    qed
  qed
qed

lemma entries_advance:
  assumes "log_inv l"
  shows "fmlookup (entries (snd (advance settled l))) b =
    (if capped settled (entries l) b then fmlookup (entries l) b else None)"
proof -
  obtain new es where loop: "advance_loop settled (topmost l) (interval l) (entries l) = (new, es)"
    by fastforce
  then have "entries (snd (advance settled l)) = es" by (simp add: advance_def Let_def)
  with advance_loop_spec [OF _ loop] assms show ?thesis by (auto simp: log_inv_def)
qed

text \<open>
  What \<open>advance\<close> leaves: the interval is one below the first unsettled entry, or the whole covered
  range where there is none.
\<close>

lemma interval_advance:
  assumes "log_inv l"
  shows "interval (snd (advance settled l)) =
    (case first_entry (entries (snd (advance settled l))) of
       None \<Rightarrow> topmost l
     | Some (b, c) \<Rightarrow> b - 1)"
proof -
  obtain new es where loop: "advance_loop settled (topmost l) (interval l) (entries l) = (new, es)"
    by fastforce
  have es: "entries (snd (advance settled l)) = es" using loop by (simp add: advance_def Let_def)
  note spec = advance_loop_spec [OF _ loop]
  show ?thesis
  proof (cases "es = fmempty")
    case True
    with es loop assms show ?thesis by (auto simp: advance_def Let_def log_inv_def)
  next
    case False
    with spec assms obtain b c where b: "first_entry es = Some (b, c)" "new = b - 1"
      by (auto simp: log_inv_def)
    from first_entry_SomeD(1) [OF b(1)] spec assms
    have "fmlookup (entries l) b = Some c" by (auto simp: log_inv_def split: if_splits)
    with assms have "interval l < b" by (simp add: log_inv_def)
    then have "interval l < b - 1 \<or> interval l = b - 1"
      using word_le_minus_one by (auto simp: order_le_less)
    with b es loop False show ?thesis by (auto simp: advance_def Let_def)
  qed
qed

lemma topmost_advance [frame, simp]: "topmost (snd (advance settled l)) = topmost l"
  by (simp add: advance_def Let_def case_prod_beta)

lemma fst_advance:
  "fst (advance settled l) =
     (if interval l < interval (snd (advance settled l)) then Some (interval (snd (advance settled l))) else None)"
  by (simp add: advance_def Let_def case_prod_beta)

lemma interval_advance_mono: "interval l \<le> interval (snd (advance settled l))"
  by (simp add: advance_def Let_def case_prod_beta order_less_imp_le)


text \<open>The first entry left behind is unsettled, and it was offered.\<close>

lemma first_left:
  assumes "log_inv l" and fe: "first_entry (entries (snd (advance settled l))) = Some (b, c)"
  shows "fmlookup (entries l) b = Some c" and "\<not> settled c" and "interval l < b" and "b \<le> topmost l"
proof -
  have "fmlookup (entries (snd (advance settled l))) b = Some c"
    using first_entry_SomeD(1) [OF fe] by simp
  then have cap: "capped settled (entries l) b" and b: "fmlookup (entries l) b = Some c"
    using assms(1) by (auto simp: entries_advance split: if_splits)
  from cap obtain b' c' where b': "b' \<le> b" "fmlookup (entries l) b' = Some c'" "\<not> settled c'"
    by (auto simp: capped_def)
  then have "capped settled (entries l) b'" by (auto simp: capped_def)
  with b' assms(1) have "fmlookup (entries (snd (advance settled l))) b' = Some c'"
    by (simp add: entries_advance)
  then have "b \<le> b'" using first_entry_SomeD(2) [OF fe] by (simp add: fmdomI)
  with b' b have "c' = c" by simp
  with b' show "\<not> settled c" by simp
  show "fmlookup (entries l) b = Some c" by (rule b)
  with assms(1) show "interval l < b" "b \<le> topmost l" by (simp_all add: log_inv_def)
qed

lemma le_interval_advance:
  assumes inv: "log_inv l" and x: "interval l \<le> x" "x \<le> topmost l"
  shows "x \<le> interval (snd (advance settled l)) \<longleftrightarrow>
    (\<forall>b c. fmlookup (entries l) b = Some c \<longrightarrow> b \<le> x \<longrightarrow> settled c)"
proof (cases "first_entry (entries (snd (advance settled l)))")
  case None
  then have "\<not> capped settled (entries l) b" if "fmlookup (entries l) b = Some c" for b c
    using that entries_advance [OF inv, of settled b] by (auto simp: first_entry_None split: if_splits)
  then show ?thesis
    using inv x None by (auto simp: interval_advance capped_def)
next
  case (Some bc)
  then obtain b c where fe: "first_entry (entries (snd (advance settled l))) = Some (b, c)"
    by (cases bc) auto
  note left = first_left [OF inv fe]
  have "x \<le> interval (snd (advance settled l)) \<longleftrightarrow> x < b"
    using left(3) fe inv by (simp add: interval_advance word_less_iff_le_minus_one [of "interval l"])
  moreover have "settled d" if "x < b" "fmlookup (entries l) k = Some d" "k \<le> x" for k d
  proof (rule ccontr)
    assume "\<not> settled d"
    then have "capped settled (entries l) k" using that(2) by (auto simp: capped_def)
    with that(2) inv have "k |\<in>| fmdom (entries (snd (advance settled l)))"
      by (simp add: entries_advance fmdomI)
    then have "b \<le> k" using first_entry_SomeD(2) [OF fe] by simp
    with that show False by simp
  qed
  ultimately show ?thesis using left by (metis not_less)
qed


lemma entries_advance_above:
  assumes inv: "log_inv l"
  shows "fmlookup (entries (snd (advance settled l))) b =
    (if b \<le> interval (snd (advance settled l)) then None else fmlookup (entries l) b)"
proof (cases "fmlookup (entries l) b")
  case (Some c)
  with inv have "interval l \<le> b" "b \<le> topmost l" by (auto simp: log_inv_def)
  from le_interval_advance [OF inv this, of settled]
  have "b \<le> interval (snd (advance settled l)) \<longleftrightarrow> \<not> capped settled (entries l) b"
    by (auto simp: capped_def)
  with inv show ?thesis by (simp add: entries_advance)
qed (simp add: inv entries_advance)

lemma interval_advance_le: "log_inv l \<Longrightarrow> interval (snd (advance settled l)) \<le> topmost l"
proof -
  assume inv: "log_inv l"
  show "interval (snd (advance settled l)) \<le> topmost l"
  proof (cases "first_entry (entries (snd (advance settled l)))")
    case (Some bc)
    then obtain b c where fe: "first_entry (entries (snd (advance settled l))) = Some (b, c)"
      by (cases bc) auto
    note left = first_left [OF inv fe]
    from left(3,4) have "b - 1 \<le> topmost l"
      using word_minus_one_less [OF left(3)] by simp
    with fe inv show ?thesis by (simp add: interval_advance)
  qed (simp add: inv interval_advance)
qed

lemma log_inv_advance [inv_intros]: "log_inv l \<Longrightarrow> log_inv (snd (advance settled l))"
  using interval_advance_le [of l settled]
  by (auto simp: log_inv_def entries_advance_above split: if_splits)

subsection \<open>The interface\<close>

text \<open>
  What the puller may assume of a resume log: \<open>high\<close> is the durable high-water, \<open>covered\<close> the top
  of the covered range and \<open>entry\<close> the window. An advance reaches \<open>x\<close> exactly when everything
  offered up to \<open>x\<close> is settled, and it drops exactly what it passes.
\<close>

locale resume_log =
  fixes ok :: "'l \<Rightarrow> bool"
    and high :: "'l \<Rightarrow> 'b::linorder"
    and covered :: "'l \<Rightarrow> 'b"
    and entry :: "'l \<Rightarrow> 'b \<Rightarrow> 'c option"
    and obs :: "'b \<Rightarrow> 'c \<Rightarrow> 'l \<Rightarrow> 'l"
    and cov :: "'b \<Rightarrow> 'l \<Rightarrow> 'l"
    and rem :: "'b \<Rightarrow> 'l \<Rightarrow> 'c option \<times> 'l"
    and adv :: "('c \<Rightarrow> bool) \<Rightarrow> 'l \<Rightarrow> 'b option \<times> 'l"
  assumes ok_obs: "ok l \<Longrightarrow> ok (obs b c l)"
    and ok_cov: "ok l \<Longrightarrow> ok (cov t l)"
    and ok_rem: "ok l \<Longrightarrow> ok (snd (rem b l))"
    and ok_adv: "ok l \<Longrightarrow> ok (snd (adv S l))"
    and window: "ok l \<Longrightarrow> entry l b = Some c \<Longrightarrow> high l < b \<and> b \<le> covered l"
    and high_covered: "ok l \<Longrightarrow> high l \<le> covered l"
    and high_same: "high (obs b c l) = high l" "high (cov t l) = high l" "high (snd (rem b l)) = high l"
    and entry_obs: "entry (obs b c l) b' = (if b' = b \<and> high l < b then Some c else entry l b')"
    and entry_cov: "entry (cov t l) b' = entry l b'"
    and entry_rem: "entry (snd (rem b l)) b' = (if b' = b then None else entry l b')"
    and entry_adv: "ok l \<Longrightarrow>
      entry (snd (adv S l)) b = (if b \<le> high (snd (adv S l)) then None else entry l b)"
    and high_adv: "high l \<le> high (snd (adv S l))"
    and adv_reach: "ok l \<Longrightarrow> high l \<le> x \<Longrightarrow> x \<le> covered l \<Longrightarrow>
      x \<le> high (snd (adv S l)) \<longleftrightarrow> (\<forall>b c. entry l b = Some c \<longrightarrow> b \<le> x \<longrightarrow> S c)"
    and covered_adv: "covered (snd (adv S l)) = covered l"
begin

lemma passed_settled:
  assumes "ok l" "entry l b = Some c" "b \<le> high (snd (adv S l))"
  shows "S c"
  using assms window [OF assms(1,2)] adv_reach [of l b S] by (auto simp: order_less_imp_le)

lemma adv_within: "ok l \<Longrightarrow> high (snd (adv S l)) \<le> covered l"
  using high_covered [OF ok_adv [of l S]] by (simp add: covered_adv)

text \<open>Advancing in instalments, as the settled set grows, ends where advancing once would.\<close>

lemma adv_adv:
  assumes ok: "ok l" and ST: "\<And>c. S c \<Longrightarrow> T c"
  shows "high (snd (adv T (snd (adv S l)))) = high (snd (adv T l))"
proof -
  let ?l = "snd (adv S l)"
  have ok': "ok ?l" using ok by (rule ok_adv)
  have same: "x \<le> high (snd (adv T ?l)) \<longleftrightarrow> x \<le> high (snd (adv T l))"
    if x: "high ?l \<le> x" "x \<le> covered l" for x
  proof -
    have "high l \<le> x" using high_adv x(1) by (rule order_trans)
    note at_l = adv_reach [OF ok this x(2), of T]
    note at_l' = adv_reach [OF ok' x(1), of T, unfolded covered_adv, OF x(2)]
    have "T c" if "entry l b = Some c" "b \<le> high ?l" for b c
      using passed_settled [OF ok that] by (rule ST)
    then show ?thesis unfolding at_l at_l' entry_adv [OF ok] by (metis option.distinct(1))
  qed
  have "high ?l \<le> high (snd (adv T ?l))" by (rule high_adv)
  then have le: "high (snd (adv T ?l)) \<le> high (snd (adv T l))"
    using same adv_within [OF ok', of T] by (auto simp: covered_adv)
  have "high ?l \<le> high (snd (adv T l))"
    using \<open>high ?l \<le> high (snd (adv T ?l))\<close> le by (rule order_trans)
  then have "high (snd (adv T l)) \<le> high (snd (adv T ?l))"
    using same adv_within [OF ok, of T] by auto
  with le show ?thesis by (rule antisym)
qed

end

lemma log_window: "log_inv l \<Longrightarrow> fmlookup (entries l) b = Some c \<Longrightarrow> interval l < b \<and> b \<le> topmost l"
  and log_high_covered: "log_inv l \<Longrightarrow> interval l \<le> topmost l"
  unfolding log_inv_def by blast+

interpretation pb_log: resume_log log_inv interval topmost "\<lambda>l. fmlookup (entries l)"
  observe cover forget_entry advance
proof unfold_locales
  show "fmlookup (entries (observe b c l)) b' =
      (if b' = b \<and> interval l < b then Some c else fmlookup (entries l) b')" for b c l b'
    by (simp add: entries_observe)
  show "fmlookup (entries (snd (forget_entry b l))) b' = (if b' = b then None else fmlookup (entries l) b')"
    for b l b' by simp
qed (fact inv_intros entries_advance_above le_interval_advance interval_advance_mono frame
    topmost_advance log_window log_high_covered entries_cover [THEN arg_cong])+


subsection \<open>Runs of a log\<close>

text \<open>
  The four things that happen to a log, as a script; an \<open>Advance\<close> carries the ids settled at that
  moment.
\<close>

datatype log_event = Observe BinId triple | Cover BinId | ForgetEntry BinId | Advance "triple fset"

fun log_step :: "log_event \<Rightarrow> peer_bin_log \<Rightarrow> peer_bin_log" where
  "log_step (Observe b c) l = observe b c l"
| "log_step (Cover t) l = cover t l"
| "log_step (ForgetEntry b) l = snd (forget_entry b l)"
| "log_step (Advance S) l = snd (advance (\<lambda>c. c |\<in>| S) l)"

fun touches :: "BinId \<Rightarrow> log_event \<Rightarrow> bool" where
  "touches b (Observe b' c) = (b' = b)"
| "touches b (ForgetEntry b') = (b' = b)"
| "touches b e = False"

lemma log_inv_step [inv_intros]: "log_inv l \<Longrightarrow> log_inv (log_step e l)"
  by (cases e) (simp_all add: inv_intros)

lemma interval_step_mono: "interval l \<le> interval (log_step e l)"
  by (cases e) (simp_all add: interval_advance_mono)

lemma interval_run_mono: "interval l \<le> interval (fold log_step es l)"
  by (induction es arbitrary: l) (auto intro: order_trans [OF interval_step_mono])

lemma entry_step:
  assumes "log_inv l" "fmlookup (entries l) b = Some c" "\<not> touches b e"
  shows "fmlookup (entries (log_step e l)) b = Some c
    \<or> (b \<le> interval (log_step e l) \<and> (\<exists>S. e = Advance S \<and> c |\<in>| S))"
proof (cases e)
  case (Advance S)
  then show ?thesis using assms(1,2) pb_log.passed_settled [OF assms(1,2), of "\<lambda>c. c |\<in>| S"]
    by (simp add: entries_advance_above)
qed (use assms in \<open>simp_all add: entries_observe\<close>)

end
