(* ===== verification/Settlement_Props.thy ===== *)
theory Settlement_Props
  imports Settlement
begin

section \<open>What interval settlement guarantees\<close>

text \<open>
  The obligations of \<open>IntervalSettlement.tla\<close>: the advance reaches the largest settled prefix and
  no further, nothing offered is dropped before it is settled, the interval never moves back, and
  the order in which the settled set grows does not matter. The last property is the edge of the
  \<open>u64\<close> range, where \<open>next\<close> wraps.
\<close>

text \<open>
  C15: \<open>advance\<close> moves the interval to the largest position of the covered range below which every
  offered entry is settled: it reaches \<open>x\<close> if and only if nothing unsettled is offered up to \<open>x\<close>,
  removes from the window exactly what it passed, and reports the move.
\<close>

theorem advance_largest_settled_prefix:
  assumes "log_inv l"
  shows "let (moved, l') = advance settled l in
     log_inv l' \<and> topmost l' = topmost l
     \<and> (\<forall>x. interval l \<le> x \<and> x \<le> topmost l \<longrightarrow>
          (x \<le> interval l' \<longleftrightarrow> (\<forall>b c. fmlookup (entries l) b = Some c \<longrightarrow> b \<le> x \<longrightarrow> settled c)))
     \<and> entries l' = fmfilter (\<lambda>b. interval l' < b) (entries l)
     \<and> moved = (if interval l < interval l' then Some (interval l') else None)"
proof -
  let ?l = "snd (advance settled l)"
  have "entries ?l = fmfilter (\<lambda>b. interval ?l < b) (entries l)"
    using assms by (intro fmap_ext) (auto simp: entries_advance_above dest: leD)
  then show ?thesis
    using assms log_inv_advance [OF assms] le_interval_advance [OF assms]
    by (simp add: case_prod_beta fst_advance)
qed

theorem advance_largest_settled_prefix_witness:
  "let l = fold log_step [Cover 9, Observe 2 (mock 1), Observe 5 (mock 2), Observe 7 (mock 3)] (resume 1)
   in let (moved, l') = advance (\<lambda>c. c \<noteq> mock 2) l in
     log_inv l' \<and> topmost l' = topmost l
     \<and> (\<forall>x. interval l \<le> x \<and> x \<le> topmost l \<longrightarrow>
          (x \<le> interval l' \<longleftrightarrow> (\<forall>b c. fmlookup (entries l) b = Some c \<longrightarrow> b \<le> x \<longrightarrow> c \<noteq> mock 2)))
     \<and> entries l' = fmfilter (\<lambda>b. interval l' < b) (entries l)
     \<and> moved = (if interval l < interval l' then Some (interval l') else None)"
  unfolding Let_def [of "fold log_step _ _"]
  by (rule advance_largest_settled_prefix) (simp add: inv_intros)

text \<open>
  Settle before you forget. An entry in the window, over any run of the log that neither
  re-offers nor withdraws its position, is still in the window, or the interval has covered it and
  some advance of the run saw its id settled.
\<close>

theorem no_drop:
  assumes "log_inv l" and "fmlookup (entries l) b = Some c" and "\<forall>e \<in> set es. \<not> touches b e"
  shows "fmlookup (entries (fold log_step es l)) b = Some c
    \<or> (b \<le> interval (fold log_step es l) \<and> (\<exists>S. Advance S \<in> set es \<and> c |\<in>| S))"
  using assms
proof (induction es arbitrary: l)
  case (Cons e es)
  from Cons.prems consider "fmlookup (entries (log_step e l)) b = Some c"
    | S where "b \<le> interval (log_step e l)" "e = Advance S" "c |\<in>| S"
    using entry_step [of l b c e] by auto
  then show ?case
  proof cases
    case 1
    with Cons show ?thesis by (auto simp: inv_intros dest: Cons.IH [rotated])
  next
    case 2
    then show ?thesis using interval_run_mono [of "log_step e l" es] by auto
  qed
qed simp

theorem no_drop_witness:
  "let l = observe 5 (mock 2) (resume 1);
       es = [Cover 9, Observe 7 (mock 3), Advance {|mock 3|}, Advance {|mock 2, mock 3|}]
   in fmlookup (entries (fold log_step es l)) 5 = Some (mock 2)
      \<or> (5 \<le> interval (fold log_step es l) \<and> (\<exists>S. Advance S \<in> set es \<and> mock 2 |\<in>| S))"
  unfolding Let_def
proof (rule no_drop)
  show "log_inv (observe 5 (mock 2) (resume 1))" by (simp add: inv_intros)
qed (simp_all add: entries_observe resume_def)

text \<open>
  The result does not depend on how often \<open>advance\<close> is called while the settled set grows:
  advancing for \<open>S\<close> and then for a larger \<open>T\<close> leaves the log that advancing once for \<open>T\<close> leaves.
\<close>

theorem advance_absorbs:
  assumes "log_inv l" and "\<And>c. S c \<Longrightarrow> T c"
  shows "snd (advance T (snd (advance S l))) = snd (advance T l)"
proof -
  have high: "interval (snd (advance T (snd (advance S l)))) = interval (snd (advance T l))"
    using assms by (rule pb_log.adv_adv)
  moreover have "fmlookup (entries (snd (advance T (snd (advance S l))))) b
      = fmlookup (entries (snd (advance T l))) b" for b
  proof -
    have "interval (snd (advance S l)) \<le> interval (snd (advance T l))"
      unfolding high [symmetric] by (rule interval_advance_mono)
    from order_trans [OF _ this] have "b \<le> interval (snd (advance S l)) \<Longrightarrow> b \<le> interval (snd (advance T l))" .
    with assms(1) high show ?thesis by (auto simp: entries_advance_above inv_intros)
  qed
  ultimately show ?thesis by (intro peer_bin_log.equality) (auto intro: fmap_ext)
qed

theorem advance_absorbs_witness:
  "let l = fold log_step [Cover 9, Observe 2 (mock 1), Observe 5 (mock 2)] (resume 1)
   in snd (advance (\<lambda>c. True) (snd (advance (\<lambda>c. c = mock 1) l))) = snd (advance (\<lambda>c. True) l)"
  unfolding Let_def by (rule advance_absorbs) (simp_all add: inv_intros)

text \<open>
  The interval is monotone over every run, and a covered range with everything settled is
  settled whole: \<open>advance\<close> then reports \<open>topmost\<close> (unless it was there already) and the window is
  empty, gaps included.
\<close>

theorem settled_range_advances:
  assumes "log_inv l" and "\<And>b c. fmlookup (entries (fold log_step es l)) b = Some c \<Longrightarrow> settled c"
  shows "let l1 = fold log_step es l; (moved, l2) = advance settled l1 in
     interval l \<le> interval l1 \<and> interval l2 = topmost l1 \<and> entries l2 = fmempty
     \<and> (moved = None \<longleftrightarrow> interval l1 = topmost l1)"
proof -
  let ?l1 = "fold log_step es l"
  have inv: "log_inv ?l1" using assms(1) by (induction es arbitrary: l) (simp_all add: inv_intros)
  have reach: "interval (snd (advance settled ?l1)) = topmost ?l1"
    using le_interval_advance [OF inv log_high_covered [OF inv], of settled] assms(2)
      interval_advance_le [OF inv, of settled] by auto
  moreover have "entries (snd (advance settled ?l1)) = fmempty"
  proof (rule fmap_ext)
    show "fmlookup (entries (snd (advance settled ?l1))) b = fmlookup fmempty b" for b
      using inv log_window [OF inv, of b] by (cases "fmlookup (entries ?l1) b") (simp_all add: entries_advance_above reach)
  qed
  ultimately show ?thesis
    using log_high_covered [OF inv] by (auto simp: Let_def case_prod_beta fst_advance interval_run_mono)
qed

theorem settled_range_advances_witness:
  "let l1 = fold log_step [Cover 9, Observe 2 (mock 1), Observe 5 (mock 2)] (resume 1);
       (moved, l2) = advance (\<lambda>c. True) l1 in
     interval (resume 1) \<le> interval l1 \<and> interval l2 = topmost l1 \<and> entries l2 = fmempty
     \<and> (moved = None \<longleftrightarrow> interval l1 = topmost l1)"
  by (rule settled_range_advances) simp_all

text \<open>
  The top of the position range. An offer whose \<open>topmost\<close> is the largest \<open>u64\<close> and that lists
  nothing settles the whole range at once, and the next offer would start at zero: \<open>next\<close> adds
  without a check, so a peer that announces it sends the puller back to the start.
\<close>

theorem next_wraps_at_top:
  "let l = snd (advance settled (cover (- 1) (resume i)))
   in interval l = - 1 \<and> next_start l = 0"
proof -
  have "advance_loop settled t i fmempty = (i, fmempty)" for t
    by (subst advance_loop.simps) simp
  then show ?thesis
    by (auto simp: Let_def advance_def cover_def resume_def next_start_def not_less word_order.extremum_unique)
qed

end
