(* ===== verification/Node.thy ===== *)
theory Node
  imports Machine_Inv Settlement
begin

section \<open>The sans-io node core: \<open>crates/node/src\<close>\<close>

text \<open>
  One function from events to effects: \<open>handle\<close>. Its arms end in \<open>round\<close> (\<open>node_round\<close>), one settle, prune, reset
  and schedule pass. The result is \<open>Done (effects, node)\<close>, or \<open>Panic\<close> where an \<open>unwrap\<close> of the
  source would fail; a \<open>debug_assert\<close> is not part of the release build and is stated as a lemma
  instead. Functions named like one of the machine carry the prefix \<open>Node_\<close>.
\<close>

subsection \<open>The open-offer discipline: \<open>discovery.rs\<close>\<close>

record discovery =
  offer_open :: "(PeerId \<times> Bin) fset"

definition Discovery_new :: discovery where
  "Discovery_new = \<lparr>offer_open = {||}\<rparr>"

definition try_open :: "PeerId \<Rightarrow> Bin \<Rightarrow> discovery \<Rightarrow> bool \<times> discovery" where
  "try_open peer bin d =
     ((peer, bin) |\<notin>| offer_open d, d\<lparr>offer_open := finsert (peer, bin) (offer_open d)\<rparr>)"

definition close :: "PeerId \<Rightarrow> Bin \<Rightarrow> discovery \<Rightarrow> discovery" where
  "close peer bin d = d\<lparr>offer_open := offer_open d |-| {|(peer, bin)|}\<rparr>"

definition forget_peer :: "PeerId \<Rightarrow> discovery \<Rightarrow> discovery" where
  "forget_peer peer d = d\<lparr>offer_open := ffilter (\<lambda>(q, _). q \<noteq> peer) (offer_open d)\<rparr>"

subsection \<open>Events, effects and the policy\<close>

datatype outcome = Delivered | Rejected | Missed

datatype event =
    PeerSeen PeerId
  | PeerGone PeerId
  | CursorsResult PeerId "(Bin \<times> BinId) list"
  | OfferResult PeerId Bin BinId "(BinId \<times> triple) list" BinId
  | FetchResult PeerId Bin "(triple \<times> outcome) list"
  | Tick

datatype effect =
    GetCursors PeerId
  | Offer PeerId Bin BinId
  | Fetch PeerId Bin "triple list"
  | Settled PeerId Bin BinId

record policy =
  cumulative_routing :: bool
  window :: nat

definition SHIPPED :: policy where
  "SHIPPED = \<lparr>cumulative_routing = True, window = 256\<rparr>"

record node =
  mach :: "triple pull_state"
  policy :: policy
  radius :: Bin
  peers :: "PeerId fset"
  cursors :: "(PeerId \<times> Bin, BinId) fmap"
  logs :: "(PeerId \<times> Bin, peer_bin_log) fmap"
  bin_of :: "(triple, Bin) fmap"
  assigned :: "(PeerId, u64) fmap"
  disc :: discovery

definition with_policy :: "config \<Rightarrow> Bin \<Rightarrow> policy \<Rightarrow> node" where
  "with_policy k r pol = \<lparr>mach = PullState_new k, policy = pol, radius = r,
     peers = {||}, cursors = fmempty, logs = fmempty, bin_of = fmempty, assigned = fmempty,
     disc = Discovery_new\<rparr>"

definition Node_new :: "config \<Rightarrow> Bin \<Rightarrow> node" where
  "Node_new k r = with_policy k r SHIPPED"

definition Node_preload :: "triple \<Rightarrow> node \<Rightarrow> bool \<times> node" where
  "Node_preload c n = (let (new, m) = preload c (mach n) in (new, n\<lparr>mach := m\<rparr>))"

subsection \<open>The round: settle\<close>

text \<open>
  Pass 1, over the keys of \<open>logs\<close> in order: advance each log over what is stored or rejected, report
  the move, and keep one offer open on the uncovered tail.
\<close>

definition settle_key :: "PeerId \<times> Bin \<Rightarrow> node \<Rightarrow> (effect list \<times> node) exec" where
  "settle_key key n =
     (case fmlookup (logs n) key of
        None \<Rightarrow> Panic
      | Some log \<Rightarrow>
          (let (upto, log1) = advance (\<lambda>c. has (mach n) c \<or> is_rejected (mach n) c) log;
               start = next_start log1;
               n1 = n\<lparr>logs := fmupd key log1 (logs n)\<rparr>;
               fx = (case upto of Some u \<Rightarrow> [Settled (fst key) (snd key) u] | None \<Rightarrow> [])
           in if topmost log1 < start \<and> fst key |\<in>| peers n1
              then (let (opened, d) = try_open (fst key) (snd key) (disc n1)
                    in Done (fx @ (if opened then [Offer (fst key) (snd key) start] else []),
                             n1\<lparr>disc := d\<rparr>))
              else Done (fx, n1)))"

definition settle :: "node \<Rightarrow> (effect list \<times> node) exec" where
  "settle n = for_each settle_key (sorted_list_of_fset (fmdom (logs n))) n"

subsection \<open>The round: prune and reset\<close>

definition windowed :: "node \<Rightarrow> triple fset" where
  "windowed n =
     fset_of_list (concat (map (\<lambda>(key, log). map snd (unsettled log)) (sorted_list_of_fmap (logs n))))"

definition prune :: "node \<Rightarrow> node" where
  "prune n =
     (let w = windowed n;
          gone = filter (\<lambda>c. (has (mach n) c \<or> is_rejected (mach n) c) \<and> c |\<notin>| w)
                   (sorted_list_of_fset (fmdom (bin_of n)))
      in fold (\<lambda>c n. n\<lparr>mach := snd (forget c (mach n)), bin_of := fmdrop c (bin_of n)\<rparr>) gone n)"

definition reset_pass :: "node \<Rightarrow> node" where
  "reset_pass n =
     fold (\<lambda>c n. n\<lparr>mach := snd (reset_excluded c (mach n))\<rparr>) (sorted_list_of_fset (fmdom (bin_of n))) n"

subsection \<open>The round: schedule\<close>

type_synonym committed = "(PeerId \<times> Bin, nat) fmap"
type_synonym batches = "(PeerId \<times> Bin, triple list) fmap"

text \<open>The enabled wants whose \<open>(peer, bin)\<close> has budget left in this round.\<close>

definition budgeted :: "node \<Rightarrow> committed \<Rightarrow> (triple \<times> PeerId) list" where
  "budgeted n com =
     filter (\<lambda>(c, p). get_or 0 com (p, get_or 0 (bin_of n) c) < window (policy n))
       (enabled_wants (mach n))"

definition pick_chunk :: "node \<Rightarrow> (triple \<times> PeerId) list \<Rightarrow> triple option" where
  "pick_chunk n enabled =
     map_option fst (max_by_key (\<lambda>(c, _). (get_or 0 (bin_of n) c, Reverse c)) enabled)"

definition pick_peer :: "node \<Rightarrow> (triple \<times> PeerId) list \<Rightarrow> triple \<Rightarrow> PeerId option" where
  "pick_peer n enabled c =
     min_by_key
       (\<lambda>p. (if cumulative_routing (policy n) then get_or 0 (assigned n) p else 0, load (mach n) p, p))
       (map snd (filter (\<lambda>(d, _). d = c) enabled))"

definition commit :: "triple \<Rightarrow> PeerId \<Rightarrow> node \<Rightarrow> node" where
  "commit c p n =
     n\<lparr>mach := snd (want_act c p (mach n)),
       assigned := fmupd p (get_or 0 (assigned n) p + 1) (assigned n)\<rparr>"

text \<open>
  The wants the machine has not taken: what each turn of the loop lowers, since the want it commits
  was enabled.
\<close>

definition open_slots :: "'c pull_state \<Rightarrow> ('c \<times> PeerId) set" where
  "open_slots s = {(c, p). c |\<in>| arrived s \<and> p |\<in>| holds s c \<and> p |\<notin>| claims s c}"

lemma finite_open_slots [simp]: "finite (open_slots s)"
  by (rule finite_subset [of _ "Sigma (fset (arrived s)) (\<lambda>c. fset (holds s c))"])
     (auto simp: open_slots_def)

lemma open_slots_want:
  "claimable s c p \<Longrightarrow> card (open_slots (snd (want_act c p s))) < card (open_slots s)"
  by (rule psubset_card_mono, simp)
     (force simp: open_slots_def want_act_def claimable_def split: if_splits)

lemma set_budgeted:
  "(c, p) \<in> set (budgeted n com) \<longleftrightarrow>
     claimable (mach n) c p \<and> get_or 0 com (p, get_or 0 (bin_of n) c) < window (policy n)"
  by (auto simp: budgeted_def)

lemma pick_chunk_SomeD:
  assumes "pick_chunk n enabled = Some c"
  shows "\<exists>p. (c, p) \<in> set enabled"
    and "\<And>d q. (d, q) \<in> set enabled \<Longrightarrow> get_or 0 (bin_of n) d \<le> get_or 0 (bin_of n) c"
  using assms
  by (auto simp: pick_chunk_def dest!: max_by_key_SomeD) (fastforce simp: less_eq_prod_def)+

lemma pick_peer_SomeD:
  assumes "pick_peer n enabled c = Some p"
  shows "(c, p) \<in> set enabled"
  using assms by (auto simp: pick_peer_def dest!: min_by_key_SomeD)

function schedule :: "committed \<Rightarrow> batches \<Rightarrow> node \<Rightarrow> (batches \<times> node) exec" where
  "schedule com batches n =
     (if budgeted n com = [] then Done (batches, n)
      else (case pick_chunk n (budgeted n com) of
          None \<Rightarrow> Panic
        | Some c \<Rightarrow> (case pick_peer n (budgeted n com) c of
              None \<Rightarrow> Panic
            | Some p \<Rightarrow>
                (let bin = get_or 0 (bin_of n) c
                 in schedule
                      (fmupd (p, bin) (get_or 0 com (p, bin) + 1) com)
                      (fmupd (p, bin) (get_or [] batches (p, bin) @ [c]) batches)
                      (commit c p n)))))"
  by pat_completeness auto
termination
  by (relation "measure (\<lambda>(com, batches, n). card (open_slots (mach n)))")
     (auto simp: commit_def set_budgeted intro!: open_slots_want dest!: pick_peer_SomeD)

declare schedule.simps [simp del]

definition fetches :: "batches \<Rightarrow> effect list" where
  "fetches batches = map (\<lambda>((peer, bin), want). Fetch peer bin want) (sorted_list_of_fmap batches)"

definition node_round :: "node \<Rightarrow> (effect list \<times> node) exec" where
  "node_round n =
     bind_exec (settle n) (\<lambda>(fx, n1).
     bind_exec (schedule fmempty fmempty (reset_pass (prune n1))) (\<lambda>(batches, n2).
       Done (fx @ fetches batches, n2)))"

subsection \<open>The event arms\<close>

definition peer_seen :: "PeerId \<Rightarrow> node \<Rightarrow> effect list \<times> node" where
  "peer_seen p n =
     (if p |\<notin>| peers n then ([GetCursors p], n\<lparr>peers := finsert p (peers n)\<rparr>) else ([], n))"

definition lose_all :: "triple list \<Rightarrow> PeerId \<Rightarrow> triple pull_state \<Rightarrow> triple pull_state" where
  "lose_all cs p m = fold (\<lambda>c m. snd (lose_holder c p m)) cs m"

definition drop_peer :: "PeerId \<Rightarrow> node \<Rightarrow> node" where
  "drop_peer p n =
     (let m1 = lose_all (held_by (mach n) p) p (mach n);
          m2 = lose_all (claims_of m1 p) p m1
      in n\<lparr>peers := peers n |-| {|p|},
           mach := m2,
           logs := fmfilter (\<lambda>(q, _). q \<noteq> p) (logs n),
           cursors := fmfilter (\<lambda>(q, _). q \<noteq> p) (cursors n),
           disc := forget_peer p (disc n)\<rparr>)"

definition take_cursor :: "PeerId \<Rightarrow> Bin \<times> BinId \<Rightarrow> node \<Rightarrow> (effect list \<times> node) exec" where
  "take_cursor peer cur n = (let (bin, head) = cur in
     if bin < radius n then Done ([], n)
     else (let log = get_or PeerBinLog_new (logs n) (peer, bin);
               (opened, d) = try_open peer bin (disc n)
           in Done (if opened then [Offer peer bin (next_start log)] else [],
                    n\<lparr>cursors := fmupd (peer, bin) head (cursors n),
                      logs := fmupd (peer, bin) log (logs n), disc := d\<rparr>)))"

text \<open>The open-offer close, the coverage and the churn-out detection of an \<open>OfferResult\<close>.\<close>

definition churned_out ::
  "BinId \<Rightarrow> BinId \<Rightarrow> (BinId \<times> triple) list \<Rightarrow> peer_bin_log \<Rightarrow> (BinId \<times> triple) list" where
  "churned_out start top_id refs log =
     filter (\<lambda>(b, _). start \<le> b \<and> b \<le> top_id \<and> b \<notin> set (map fst refs)) (unsettled log)"

definition open_window :: "PeerId \<Rightarrow> Bin \<Rightarrow> BinId \<Rightarrow> (BinId \<times> triple) list \<Rightarrow> BinId \<Rightarrow> node \<Rightarrow> node" where
  "open_window peer bin start refs top_id n =
     (let log = cover (max top_id start) (get_or PeerBinLog_new (logs n) (peer, bin));
          lost = churned_out start top_id refs log
      in n\<lparr>disc := close peer bin (disc n),
           logs := fmupd (peer, bin) (fold (\<lambda>(b, _) l. snd (forget_entry b l)) lost log) (logs n),
           mach := lose_all (map snd lost) peer (mach n)\<rparr>)"

definition ingest :: "PeerId \<Rightarrow> Bin \<Rightarrow> BinId \<Rightarrow> BinId \<times> triple \<Rightarrow> node \<Rightarrow> (effect list \<times> node) exec" where
  "ingest peer bin cursor entry n = (let (b, c) = entry in
     (case fmlookup (logs n) (peer, bin) of
        None \<Rightarrow> Panic
      | Some log \<Rightarrow>
          (let m1 = set_prio c bin (snd (observe_holder c peer (mach n)));
               m2 = snd (if cursor < b then arrive_live c m1 else arrive_hist c m1)
           in Done ([], n\<lparr>logs := fmupd (peer, bin) (observe b c log) (logs n),
                          bin_of := fmupd c bin (bin_of n), mach := m2\<rparr>))))"

definition tick_key :: "PeerId \<times> Bin \<Rightarrow> node \<Rightarrow> (effect list \<times> node) exec" where
  "tick_key key n = (let (peer, bin) = key in
     if peer |\<notin>| peers n then Done ([], n)
     else (let (opened, d) = try_open peer bin (disc n); n1 = n\<lparr>disc := d\<rparr>
           in if \<not> opened then Done ([], n1)
              else (case fmlookup (logs n1) (peer, bin) of
                  None \<Rightarrow> Panic
                | Some log \<Rightarrow> Done ([Offer peer bin (next_start log)], n1))))"

fun apply_outcome :: "PeerId \<Rightarrow> triple \<times> outcome \<Rightarrow> triple pull_state \<Rightarrow> triple pull_state" where
  "apply_outcome peer (c, Delivered) m = snd (deliver c peer m)"
| "apply_outcome peer (c, Rejected) m = snd (reject c m)"
| "apply_outcome peer (c, Missed) m = snd (stall c peer m)"

fun handle :: "event \<Rightarrow> node \<Rightarrow> (effect list \<times> node) exec" where
  "handle (PeerSeen p) n = Done (peer_seen p n)"
| "handle (PeerGone p) n = node_round (drop_peer p n)"
| "handle (CursorsResult peer cs) n = for_each (take_cursor peer) cs n"
| "handle (OfferResult peer bin start refs top_id) n =
     bind_exec
       (for_each (ingest peer bin (get_or 0 (cursors n) (peer, bin))) refs
         (open_window peer bin start refs top_id n))
       (\<lambda>(_, n'). node_round n')"
| "handle Tick n = for_each tick_key (sorted_list_of_fset (fmdom (logs n))) n"
| "handle (FetchResult peer bin outcomes) n =
     node_round (n\<lparr>mach := fold (apply_outcome peer) outcomes (mach n)\<rparr>)"

subsection \<open>Observability\<close>

definition working_set :: "node \<Rightarrow> nat" where
  "working_set n = fcard (fmdom (bin_of n))"

definition Node_deficit :: "node \<Rightarrow> nat" where
  "Node_deficit n = deficit (mach n)"

definition Node_has :: "node \<Rightarrow> triple \<Rightarrow> bool" where
  "Node_has n c \<longleftrightarrow> has (mach n) c"

definition Node_conflict :: "node \<Rightarrow> bool" where
  "Node_conflict n \<longleftrightarrow> conflict (mach n)"

definition Node_deliveries :: "node \<Rightarrow> u32" where
  "Node_deliveries n = deliveries (mach n)"

definition Node_interval :: "PeerId \<Rightarrow> Bin \<Rightarrow> node \<Rightarrow> BinId option" where
  "Node_interval peer bin n = map_option interval (fmlookup (logs n) (peer, bin))"

definition Node_check_invariants :: "node \<Rightarrow> string + unit" where
  "Node_check_invariants n = check_invariants (mach n)"

end
