(* ===== verification/Node_Inv.thy ===== *)
theory Node_Inv
  imports Node
begin

section \<open>The node is a client of the machine\<close>

text \<open>
  What each pass of a round does, as an equation or a specification of its result; that every pass
  moves the machine by its actions only; and the invariant of the node.
\<close>

declare split_paired_All [simp del] split_paired_Ex [simp del]

named_theorems moves "operations that are runs of the machine"

subsection \<open>Every pass is a run of the machine\<close>

lemma move: "(\<And>c. a \<noteq> Preload c) \<Longrightarrow> machine_step\<^sup>*\<^sup>* s (do_action a s)"
  by (rule r_into_rtranclp) (auto intro: machine_step.act)

lemma machine_moves [moves]:
  "machine_step\<^sup>*\<^sup>* s (snd (observe_holder c p s))"
  "machine_step\<^sup>*\<^sup>* s (snd (lose_holder c p s))"
  "machine_step\<^sup>*\<^sup>* s (snd (arrive_hist c s))"
  "machine_step\<^sup>*\<^sup>* s (snd (arrive_live c s))"
  "machine_step\<^sup>*\<^sup>* s (snd (want_act c p s))"
  "machine_step\<^sup>*\<^sup>* s (snd (deliver c p s))"
  "machine_step\<^sup>*\<^sup>* s (snd (stall c p s))"
  "machine_step\<^sup>*\<^sup>* s (snd (reject c s))"
  "machine_step\<^sup>*\<^sup>* s (snd (reset_excluded c s))"
  "machine_step\<^sup>*\<^sup>* s (snd (forget c s))"
  "machine_step\<^sup>*\<^sup>* s (set_prio c d s)"
  using move [of "ObserveHolder c p" s] move [of "LoseHolder c p" s] move [of "ArriveHist c" s]
    move [of "ArriveLive c" s] move [of "Want c p" s] move [of "Deliver c p" s]
    move [of "Stall c p" s] move [of "Reject c" s] move [of "ResetExcluded c" s]
    move [of "Forget c" s] move [of "SetPrio c d" s]
  by simp_all

lemma moves_trans: "machine_step\<^sup>*\<^sup>* s t \<Longrightarrow> machine_step\<^sup>*\<^sup>* t u \<Longrightarrow> machine_step\<^sup>*\<^sup>* s u"
  by (rule rtranclp_trans)

lemma moves_fold: "(\<And>x s. machine_step\<^sup>*\<^sup>* s (f x s)) \<Longrightarrow> machine_step\<^sup>*\<^sup>* s (fold f xs s)"
  by (induction xs arbitrary: s) (auto intro: moves_trans)

lemma moves_lose_all [moves]: "machine_step\<^sup>*\<^sup>* m (lose_all cs p m)"
  unfolding lose_all_def by (rule moves_fold) (rule moves)

lemma moves_apply_outcome [moves]: "machine_step\<^sup>*\<^sup>* m (apply_outcome p o1 m)"
  by (cases "(p, o1, m)" rule: apply_outcome.cases) (auto intro: moves)

lemma moves_outcomes [moves]: "machine_step\<^sup>*\<^sup>* m (fold (apply_outcome p) os m)"
  by (rule moves_fold) (rule moves)

subsection \<open>Settle\<close>

abbreviation finished :: "node \<Rightarrow> triple \<Rightarrow> bool" where
  "finished n c \<equiv> has (mach n) c \<or> is_rejected (mach n) c"

definition settled_log :: "node \<Rightarrow> peer_bin_log \<Rightarrow> peer_bin_log" where
  "settled_log n l = snd (advance (finished n) l)"

definition has_tail :: "node \<Rightarrow> PeerId \<times> Bin \<Rightarrow> bool" where
  "has_tail n key \<longleftrightarrow> (case fmlookup (logs n) key of None \<Rightarrow> False
     | Some l \<Rightarrow> topmost l < next_start (settled_log n l) \<and> fst key |\<in>| peers n)"

definition settle_fx :: "node \<Rightarrow> PeerId \<times> Bin \<Rightarrow> effect list" where
  "settle_fx n key = (case fmlookup (logs n) key of None \<Rightarrow> []
     | Some l \<Rightarrow>
         (case fst (advance (finished n) l) of Some u \<Rightarrow> [Settled (fst key) (snd key) u] | None \<Rightarrow> [])
         @ (if has_tail n key \<and> key |\<notin>| offer_open (disc n)
            then [Offer (fst key) (snd key) (next_start (settled_log n l))] else []))"

definition settle_state :: "node \<Rightarrow> (PeerId \<times> Bin) list \<Rightarrow> node \<Rightarrow> bool" where
  "settle_state n keys t \<longleftrightarrow>
     t = n\<lparr>logs := logs t, disc := disc t\<rparr>
     \<and> (\<forall>k. fmlookup (logs t) k =
          (if k \<in> set keys then map_option (settled_log n) (fmlookup (logs n) k) else fmlookup (logs n) k))
     \<and> offer_open (disc t) = offer_open (disc n) |\<union>| ffilter (has_tail n) (fset_of_list keys)"

lemma settle_key_step:
  assumes t: "settle_state n ks t" and k: "k \<notin> set ks" "fmlookup (logs n) k = Some l"
  shows "\<exists>t'. settle_key k t = Done (settle_fx n k, t') \<and> settle_state n (ks @ [k]) t'"
proof -
  from t obtain L D where eq: "t = n\<lparr>logs := L, disc := D\<rparr>" unfolding settle_state_def by blast
  with t have "fmlookup L k = (if k \<in> set ks then map_option (settled_log n) (fmlookup (logs n) k)
      else fmlookup (logs n) k)"
    and "offer_open D = offer_open (disc n) |\<union>| ffilter (has_tail n) (fset_of_list ks)"
    by (simp_all add: settle_state_def)
  with k have L: "fmlookup L k = Some l" and D: "k |\<in>| offer_open D \<longleftrightarrow> k |\<in>| offer_open (disc n)"
    by (simp_all add: fset_of_list_elem)
  obtain p b where pb: "k = (p, b)" by (cases k)
  let ?t = "n\<lparr>logs := fmupd k (settled_log n l) L,
              disc := (if has_tail n k then D\<lparr>offer_open := finsert k (offer_open D)\<rparr> else D)\<rparr>"
  have "settle_key k t = Done (settle_fx n k, ?t)"
    using L D k(2) pb
    by (simp add: eq settle_key_def settle_fx_def has_tail_def try_open_def settled_log_def Let_def
        case_prod_beta)
  moreover have "settle_state n (ks @ [k]) ?t"
    using t k unfolding eq settle_state_def by (auto simp: fset_of_list_elem)
  ultimately show ?thesis by blast
qed

definition settled_node :: "node \<Rightarrow> node" where
  "settled_node n = n\<lparr>logs := fmmap (settled_log n) (logs n),
     disc := (disc n)\<lparr>offer_open := offer_open (disc n) |\<union>| ffilter (has_tail n) (fmdom (logs n))\<rparr>\<rparr>"

lemma settle_eq:
  "settle n = Done (concat (map (settle_fx n) (sorted_list_of_fset (fmdom (logs n)))), settled_node n)"
proof -
  let ?ks = "sorted_list_of_fset (fmdom (logs n))"
  have "\<exists>fx t. for_each settle_key ?ks n = Done (fx, t)
      \<and> fx = concat (map (settle_fx n) ?ks) \<and> settle_state n ?ks t"
  proof (rule for_each_rule)
    show "[] = concat (map (settle_fx n) []) \<and> settle_state n [] n"
      by (auto simp: settle_state_def)
  next
    fix ks k rest fx t
    assume ks: "?ks = ks @ k # rest" and P: "fx = concat (map (settle_fx n) ks) \<and> settle_state n ks t"
    have "distinct ?ks" by simp
    then have "k \<notin> set ks" unfolding ks by simp
    moreover have "k \<in> set ?ks" unfolding ks by simp
    then obtain l where "fmlookup (logs n) k = Some l" by (auto simp: fmlookup_dom_iff)
    ultimately show "\<exists>fx' t'. settle_key k t = Done (fx', t') \<and>
        fx @ fx' = concat (map (settle_fx n) (ks @ [k])) \<and> settle_state n (ks @ [k]) t'"
      using settle_key_step P by auto
  qed
  then obtain t where t: "settle n = Done (concat (map (settle_fx n) ?ks), t)" "settle_state n ?ks t"
    by (auto simp: settle_def)
  then obtain L D where eq: "t = n\<lparr>logs := L, disc := D\<rparr>" unfolding settle_state_def by blast
  have "L = fmmap (settled_log n) (logs n)"
    using t(2) by (intro fmap_ext) (auto simp: eq settle_state_def fmlookup_dom_iff)
  moreover have "D = disc (settled_node n)"
    using t(2) by (intro discovery.equality)
      (auto simp: eq settle_state_def settled_node_def fset_of_list_elem)
  ultimately have "t = settled_node n" by (simp add: eq settled_node_def)
  with t(1) show ?thesis by simp
qed

subsection \<open>Prune\<close>

definition forgotten :: "triple list \<Rightarrow> triple pull_state \<Rightarrow> triple pull_state" where
  "forgotten cs m = m\<lparr>arrived := arrived m |-| fset_of_list cs, live := live m |-| fset_of_list cs,
     holders := fmfilter (\<lambda>c. c \<notin> set cs) (holders m),
     excluded := fmfilter (\<lambda>c. c \<notin> set cs) (excluded m),
     prio := fmfilter (\<lambda>c. c \<notin> set cs) (prio m)\<rparr>"

lemma fmfilter_fmdrop: "fmfilter (\<lambda>x. x \<notin> set cs) (fmdrop c m) = fmfilter (\<lambda>x. x \<noteq> c \<and> x \<notin> set cs) m"
  by (rule fmap_ext) auto

lemma forgotten_Cons:
  assumes "has m c \<or> is_rejected m c"
  shows "forgotten cs (snd (forget c m)) = forgotten (c # cs) m"
  using assms
  by (auto simp: forgotten_def forget_def has_def is_rejected_def fmfilter_fmdrop fset_of_list_elem
      intro!: pull_state.equality)

lemma finished_forgotten [simp]:
  "has (snd (forget c m)) d = has m d" "is_rejected (snd (forget c m)) d = is_rejected m d"
  by (simp_all add: forget_def has_def is_rejected_def)

definition pruned :: "node \<Rightarrow> triple list" where
  "pruned n = filter (\<lambda>c. finished n c \<and> c |\<notin>| windowed n) (sorted_list_of_fset (fmdom (bin_of n)))"

lemma prune_eq:
  "prune n = n\<lparr>mach := forgotten (pruned n) (mach n), bin_of := fmfilter (\<lambda>c. c \<notin> set (pruned n)) (bin_of n)\<rparr>"
proof -
  have "fold (\<lambda>c n. n\<lparr>mach := snd (forget c (mach n)), bin_of := fmdrop c (bin_of n)\<rparr>) cs n
      = n\<lparr>mach := forgotten cs (mach n), bin_of := fmfilter (\<lambda>c. c \<notin> set cs) (bin_of n)\<rparr>"
    if "\<forall>c \<in> set cs. finished n c" for cs n
    using that
  proof (induction cs arbitrary: n)
    case Nil
    have "fmfilter (\<lambda>c. True) f = f" for f :: "(triple, 'v) fmap" by (rule fmap_ext) simp
    then show ?case by (simp add: forgotten_def)
  next
    case (Cons c cs)
    let ?n = "n\<lparr>mach := snd (forget c (mach n)), bin_of := fmdrop c (bin_of n)\<rparr>"
    have "bin_of ?n = fmdrop c (bin_of n)" "mach ?n = snd (forget c (mach n))" by simp_all
    with Cons.IH [of ?n] Cons.prems show ?case by (simp add: forgotten_Cons fmfilter_fmdrop)
  qed
  then show ?thesis by (simp add: prune_def pruned_def Let_def)
qed

lemma moves_prune [moves]: "machine_step\<^sup>*\<^sup>* (mach n) (mach (prune n))"
proof -
  have "machine_step\<^sup>*\<^sup>* (mach n)
      (mach (fold (\<lambda>c n. n\<lparr>mach := snd (forget c (mach n)), bin_of := fmdrop c (bin_of n)\<rparr>) cs n))" for cs
  proof (induction cs arbitrary: n)
    case (Cons c cs)
    from moves_trans [OF machine_moves(10) [of "mach n" c]]
      Cons [of "n\<lparr>mach := snd (forget c (mach n)), bin_of := fmdrop c (bin_of n)\<rparr>"]
    show ?case by simp
  qed simp
  then show ?thesis by (simp add: prune_def Let_def)
qed

lemma mem_windowed: "c |\<in>| windowed n \<longleftrightarrow> (\<exists>k l b. fmlookup (logs n) k = Some l \<and> fmlookup (entries l) b = Some c)"
proof
  assume "c |\<in>| windowed n"
  then obtain k l b where "(k, l) \<in> set (sorted_list_of_fmap (logs n))" "(b, c) \<in> set (unsettled l)"
    by (auto simp: windowed_def fset_of_list_elem simp del: set_unsettled mem_sorted_list_of_fmap)
  then show "\<exists>k l b. fmlookup (logs n) k = Some l \<and> fmlookup (entries l) b = Some c" by auto
next
  assume "\<exists>k l b. fmlookup (logs n) k = Some l \<and> fmlookup (entries l) b = Some c"
  then obtain k l b where "(k, l) \<in> set (sorted_list_of_fmap (logs n))" "(b, c) \<in> set (unsettled l)" by auto
  then show "c |\<in>| windowed n" by (force simp: windowed_def fset_of_list_elem)
qed

subsection \<open>Reset\<close>

lemma reset_pass_spec:
  "\<exists>ex. reset_pass n = n\<lparr>mach := (mach n)\<lparr>excluded := ex\<rparr>\<rparr>
     \<and> (\<forall>c. fmlookup ex c = (if c |\<in>| fmdom (bin_of n) \<and> can_reset_excluded (mach n) c then None
            else fmlookup (excluded (mach n)) c))"
proof -
  let ?f = "\<lambda>c n. n\<lparr>mach := snd (reset_excluded c (mach n))\<rparr>"
  have "\<exists>ex. fold ?f cs n = n\<lparr>mach := (mach n)\<lparr>excluded := ex\<rparr>\<rparr>
      \<and> (\<forall>c. fmlookup ex c = (if c \<in> set cs \<and> can_reset_excluded (mach n) c then None
             else fmlookup (excluded (mach n)) c))" for cs n
  proof (induction cs arbitrary: n)
    case Nil
    show ?case by (rule exI [of _ "excluded (mach n)"]) simp
  next
    case (Cons d cs)
    let ?m = "snd (reset_excluded d (mach n))"
    obtain ex where ex: "fold ?f cs (?f d n) = (?f d n)\<lparr>mach := ?m\<lparr>excluded := ex\<rparr>\<rparr>"
      and look: "\<forall>c. fmlookup ex c = (if c \<in> set cs \<and> can_reset_excluded ?m c then None
             else fmlookup (excluded ?m) c)"
      using Cons [of "?f d n"] by auto
    have "can_reset_excluded ?m c = can_reset_excluded (mach n) c" if "c \<noteq> d" for c
    proof (cases "can_reset_excluded (mach n) d")
      case True
      then have "?m = (mach n)\<lparr>excluded := fmdrop d (excluded (mach n))\<rparr>" by (simp add: reset_excluded_def)
      with that show ?thesis by (simp add: can_reset_excluded_def cong: option.case_cong)
    qed (simp add: reset_excluded_def)
    moreover have "fmlookup (excluded ?m) c = (if c = d \<and> can_reset_excluded (mach n) d then None
        else fmlookup (excluded (mach n)) c)" for c
      by (simp add: reset_excluded_def)
    moreover have "can_reset_excluded ?m d \<Longrightarrow> can_reset_excluded (mach n) d"
      by (auto simp: reset_excluded_def split: if_splits)
    ultimately have "fmlookup ex c = (if c \<in> set (d # cs) \<and> can_reset_excluded (mach n) c then None
             else fmlookup (excluded (mach n)) c)" for c
      using look by (cases "c = d") auto
    moreover have "?m\<lparr>excluded := ex\<rparr> = (mach n)\<lparr>excluded := ex\<rparr>"
      by (simp add: reset_excluded_def)
    ultimately show ?case using ex by (intro exI [of _ ex]) simp
  qed
  from this [of "sorted_list_of_fset (fmdom (bin_of n))" n] show ?thesis
    by (simp add: reset_pass_def)
qed

lemma moves_reset_pass [moves]: "machine_step\<^sup>*\<^sup>* (mach n) (mach (reset_pass n))"
proof -
  have "machine_step\<^sup>*\<^sup>* (mach n) (mach (fold (\<lambda>c n. n\<lparr>mach := snd (reset_excluded c (mach n))\<rparr>) cs n))" for cs
  proof (induction cs arbitrary: n)
    case (Cons c cs)
    from moves_trans [OF machine_moves(9) [of "mach n" c]]
      Cons [of "n\<lparr>mach := snd (reset_excluded c (mach n))\<rparr>"]
    show ?case by simp
  qed simp
  then show ?thesis by (simp add: reset_pass_def)
qed

subsection \<open>Schedule\<close>

text \<open>
  What holds at every turn of the scheduling loop started in \<open>n0\<close>: only leases and the routing key
  have changed, by enabled wants; \<open>com\<close> counts the batches, which stay within the window; and the
  leases are those of \<open>n0\<close> together with what the batches name.
\<close>

definition bin_at :: "node \<Rightarrow> triple \<Rightarrow> Bin" where
  "bin_at n c = get_or 0 (bin_of n) c"

abbreviation batch :: "batches \<Rightarrow> PeerId \<Rightarrow> Bin \<Rightarrow> triple list" where
  "batch bs p b \<equiv> get_or [] bs (p, b)"

definition sched_inv :: "node \<Rightarrow> committed \<Rightarrow> batches \<Rightarrow> node \<Rightarrow> bool" where
  "sched_inv n0 com bs n \<longleftrightarrow>
     (\<exists>w a. n = n0\<lparr>mach := (mach n0)\<lparr>want := w\<rparr>, assigned := a\<rparr>)
     \<and> machine_step\<^sup>*\<^sup>* (mach n0) (mach n)
     \<and> (\<forall>p b. get_or 0 com (p, b) = length (batch bs p b) \<and> length (batch bs p b) \<le> window (policy n0)
          \<and> distinct (batch bs p b) \<and> fmlookup bs (p, b) \<noteq> Some [])
     \<and> (\<forall>p c. p |\<in>| claims (mach n) c \<longleftrightarrow>
          p |\<in>| claims (mach n0) c \<or> c \<in> set (batch bs p (bin_at n0 c)))
     \<and> (\<forall>p b c. c \<in> set (batch bs p b) \<longrightarrow>
          bin_at n0 c = b \<and> c |\<in>| arrived (mach n0) \<and> c |\<notin>| got (mach n0) \<and> p |\<in>| holds (mach n0) c
          \<and> p |\<notin>| bars (mach n0) c \<and> p |\<notin>| claims (mach n0) c
          \<and> (dedup (cfg (mach n0)) \<longrightarrow> claims (mach n0) c = {||}))"

lemma sched_inv_batch:
  "sched_inv n0 com bs n \<Longrightarrow> get_or 0 com (p, b) = length (batch bs p b)
    \<and> length (batch bs p b) \<le> window (policy n0) \<and> distinct (batch bs p b) \<and> fmlookup bs (p, b) \<noteq> Some []"
  unfolding sched_inv_def by blast

lemma sched_inv_frame:
  "sched_inv n0 com bs n \<Longrightarrow> \<exists>w a. n = n0\<lparr>mach := (mach n0)\<lparr>want := w\<rparr>, assigned := a\<rparr>"
  unfolding sched_inv_def by blast

lemma sched_inv_leased:
  assumes "sched_inv n0 com bs n" and "c \<in> set (batch bs p b)"
  shows "p |\<in>| claims (mach n) c \<and> bin_at n c = b \<and> c |\<in>| arrived (mach n) \<and> c |\<notin>| got (mach n)
    \<and> p |\<in>| holds (mach n) c \<and> p |\<notin>| bars (mach n) c"
proof -
  obtain w a where n: "n = n0\<lparr>mach := (mach n0)\<lparr>want := w\<rparr>, assigned := a\<rparr>"
    using sched_inv_frame [OF assms(1)] by blast
  have "bin_at n0 c = b \<and> c |\<in>| arrived (mach n0) \<and> c |\<notin>| got (mach n0) \<and> p |\<in>| holds (mach n0) c
      \<and> p |\<notin>| bars (mach n0) c" and "p |\<in>| claims (mach n) c"
    using assms unfolding sched_inv_def by blast+
  then show ?thesis by (simp add: n bin_at_def)
qed

lemma sched_inv_start: "sched_inv n fmempty fmempty n"
  unfolding sched_inv_def by (auto intro!: exI [of _ "want (mach n)"] exI [of _ "assigned n"])

lemma sched_inv_commit:
  assumes inv: "sched_inv n0 com bs n" and cl: "claimable (mach n) c p"
    and budget: "get_or 0 com (p, bin_at n0 c) < window (policy n0)"
  shows "sched_inv n0 (fmupd (p, bin_at n0 c) (get_or 0 com (p, bin_at n0 c) + 1) com)
    (fmupd (p, bin_at n0 c) (batch bs p (bin_at n0 c) @ [c]) bs) (commit c p n)"
proof -
  from inv obtain w a where n: "n = n0\<lparr>mach := (mach n0)\<lparr>want := w\<rparr>, assigned := a\<rparr>"
    unfolding sched_inv_def by blast
  let ?w = "fmupd c (finsert p (get_or {||} w c)) w"
  have eq: "commit c p n = n0\<lparr>mach := (mach n0)\<lparr>want := ?w\<rparr>, assigned := fmupd p (get_or 0 a p + 1) a\<rparr>"
    using cl by (simp add: n commit_def want_act_def)
  have step: "machine_step\<^sup>*\<^sup>* (mach n) (mach (commit c p n))"
    by (simp add: commit_def moves)
  have old: "\<And>q d. q |\<in>| get_or {||} w d \<longleftrightarrow>
        q |\<in>| claims (mach n0) d \<or> d \<in> set (batch bs q (bin_at n0 d))"
    using inv by (simp add: sched_inv_def n)
  have guard: "c |\<in>| arrived (mach n0)" "c |\<notin>| got (mach n0)" "p |\<in>| holds (mach n0) c"
    "p |\<notin>| bars (mach n0) c" "p |\<notin>| get_or {||} w c"
    "dedup (cfg (mach n0)) \<Longrightarrow> get_or {||} w c = {||}"
    using cl by (auto simp: n claimable_def contains_key_def get_or_def dest: fmdom_notD)
  then have fresh: "c \<notin> set (batch bs p (bin_at n0 c))" "p |\<notin>| claims (mach n0) c"
    "dedup (cfg (mach n0)) \<Longrightarrow> claims (mach n0) c = {||}"
    using old by auto
  show ?thesis
    unfolding sched_inv_def
  proof (intro conjI)
    show "\<exists>w a. commit c p n = n0\<lparr>mach := (mach n0)\<lparr>want := w\<rparr>, assigned := a\<rparr>"
      using eq by blast
    show "machine_step\<^sup>*\<^sup>* (mach n0) (mach (commit c p n))"
      using inv step by (auto simp: sched_inv_def intro: moves_trans)
  qed (use inv guard fresh old budget in \<open>auto simp: sched_inv_def eq Suc_le_eq\<close>)
qed

lemma schedule_spec:
  assumes "sched_inv n0 com bs n"
  shows "\<exists>com' bs' n'. schedule com bs n = Done (bs', n') \<and> sched_inv n0 com' bs' n'
    \<and> budgeted n' com' = []"
  using assms
proof (induction com bs n rule: schedule.induct)
  case (1 com bs n)
  have bin: "get_or 0 (bin_of n) c = bin_at n0 c" for c
    using "1.prems" by (auto simp: sched_inv_def bin_at_def)
  have pol: "policy n = policy n0"
    using "1.prems" by (auto simp: sched_inv_def)
  show ?case
  proof (cases "budgeted n com = []")
    case True
    with "1.prems" show ?thesis
      by (subst schedule.simps) auto
  next
    case False
    then obtain c where c: "pick_chunk n (budgeted n com) = Some c"
      by (cases "pick_chunk n (budgeted n com)") (auto simp: pick_chunk_def)
    then obtain q where "(c, q) \<in> set (budgeted n com)"
      using pick_chunk_SomeD(1) by blast
    then obtain p where p: "pick_peer n (budgeted n com) c = Some p"
      by (cases "pick_peer n (budgeted n com) c") (auto simp: pick_peer_def filter_empty_conv)
    then have "(c, p) \<in> set (budgeted n com)" by (rule pick_peer_SomeD)
    then have "claimable (mach n) c p" "get_or 0 com (p, bin_at n0 c) < window (policy n0)"
      by (simp_all add: set_budgeted bin pol)
    from "1.IH" [OF False c p refl] sched_inv_commit [OF "1.prems" this] False c p
    show ?thesis by (subst schedule.simps) (simp add: bin Let_def)
  qed
qed

subsection \<open>The round\<close>

lemma mem_fetches: "e \<in> set (fetches bs) \<longleftrightarrow> (\<exists>p b ws. e = Fetch p b ws \<and> fmlookup bs (p, b) = Some ws)"
proof -
  have "e \<in> set (fetches bs) \<longleftrightarrow>
      (\<exists>k ws. (k, ws) \<in> set (sorted_list_of_fmap bs) \<and> e = (case k of (p, b) \<Rightarrow> Fetch p b ws))"
    unfolding fetches_def by (force split: prod.splits)
  then show ?thesis by (auto split: prod.splits)
qed

definition before_schedule :: "node \<Rightarrow> node" where
  "before_schedule n = reset_pass (prune (settled_node n))"

definition settle_effects :: "node \<Rightarrow> effect list" where
  "settle_effects n = concat (map (settle_fx n) (sorted_list_of_fset (fmdom (logs n))))"

lemma mem_settle_effects:
  "e \<in> set (settle_effects n) \<longleftrightarrow> (\<exists>p b. (p, b) |\<in>| fmdom (logs n) \<and> e \<in> set (settle_fx n (p, b)))"
  by (auto simp: settle_effects_def)

lemma node_round_spec:
  obtains com bs n' where "node_round n = Done (settle_effects n @ fetches bs, n')"
    and "sched_inv (before_schedule n) com bs n'" and "budgeted n' com = []"
  using schedule_spec [OF sched_inv_start, of "before_schedule n"]
  by (auto simp: node_round_def settle_eq before_schedule_def settle_effects_def)

lemma moves_before_schedule [moves]: "machine_step\<^sup>*\<^sup>* (mach n) (mach (before_schedule n))"
proof -
  have "machine_step\<^sup>*\<^sup>* (mach (settled_node n)) (mach (before_schedule n))"
    unfolding before_schedule_def by (rule moves_trans [OF moves_prune moves_reset_pass])
  then show ?thesis by (simp add: settled_node_def)
qed

lemma moves_node_round:
  assumes "node_round n = Done (fx, n')"
  shows "machine_step\<^sup>*\<^sup>* (mach n) (mach n')"
  using node_round_spec [of n] assms moves_before_schedule [of n]
  by (metis exec.inject moves_trans prod.inject sched_inv_def)

subsection \<open>The invariant of the node\<close>

text \<open>
  The machine is in a safe state, every log is well formed, the priorities are the bins, and the
  scheduling maps and windows mention ids of the working set only.
\<close>

definition books_of :: "(triple, Bin) fmap \<Rightarrow> triple pull_state \<Rightarrow> bool" where
  "books_of B m \<longleftrightarrow> prio m = B \<and> arrived m |\<subseteq>| fmdom B
     \<and> fmdom (holders m) |\<subseteq>| fmdom B \<and> fmdom (excluded m) |\<subseteq>| fmdom B"

definition books :: "node \<Rightarrow> bool" where
  "books n \<longleftrightarrow>
     (\<forall>k l. fmlookup (logs n) k = Some l \<longrightarrow> log_inv l)
     \<and> windowed n |\<subseteq>| fmdom (bin_of n)
     \<and> books_of (bin_of n) (mach n)"

definition node_inv :: "node \<Rightarrow> bool" where
  "node_inv n \<longleftrightarrow> machine_inv (mach n) \<and> books n"

lemma node_invI: "machine_inv (mach n) \<Longrightarrow> machine_step\<^sup>*\<^sup>* (mach n) (mach t) \<Longrightarrow> books t \<Longrightarrow> node_inv t"
  by (auto simp: node_inv_def intro: machine.inv_steps)

lemma windowedI: "fmlookup (logs n) k = Some l \<Longrightarrow> fmlookup (entries l) b = Some c \<Longrightarrow> c |\<in>| windowed n"
  by (auto simp: mem_windowed)

lemma windowed_mono:
  assumes "\<And>k l b c. fmlookup (logs t) k = Some l \<Longrightarrow> fmlookup (entries l) b = Some c \<Longrightarrow> c |\<in>| windowed n"
  shows "windowed t |\<subseteq>| windowed n"
  using assms by (auto simp: mem_windowed [of _ t])

lemma windowed_same: "logs t = logs n \<Longrightarrow> windowed t = windowed n"
  by (simp add: windowed_def)

lemma books_settled_node:
  assumes "books n"
  shows "books (settled_node n)"
proof -
  have "windowed (settled_node n) |\<subseteq>| windowed n"
    using assms
    by (intro windowed_mono)
       (auto simp: settled_node_def settled_log_def books_def books_of_def entries_advance_above
         split: if_splits intro: windowedI)
  moreover have "log_inv l" if "fmlookup (logs (settled_node n)) k = Some l" for k l
    using that assms by (auto simp: settled_node_def settled_log_def books_def books_of_def intro!: log_inv_advance)
  ultimately show ?thesis
    using assms unfolding books_def books_of_def by (auto simp: settled_node_def)
qed

lemma set_pruned: "c \<in> set (pruned n) \<longleftrightarrow> c |\<in>| fmdom (bin_of n) \<and> finished n c \<and> c |\<notin>| windowed n"
  by (auto simp: pruned_def)

lemma books_prune: "books n \<Longrightarrow> books (prune n)"
  using windowed_same [of "prune n" n]
  by (auto simp: books_def books_of_def prune_eq forgotten_def set_pruned fset_of_list_elem)

lemma books_reset_pass: "books n \<Longrightarrow> books (reset_pass n)"
proof -
  assume b: "books n"
  obtain ex where ex: "reset_pass n = n\<lparr>mach := (mach n)\<lparr>excluded := ex\<rparr>\<rparr>"
    and look: "\<forall>c. fmlookup ex c = (if c |\<in>| fmdom (bin_of n) \<and> can_reset_excluded (mach n) c then None
            else fmlookup (excluded (mach n)) c)"
    using reset_pass_spec by blast
  have "fmdom ex |\<subseteq>| fmdom (excluded (mach n))"
  proof
    fix c assume "c |\<in>| fmdom ex"
    then show "c |\<in>| fmdom (excluded (mach n))"
      using look [rule_format, of c] by (auto simp: fmlookup_dom_iff split: if_splits)
  qed
  with b show ?thesis
    using windowed_same [of "reset_pass n" n] by (auto simp: books_def books_of_def ex)
qed

lemma books_schedule: "sched_inv n com bs t \<Longrightarrow> books n \<Longrightarrow> books t"
  using windowed_same [of t n] by (auto simp: books_def books_of_def sched_inv_def)

lemma node_inv_round:
  assumes "node_inv n" and "node_round n = Done (fx, n')"
  shows "node_inv n'"
proof (rule node_invI)
  show "machine_inv (mach n)" using assms(1) by (simp add: node_inv_def)
  show "machine_step\<^sup>*\<^sup>* (mach n) (mach n')" using assms(2) by (rule moves_node_round)
  have "books (before_schedule n)"
    using assms(1) by (simp add: before_schedule_def node_inv_def books_settled_node books_prune books_reset_pass)
  then show "books n'"
    using node_round_spec [of n] assms(2) books_schedule by (metis exec.inject prod.inject)
qed

end
