(* ===== verification/Node_Handle.thy ===== *)
theory Node_Handle
  imports Node_Inv
begin

section \<open>The event arms\<close>

text \<open>
  For each arm of \<open>handle\<close>: that it ends without a panic, that it moves the machine by actions only,
  that it keeps the books of the node, and how it accounts for open offers.
\<close>

subsection \<open>Accounting for offers\<close>

fun offer_of :: "effect \<Rightarrow> (PeerId \<times> Bin) list" where
  "offer_of (Offer p b start) = [(p, b)]"
| "offer_of e = []"

definition offers :: "effect list \<Rightarrow> (PeerId \<times> Bin) list" where
  "offers fx = concat (map offer_of fx)"

definition opened :: "discovery \<Rightarrow> effect list \<Rightarrow> discovery \<Rightarrow> bool" where
  "opened d fx d' \<longleftrightarrow> distinct (offers fx) \<and> set (offers fx) \<inter> fset (offer_open d) = {}
     \<and> fset (offer_open d') = fset (offer_open d) \<union> set (offers fx)"

lemma offers_simps [simp]: "offers [] = []" "offers (e # fx) = offer_of e @ offers fx"
  "offers (fx @ fx') = offers fx @ offers fx'"
  by (simp_all add: offers_def)

lemma opened_refl [simp]: "opened d [] d"
  by (simp add: opened_def)

lemma opened_trans: "opened d fx d1 \<Longrightarrow> opened d1 fx' d2 \<Longrightarrow> opened d (fx @ fx') d2"
  by (auto simp: opened_def)

lemma opened_none: "offers fx = [] \<Longrightarrow> opened d fx d"
  by (simp add: opened_def)

lemma offers_fetches [simp]: "offers (fetches bs) = []"
  by (auto simp: offers_def mem_fetches)

lemma mem_offers: "(p, b) \<in> set (offers fx) \<longleftrightarrow> (\<exists>start. Offer p b start \<in> set fx)"
proof (induction fx)
  case (Cons e fx)
  then show ?case by (cases e) auto
qed simp

lemma opened_for_each:
  assumes "for_each f xs n = Done (fx, t)"
    and "\<And>k s fx t. f k s = Done (fx, t) \<Longrightarrow> opened (disc s) fx (disc t)"
  shows "opened (disc n) fx (disc t)"
  using assms(1)
  by (rule for_each_rel [where R = "\<lambda>s fx t. opened (disc s) fx (disc t)"]) (auto intro: opened_trans assms(2))

lemma opened_settle_key: "settle_key k s = Done (fx, t) \<Longrightarrow> opened (disc s) fx (disc t)"
  by (auto simp: settle_key_def try_open_def opened_def Let_def case_prod_beta
      split: option.splits if_splits)

lemma opened_tick_key: "tick_key k s = Done (fx, t) \<Longrightarrow> opened (disc s) fx (disc t)"
  by (auto simp: tick_key_def try_open_def opened_def Let_def split: option.splits if_splits prod.splits)

lemma opened_take_cursor: "take_cursor p k s = Done (fx, t) \<Longrightarrow> opened (disc s) fx (disc t)"
  by (auto simp: take_cursor_def try_open_def opened_def Let_def split: if_splits prod.splits)

lemma opened_round: "node_round n = Done (fx, t) \<Longrightarrow> opened (disc n) fx (disc t)"
proof -
  assume r: "node_round n = Done (fx, t)"
  obtain com bs where fx: "fx = settle_effects n @ fetches bs"
    and s: "sched_inv (before_schedule n) com bs t"
    using node_round_spec [of n] r by (metis exec.inject prod.inject)
  have "opened (disc n) (settle_effects n) (disc (settled_node n))"
    using settle_eq [of n] unfolding settle_def settle_effects_def
    by (rule opened_for_each) (rule opened_settle_key)
  moreover have "disc t = disc (settled_node n)"
    using s reset_pass_spec [of "prune (settled_node n)"]
    by (auto simp: sched_inv_def before_schedule_def prune_eq)
  ultimately show ?thesis by (simp add: fx opened_def)
qed

subsection \<open>Losing holders\<close>

lemma fmdom_set_remove: "fmdom (snd (set_remove m c p)) |\<subseteq>| fmdom m"
  by (auto simp: set_remove_def Let_def fmdomI split: option.splits)

lemma lose_all_spec:
  "\<exists>H W. lose_all cs p m = m\<lparr>holders := H, want := W\<rparr> \<and> fmdom H |\<subseteq>| fmdom (holders m)
     \<and> (\<forall>c. get_or {||} H c = (if c \<in> set cs then holds m c |-| {|p|} else holds m c))
     \<and> (\<forall>c. get_or {||} W c = (if c \<in> set cs then claims m c |-| {|p|} else claims m c))"
proof (induction cs arbitrary: m)
  case Nil
  show ?case by (intro exI [of _ "holders m"] exI [of _ "want m"]) (simp add: lose_all_def)
next
  case (Cons c cs)
  let ?m = "snd (lose_holder c p m)"
  have m: "?m = m\<lparr>holders := snd (set_remove (holders m) c p), want := snd (set_remove (want m) c p)\<rparr>"
    by (simp add: lose_holder_def case_prod_beta Let_def)
  from Cons [of ?m] obtain H W where "lose_all cs p ?m = ?m\<lparr>holders := H, want := W\<rparr>"
    "fmdom H |\<subseteq>| fmdom (holders ?m)"
    "\<forall>d. get_or {||} H d = (if d \<in> set cs then holds ?m d |-| {|p|} else holds ?m d)"
    "\<forall>d. get_or {||} W d = (if d \<in> set cs then claims ?m d |-| {|p|} else claims ?m d)" by blast
  moreover have "lose_all (c # cs) p m = lose_all cs p ?m" by (simp add: lose_all_def)
  moreover have "fmdom (holders ?m) |\<subseteq>| fmdom (holders m)" by (simp add: m fmdom_set_remove)
  ultimately show ?case by (intro exI [of _ H] exI [of _ W]) (auto simp: m)
qed

lemma books_lose_all: "books_of B m \<Longrightarrow> books_of B (lose_all cs p m)"
  using lose_all_spec [of cs p m] by (auto simp: books_of_def)

subsection \<open>Peer departure\<close>

lemma moves_drop_peer [moves]: "machine_step\<^sup>*\<^sup>* (mach n) (mach (drop_peer p n))"
  by (auto simp: drop_peer_def Let_def intro: moves_trans moves_lose_all)

lemma books_drop_peer: "books n \<Longrightarrow> books (drop_peer p n)"
proof -
  assume b: "books n"
  have "windowed (drop_peer p n) |\<subseteq>| windowed n"
    by (rule windowed_mono) (auto simp: drop_peer_def Let_def split: if_splits intro: windowedI)
  with b show ?thesis
    by (auto simp: books_def drop_peer_def Let_def books_lose_all split: if_splits)
qed

subsection \<open>Offers\<close>

lemma fold_forget_entries:
  "fold (\<lambda>(b, _) l. snd (forget_entry b l)) lost l =
     l\<lparr>entries := fmfilter (\<lambda>b. b \<notin> fst ` set lost) (entries l)\<rparr>"
proof (induction lost arbitrary: l)
  case (Cons e lost)
  have "fmfilter (\<lambda>b. b \<notin> fst ` set lost) (fmdrop (fst e) m) = fmfilter (\<lambda>b. b \<notin> fst ` set (e # lost)) m"
    for m :: "(BinId, triple) fmap" by (rule fmap_ext) auto
  with Cons show ?case by (simp add: case_prod_beta forget_entry_def)
qed (auto intro!: peer_bin_log.equality fmap_ext)

lemma moves_open_window [moves]: "machine_step\<^sup>*\<^sup>* (mach n) (mach (open_window p b start refs t n))"
  by (simp add: open_window_def Let_def moves)

lemma log_at_inv: "books n \<Longrightarrow> log_inv (get_or PeerBinLog_new (logs n) k)"
  by (cases "fmlookup (logs n) k") (auto simp: books_def get_or_def)

lemma books_open_window: "books n \<Longrightarrow> books (open_window p b start refs t n)"
proof -
  assume bk: "books n"
  let ?l = "cover (max t start) (get_or PeerBinLog_new (logs n) (p, b))"
  have "log_inv (?l\<lparr>entries := fmfilter P (entries ?l)\<rparr>)" for P
    using log_inv_cover [OF log_at_inv [OF bk]] by (auto simp: log_inv_def)
  moreover have "windowed (open_window p b start refs t n) |\<subseteq>| windowed n"
  proof (rule windowed_mono)
    fix k l x c
    assume "fmlookup (logs (open_window p b start refs t n)) k = Some l" "fmlookup (entries l) x = Some c"
    then have "fmlookup (entries (get_or PeerBinLog_new (logs n) k)) x = Some c
        \<or> (fmlookup (logs n) k = Some l \<and> fmlookup (entries l) x = Some c)"
      by (auto simp: open_window_def Let_def fold_forget_entries split: if_splits)
    then show "c |\<in>| windowed n"
      by (auto simp: get_or_def PeerBinLog_new_def split: option.splits intro: windowedI)
  qed
  ultimately show ?thesis
    using bk by (auto simp: books_def open_window_def Let_def fold_forget_entries books_lose_all
        split: if_splits)
qed

definition ingested :: "PeerId \<Rightarrow> Bin \<Rightarrow> BinId \<Rightarrow> (BinId \<times> triple) list \<Rightarrow> node \<Rightarrow> (effect list \<times> node) exec" where
  "ingested p b cur refs n = for_each (ingest p b cur) refs n"

lemma ingest_step:
  assumes "ingest p b cur e s = Done (fx, t)"
  shows "fx = [] \<and> disc t = disc s \<and> peers t = peers s \<and> machine_step\<^sup>*\<^sup>* (mach s) (mach t)
    \<and> (books s \<longrightarrow> books t)"
proof -
  obtain x c where e: "e = (x, c)" by (cases e)
  with assms obtain l where l: "fmlookup (logs s) (p, b) = Some l"
    by (auto simp: ingest_def split: option.splits)
  let ?m1 = "set_prio c b (snd (observe_holder c p (mach s)))"
  let ?m2 = "snd (if cur < x then arrive_live c ?m1 else arrive_hist c ?m1)"
  have t: "t = s\<lparr>logs := fmupd (p, b) (observe x c l) (logs s), bin_of := fmupd c b (bin_of s), mach := ?m2\<rparr>"
    and fx: "fx = []"
    using assms e l by (simp_all add: ingest_def Let_def)
  have "machine_step\<^sup>*\<^sup>* (mach s) ?m1" by (rule moves_trans [OF machine_moves(1) machine_moves(11)])
  moreover have "machine_step\<^sup>*\<^sup>* ?m1 ?m2" by (auto intro: moves)
  ultimately have "machine_step\<^sup>*\<^sup>* (mach s) ?m2" by (rule moves_trans)
  then have m: "machine_step\<^sup>*\<^sup>* (mach s) (mach t)" by (simp add: t)
  have "books t" if bk: "books s"
  proof -
    have "books_of (bin_of t) (mach t)"
      using bk by (auto simp: t books_def books_of_def set_prio_def observe_holder_def arrive_live_def
          arrive_hist_def split: if_splits)
    moreover have "windowed t |\<subseteq>| finsert c (windowed s)"
    proof
      fix d assume "d |\<in>| windowed t"
      then obtain k l' y where "fmlookup (logs t) k = Some l'" "fmlookup (entries l') y = Some d"
        by (auto simp: mem_windowed)
      then show "d |\<in>| finsert c (windowed s)"
        using l by (auto simp: t entries_observe split: if_splits intro: windowedI)
    qed
    moreover have "windowed s |\<subseteq>| fmdom (bin_of s)" using bk by (simp add: books_def)
    moreover have "log_inv (observe x c l)" using bk l by (auto simp: books_def intro: log_inv_observe)
    ultimately show ?thesis using bk by (auto simp: books_def t split: if_splits)
  qed
  with m fx show ?thesis by (simp add: t)
qed

definition ingest_rel :: "node \<Rightarrow> effect list \<Rightarrow> node \<Rightarrow> bool" where
  "ingest_rel s fx t \<longleftrightarrow> fx = [] \<and> disc t = disc s \<and> peers t = peers s
     \<and> machine_step\<^sup>*\<^sup>* (mach s) (mach t) \<and> (books s \<longrightarrow> books t)"

lemma ingested_done:
  assumes "ingested p b cur refs n = Done (fx, t)"
  shows "ingest_rel n fx t"
  using assms unfolding ingested_def
proof (rule for_each_rel)
  show "ingest_rel s [] s" for s by (simp add: ingest_rel_def)
  fix s t u :: node and fx fx' assume "ingest_rel s fx t" "ingest_rel t fx' u"
  then show "ingest_rel s (fx @ fx') u"
    unfolding ingest_rel_def using moves_trans [of "mach s" "mach t" "mach u"] by simp
next
  fix k s fx t assume "ingest p b cur k s = Done (fx, t)"
  from ingest_step [OF this] show "ingest_rel s fx t" by (simp add: ingest_rel_def)
qed

text \<open>What ingestion does to the log of the offer, and that the log is always there.\<close>

definition observe_all :: "(BinId \<times> triple) list \<Rightarrow> peer_bin_log \<Rightarrow> peer_bin_log" where
  "observe_all refs l = fold (\<lambda>(b, c). observe b c) refs l"

lemma ingested_total:
  assumes "fmlookup (logs n) (p, b) = Some l"
  shows "\<exists>t. ingested p b cur refs n = Done ([], t)
    \<and> (\<forall>k. fmlookup (logs t) k = (if k = (p, b) then Some (observe_all refs l) else fmlookup (logs n) k))"
  using assms
proof (induction refs arbitrary: n l)
  case Nil
  then show ?case by (simp add: ingested_def observe_all_def)
next
  case (Cons e refs)
  obtain x c where e: "e = (x, c)" by (cases e)
  with Cons.prems obtain s where s: "ingest p b cur e n = Done ([], s)"
    "logs s = fmupd (p, b) (observe x c l) (logs n)"
    by (simp add: ingest_def Let_def)
  with Cons.IH [of s "observe x c l"] e show ?case
    by (auto simp: ingested_def observe_all_def)
qed

subsection \<open>Outcomes\<close>

lemma outcomes_safe:
  assumes "machine_inv m" and "books_of B m"
  shows "machine_inv (fold (apply_outcome p) os m) \<and> books_of B (fold (apply_outcome p) os m)"
proof (rule fold_keeps [where P = "\<lambda>m. machine_inv m \<and> books_of B m"])
  fix o1 s assume s: "machine_inv s \<and> books_of B s"
  then have "machine_inv (apply_outcome p o1 s)"
    using machine.inv_steps [OF moves_apply_outcome] by blast
  moreover have "books_of B (apply_outcome p o1 s)"
  proof (cases "(p, o1, s)" rule: apply_outcome.cases)
    case (3 p' c m')
    have "c |\<in>| fmdom B" if "p |\<in>| claims s c"
      using s that by (auto simp: machine_inv_def books_of_def)
    then show ?thesis using 3 s by (auto simp: stall_def Let_def books_of_def)
  qed (use s in \<open>auto simp: deliver_def reject_def books_of_def\<close>)
  ultimately show "machine_inv (apply_outcome p o1 s) \<and> books_of B (apply_outcome p o1 s)" by simp
qed (use assms in simp)

subsection \<open>Cursors and ticks\<close>

lemma take_cursors_done:
  assumes "for_each (take_cursor p) cs n = Done (fx, t)"
  shows "mach t = mach n \<and> bin_of t = bin_of n \<and> peers t = peers n
    \<and> (\<forall>e \<in> set fx. \<exists>b start. e = Offer p b start)"
  using assms
  by (rule for_each_rel [where R = "\<lambda>s fx t. mach t = mach s \<and> bin_of t = bin_of s \<and> peers t = peers s
        \<and> (\<forall>e \<in> set fx. \<exists>b start. e = Offer p b start)"])
     (auto simp: take_cursor_def Let_def split: if_splits prod.splits)

lemma take_cursors_total: "\<exists>fx t. for_each (take_cursor p) cs n = Done (fx, t)"
  using for_each_rule [where P = "\<lambda>_ _ _. True" and f = "take_cursor p" and xs = cs]
  by (auto simp: take_cursor_def Let_def split: prod.splits)

lemma tick_key_step:
  assumes "tick_key k s = Done (fx, t)"
  shows "t = s\<lparr>disc := disc t\<rparr> \<and> (\<forall>e \<in> set fx. \<exists>p b start. e = Offer p b start \<and> p |\<in>| peers s)"
  using assms by (auto simp: tick_key_def Let_def split: if_splits prod.splits option.splits)

lemma ticks_done:
  assumes "for_each tick_key ks n = Done (fx, t)"
  shows "t = n\<lparr>disc := disc t\<rparr> \<and> (\<forall>e \<in> set fx. \<exists>p b start. e = Offer p b start \<and> p |\<in>| peers n)"
  using assms
proof (rule for_each_rel [where R = "\<lambda>s fx t. t = s\<lparr>disc := disc t\<rparr> \<and>
    (\<forall>e \<in> set fx. \<exists>p b start. e = Offer p b start \<and> p |\<in>| peers s)"], goal_cases)
  case (2 s t u fx fx')
  then obtain d d' where "t = s\<lparr>disc := d\<rparr>" "u = t\<lparr>disc := d'\<rparr>" by blast
  with 2 show ?case by auto
next
  case (3 k s fx t)
  then show ?case by (blast dest: tick_key_step)
qed simp

lemma ticks_total:
  assumes "\<forall>k \<in> set ks. k |\<in>| fmdom (logs n)"
  shows "\<exists>fx t. for_each tick_key ks n = Done (fx, t)"
proof -
  have "\<exists>fx t. for_each tick_key ks n = Done (fx, t) \<and> logs t = logs n"
  proof (rule for_each_rule [where P = "\<lambda>_ _ t. logs t = logs n"])
    fix ks1 k rest and fx :: "effect list" and t :: node
    assume "ks = ks1 @ k # rest" "logs t = logs n"
    then have "k |\<in>| fmdom (logs t)" using assms by simp
    then obtain l where "fmlookup (logs t) k = Some l" by (auto simp: fmlookup_dom_iff)
    with \<open>logs t = logs n\<close> show "\<exists>fx' t'. tick_key k t = Done (fx', t') \<and> logs t' = logs n"
      by (cases k) (auto simp: tick_key_def Let_def split: prod.splits)
  qed simp
  then show ?thesis by blast
qed

subsection \<open>The handler\<close>

text \<open>The node a round starts from, for the events that run one.\<close>

definition offered :: "PeerId \<Rightarrow> Bin \<Rightarrow> BinId \<Rightarrow> (BinId \<times> triple) list \<Rightarrow> BinId \<Rightarrow> node \<Rightarrow> (effect list \<times> node) exec" where
  "offered p b start refs t n =
     ingested p b (get_or 0 (cursors n) (p, b)) refs (open_window p b start refs t n)"

lemma handle_offer: "handle (OfferResult p b start refs t) n =
  bind_exec (offered p b start refs t n) (\<lambda>(_, n'). node_round n')"
  by (simp add: offered_def ingested_def)

definition offer_log :: "PeerId \<Rightarrow> Bin \<Rightarrow> BinId \<Rightarrow> (BinId \<times> triple) list \<Rightarrow> BinId \<Rightarrow> node \<Rightarrow> peer_bin_log" where
  "offer_log p b start refs t n =
     (let l = cover (max t start) (get_or PeerBinLog_new (logs n) (p, b))
      in observe_all refs (l\<lparr>entries :=
           fmfilter (\<lambda>x. x \<notin> fst ` set (churned_out start t refs l)) (entries l)\<rparr>))"

lemma offered_total:
  "\<exists>s. offered p b start refs t n = Done ([], s)
     \<and> logs s = fmupd (p, b) (offer_log p b start refs t n) (logs n)"
proof -
  let ?n = "open_window p b start refs t n"
  let ?l = "cover (max t start) (get_or PeerBinLog_new (logs n) (p, b))"
  let ?l' = "?l\<lparr>entries := fmfilter (\<lambda>x. x \<notin> fst ` set (churned_out start t refs ?l)) (entries ?l)\<rparr>"
  have n: "logs ?n = fmupd (p, b) ?l' (logs n)"
    by (simp add: open_window_def Let_def fold_forget_entries)
  then have "fmlookup (logs ?n) (p, b) = Some ?l'" by simp
  from ingested_total [OF this, of "get_or 0 (cursors n) (p, b)" refs] obtain s
    where s: "offered p b start refs t n = Done ([], s)"
      and look: "\<And>k. fmlookup (logs s) k = (if k = (p, b) then Some (observe_all refs ?l') else fmlookup (logs ?n) k)"
    unfolding offered_def by blast
  have "logs s = fmupd (p, b) (offer_log p b start refs t n) (logs n)"
    by (rule fmap_ext) (simp add: look n offer_log_def Let_def)
  with s show ?thesis by blast
qed

lemma handle_offerE:
  assumes "handle (OfferResult p b start refs t) n = Done (fx, n')"
  obtains s where "offered p b start refs t n = Done ([], s)" "node_round s = Done (fx, n')"
    "logs s = fmupd (p, b) (offer_log p b start refs t n) (logs n)"
proof -
  obtain s where s: "offered p b start refs t n = Done ([], s)"
    "logs s = fmupd (p, b) (offer_log p b start refs t n) (logs n)"
    using offered_total by blast
  moreover have "node_round s = Done (fx, n')" using assms s unfolding handle_offer by simp
  ultimately show thesis using that by blast
qed

lemma node_round_total: "\<exists>fx n'. node_round n = Done (fx, n')"
  using node_round_spec [of n] by blast

lemma handle_done: "\<exists>fx n'. handle ev n = Done (fx, n')"
proof (cases ev)
  case (OfferResult p b start refs t)
  obtain s where "offered p b start refs t n = Done ([], s)" using offered_total by blast
  then have "handle ev n = node_round s" unfolding OfferResult handle_offer by simp
  then show ?thesis by (simp add: node_round_total)
next
  case (CursorsResult p cs)
  then show ?thesis by (simp add: take_cursors_total)
next
  case Tick
  then show ?thesis by (simp add: ticks_total)
qed (simp_all add: node_round_total peer_seen_def)

lemma offered_rel:
  "offered p b start refs t n = Done (fx, s) \<Longrightarrow> ingest_rel (open_window p b start refs t n) fx s"
  unfolding offered_def by (rule ingested_done)

lemma moves_offered: "offered p b start refs t n = Done (fx, s) \<Longrightarrow> machine_step\<^sup>*\<^sup>* (mach n) (mach s)"
  using moves_trans [OF moves_open_window [of n p b start refs t]] offered_rel [of p b start refs t n fx s]
  by (simp add: ingest_rel_def)

lemma books_offered: "offered p b start refs t n = Done (fx, s) \<Longrightarrow> books n \<Longrightarrow> books s"
  using offered_rel [of p b start refs t n fx s] books_open_window by (simp add: ingest_rel_def)

lemma moves_handle:
  assumes "handle ev n = Done (fx, n')"
  shows "machine_step\<^sup>*\<^sup>* (mach n) (mach n')"
proof (cases ev)
  case (OfferResult p b start refs t)
  with assms obtain s where s: "offered p b start refs t n = Done ([], s)" "node_round s = Done (fx, n')"
    by (blast elim: handle_offerE)
  from moves_trans [OF moves_offered [OF s(1)] moves_node_round [OF s(2)]] show ?thesis .
next
  case (PeerGone p)
  with assms have "node_round (drop_peer p n) = Done (fx, n')" by simp
  from moves_trans [OF moves_drop_peer moves_node_round [OF this]] show ?thesis .
next
  case (FetchResult p b os)
  with assms have "node_round (n\<lparr>mach := fold (apply_outcome p) os (mach n)\<rparr>) = Done (fx, n')" by simp
  from moves_node_round [OF this] show ?thesis by (auto intro: moves_trans [OF moves_outcomes])
next
  case (CursorsResult p cs)
  with assms have "for_each (take_cursor p) cs n = Done (fx, n')" by simp
  from take_cursors_done [OF this] show ?thesis by simp
next
  case Tick
  with assms have "for_each tick_key (sorted_list_of_fset (fmdom (logs n))) n = Done (fx, n')" by simp
  from ticks_done [OF this] obtain d where "n' = n\<lparr>disc := d\<rparr>" by blast
  then show ?thesis by simp
next
  case (PeerSeen p)
  with assms show ?thesis by (auto simp: peer_seen_def split: if_splits)
qed

subsection \<open>What a round leaves alone\<close>

lemma before_schedule_eq:
  "\<exists>m. before_schedule n = (settled_node n)\<lparr>mach := m, bin_of :=
       fmfilter (\<lambda>c. c \<notin> set (pruned (settled_node n))) (bin_of n)\<rparr>
     \<and> got m = got (mach n) \<and> rejected m = rejected (mach n) \<and> want m = want (mach n)
     \<and> cfg m = cfg (mach n)
     \<and> (\<forall>c. holds m c |\<subseteq>| holds (mach n) c \<and> bars m c |\<subseteq>| bars (mach n) c)"
proof -
  let ?p = "prune (settled_node n)"
  obtain ex where "reset_pass ?p = ?p\<lparr>mach := (mach ?p)\<lparr>excluded := ex\<rparr>\<rparr>"
    and ex: "\<forall>c. fmlookup ex c = (if c |\<in>| fmdom (bin_of ?p) \<and> can_reset_excluded (mach ?p) c then None
            else fmlookup (excluded (mach ?p)) c)"
    using reset_pass_spec by blast
  then have eq: "before_schedule n = ?p\<lparr>mach := (mach ?p)\<lparr>excluded := ex\<rparr>\<rparr>" by (simp add: before_schedule_def)
  have "get_or {||} ex c |\<subseteq>| bars (mach ?p) c" for c
    using ex [rule_format, of c] by (auto simp: get_or_def split: if_splits)
  moreover have "bars (mach ?p) c |\<subseteq>| bars (mach n) c" "holds (mach ?p) c |\<subseteq>| holds (mach n) c" for c
    by (auto simp: prune_eq forgotten_def settled_node_def get_or_def split: option.splits if_splits)
  ultimately show ?thesis
    by (intro exI [of _ "(mach ?p)\<lparr>excluded := ex\<rparr>"])
       (auto simp: eq prune_eq forgotten_def settled_node_def)
qed

lemma round_effects:
  assumes "node_round n = Done (fx, n')"
  shows "\<exists>com bs. fx = settle_effects n @ fetches bs \<and> sched_inv (before_schedule n) com bs n'
    \<and> budgeted n' com = []"
  using node_round_spec [of n] assms by (metis exec.inject prod.inject)

lemma round_frame:
  assumes "node_round n = Done (fx, n')"
  shows "logs n' = fmmap (settled_log n) (logs n) \<and> peers n' = peers n \<and> cursors n' = cursors n
    \<and> policy n' = policy n \<and> got (mach n') = got (mach n) \<and> rejected (mach n') = rejected (mach n)
    \<and> cfg (mach n') = cfg (mach n)
    \<and> bin_of n' = fmfilter (\<lambda>c. c \<notin> set (pruned (settled_node n))) (bin_of n)
    \<and> (\<forall>c. holds (mach n') c |\<subseteq>| holds (mach n) c \<and> bars (mach n') c |\<subseteq>| bars (mach n) c)"
proof -
  obtain com bs where s: "sched_inv (before_schedule n) com bs n'"
    using round_effects [OF assms] by blast
  then obtain w a where "n' = (before_schedule n)\<lparr>mach := (mach (before_schedule n))\<lparr>want := w\<rparr>, assigned := a\<rparr>"
    unfolding sched_inv_def by blast
  moreover obtain m where "before_schedule n = (settled_node n)\<lparr>mach := m, bin_of :=
       fmfilter (\<lambda>c. c \<notin> set (pruned (settled_node n))) (bin_of n)\<rparr>"
     "got m = got (mach n)" "rejected m = rejected (mach n)" "cfg m = cfg (mach n)"
     "\<forall>c. holds m c |\<subseteq>| holds (mach n) c \<and> bars m c |\<subseteq>| bars (mach n) c"
    using before_schedule_eq [of n] by blast
  ultimately show ?thesis by (simp add: settled_node_def)
qed

lemma finished_round: "node_round n = Done (fx, n') \<Longrightarrow> finished n' c = finished n c"
  using round_frame [of n fx n'] by (simp add: has_def is_rejected_def)

lemma Settled_round:
  assumes "node_round n = Done (fx, n')"
  shows "Settled p b u \<in> set fx \<longleftrightarrow>
    (\<exists>l. fmlookup (logs n) (p, b) = Some l \<and> fst (advance (finished n) l) = Some u)"
proof -
  have "Settled p b u \<in> set (settle_fx n k) \<longleftrightarrow> k = (p, b) \<and>
      (\<exists>l. fmlookup (logs n) (p, b) = Some l \<and> fst (advance (finished n) l) = Some u)" for k
    by (cases k; cases "fmlookup (logs n) k") (force simp: settle_fx_def split: option.splits)+
  then show ?thesis
    using round_effects [OF assms] by (auto simp: mem_settle_effects mem_fetches fmdomI)
qed

lemma Offer_round:
  assumes "node_round n = Done (fx, n')"
  shows "Offer p b start \<in> set fx \<longleftrightarrow>
    (\<exists>l. fmlookup (logs n) (p, b) = Some l \<and> has_tail n (p, b) \<and> (p, b) |\<notin>| offer_open (disc n)
       \<and> start = next_start (settled_log n l))"
proof -
  have "Offer p b start \<in> set (settle_fx n k) \<longleftrightarrow> k = (p, b) \<and>
      (\<exists>l. fmlookup (logs n) (p, b) = Some l \<and> has_tail n (p, b) \<and> (p, b) |\<notin>| offer_open (disc n)
       \<and> start = next_start (settled_log n l))" for k
    by (cases k; cases "fmlookup (logs n) k") (force simp: settle_fx_def split: option.splits)+
  then show ?thesis
    using round_effects [OF assms] by (auto simp: mem_settle_effects mem_fetches fmdomI)
qed

lemma got_moves: "machine_step\<^sup>*\<^sup>* s t \<Longrightarrow> got s |\<subseteq>| got t \<and> rejected s |\<subseteq>| rejected t \<and> cfg t = cfg s"
proof (induction rule: rtranclp_induct)
  case (step t u)
  from step.hyps(2) obtain a where "u = do_action a t" by (auto elim: machine_stepE)
  with got_do_action [of t a] rejected_do_action [of t a] step.IH show ?case by auto
qed simp

lemma finished_moves: "machine_step\<^sup>*\<^sup>* (mach s) (mach t) \<Longrightarrow> finished s c \<Longrightarrow> finished t c"
  using got_moves [of "mach s" "mach t"] by (auto simp: has_def is_rejected_def)

subsection \<open>Where the round starts\<close>

text \<open>The node an event hands to the round; the other events answer at once.\<close>

fun round_from :: "event \<Rightarrow> node \<Rightarrow> node \<Rightarrow> bool" where
  "round_from (PeerGone p) n s = (s = drop_peer p n)"
| "round_from (OfferResult p b start refs t) n s = (offered p b start refs t n = Done ([], s))"
| "round_from (FetchResult p b os) n s = (s = n\<lparr>mach := fold (apply_outcome p) os (mach n)\<rparr>)"
| "round_from ev n s = False"

lemma logs_cursors:
  assumes "for_each (take_cursor p) cs n = Done (fx, t)"
  shows "(\<forall>k l. fmlookup (logs n) k = Some l \<longrightarrow> fmlookup (logs t) k = Some l)
    \<and> (\<forall>k l. fmlookup (logs t) k = Some l \<longrightarrow> l = get_or PeerBinLog_new (logs n) k)"
  using assms
proof (rule for_each_rel, goal_cases)
  case (2 s t u fx fx')
  then show ?case unfolding get_or_def by (metis option.case_eq_if option.collapse option.sel)
next
  case (3 k s fx t)
  then show ?case
    by (auto simp: take_cursor_def Let_def get_or_def split: if_splits prod.splits option.splits)
qed (simp add: get_or_def)

text \<open>
  A handled event either runs one round from the node above, or answers without touching the machine
  or any interval.
\<close>

lemma handle_cases:
  assumes "handle ev n = Done (fx, n')"
  obtains (round) s where "round_from ev n s" "node_round s = Done (fx, n')"
    | (direct) "mach n' = mach n" "\<forall>p b u. Settled p b u \<notin> set fx" "\<forall>p b ws. Fetch p b ws \<notin> set fx"
      "\<And>k l. fmlookup (logs n) k = Some l \<Longrightarrow> fmlookup (logs n') k = Some l"
      "\<And>k l. fmlookup (logs n') k = Some l \<Longrightarrow> l = get_or PeerBinLog_new (logs n) k"
      "\<forall>s. \<not> round_from ev n s" "bin_of n' = bin_of n"
proof (cases ev)
  case (OfferResult p b start refs t)
  from assms [unfolded OfferResult] obtain s
    where "offered p b start refs t n = Done ([], s)" "node_round s = Done (fx, n')"
    by (rule handle_offerE)
  with OfferResult show thesis by (auto intro: round)
next
  case (CursorsResult p cs)
  with assms have c: "for_each (take_cursor p) cs n = Done (fx, n')" by simp
  show thesis
    by (rule direct) (use take_cursors_done [OF c] logs_cursors [OF c] CursorsResult in auto)
next
  case Tick
  with assms have t: "for_each tick_key (sorted_list_of_fset (fmdom (logs n))) n = Done (fx, n')" by simp
  from ticks_done [OF t] obtain d where n': "n' = n\<lparr>disc := d\<rparr>" by blast
  show thesis by (rule direct) (use ticks_done [OF t] n' Tick in auto)
next
  case (PeerSeen p)
  show thesis
    by (rule direct) (use assms PeerSeen in \<open>auto simp: peer_seen_def split: if_splits\<close>)
qed (use assms in \<open>auto intro: round\<close>)

lemma observe_all_simps [simp]:
  "observe_all [] l = l" "observe_all ((x, c) # refs) l = observe_all refs (observe x c l)"
  by (simp_all add: observe_all_def)

lemma interval_observe_all [simp]: "interval (observe_all refs l) = interval l"
  by (induction refs arbitrary: l) auto

lemma topmost_observe_all: "topmost l \<le> topmost (observe_all refs l)"
proof (induction refs arbitrary: l)
  case (Cons e refs)
  obtain x c where e: "e = (x, c)" by (cases e)
  have "topmost l \<le> topmost (observe x c l)" by simp
  also have "\<dots> \<le> topmost (observe_all refs (observe x c l))" by (rule Cons.IH)
  finally show ?case by (simp add: e)
qed simp

lemma log_inv_observe_all [inv_intros]: "log_inv l \<Longrightarrow> log_inv (observe_all refs l)"
  by (induction refs arbitrary: l) (auto simp: inv_intros)

lemma entry_observe_all:
  assumes "fmlookup (entries l) x = Some c" and "\<forall>c'. (x, c') \<in> set refs \<longrightarrow> c' = c"
  shows "fmlookup (entries (observe_all refs l)) x = Some c"
  using assms by (induction refs arbitrary: l) (auto simp: entries_observe)

lemma offered_logs:
  "offered p b start refs t n = Done ([], s) \<Longrightarrow> logs s = fmupd (p, b) (offer_log p b start refs t n) (logs n)"
  using offered_total [of p b start refs t n] by auto

lemma interval_offer_log [simp]:
  "interval (offer_log p b start refs t n) = interval (get_or PeerBinLog_new (logs n) (p, b))"
  by (simp add: offer_log_def Let_def)

lemma topmost_offer_log: "start \<le> topmost (offer_log p b start refs t n)"
  unfolding offer_log_def Let_def by (rule order_trans [OF _ topmost_observe_all]) (simp add: max.coboundedI2)

lemma round_from_interval:
  assumes "round_from ev n s" and "fmlookup (logs s) k = Some l"
  shows "interval l = interval (get_or PeerBinLog_new (logs n) k)"
proof (cases ev)
  case (OfferResult p b start refs t)
  with assms(1) have "logs s = fmupd (p, b) (offer_log p b start refs t n) (logs n)"
    by (simp add: offered_logs)
  with assms(2) show ?thesis by (auto split: if_splits)
qed (use assms in \<open>auto simp: drop_peer_def Let_def split: if_splits\<close>)

text \<open>
  The two ways an offered position loses its id: the peer's new offer covers it and does not name it,
  or names another id there.
\<close>

fun withdraws :: "PeerId \<Rightarrow> Bin \<Rightarrow> BinId \<Rightarrow> triple \<Rightarrow> event \<Rightarrow> bool" where
  "withdraws p b x c (OfferResult p' b' start refs t) =
     (p' = p \<and> b' = b \<and>
        (start \<le> x \<and> x \<le> t \<and> x \<notin> fst ` set refs \<or> (\<exists>(y, c') \<in> set refs. y = x \<and> c' \<noteq> c)))"
| "withdraws p b x c ev = False"

lemma entry_offer_log:
  assumes "fmlookup (logs n) (p, b) = Some l" and "fmlookup (entries l) x = Some c"
    and "\<not> withdraws p b x c (OfferResult p b start refs t)"
  shows "fmlookup (entries (offer_log p b start refs t n)) x = Some c"
proof -
  have "x \<notin> fst ` set (churned_out start t refs (cover (max t start) l))"
    using assms(3) by (force simp: churned_out_def)
  with assms show ?thesis
    unfolding offer_log_def Let_def by (intro entry_observe_all) auto
qed

lemma round_from_entry:
  assumes "round_from ev n s" and l: "fmlookup (logs n) (p, b) = Some l" "fmlookup (entries l) x = Some c"
    and "\<not> withdraws p b x c ev" and "ev \<noteq> PeerGone p"
  shows "\<exists>l'. fmlookup (logs s) (p, b) = Some l' \<and> fmlookup (entries l') x = Some c"
proof (cases ev)
  case (OfferResult p' b' start refs t)
  with assms(1) have "logs s = fmupd (p', b') (offer_log p' b' start refs t n) (logs n)"
    by (simp add: offered_logs)
  with assms OfferResult entry_offer_log [OF l, of start refs t] show ?thesis
    by (cases "(p', b') = (p, b)") auto
qed (use assms in \<open>auto simp: drop_peer_def Let_def\<close>)

lemma books_round_from:
  assumes "node_inv n" and "round_from ev n s"
  shows "node_inv s"
proof (cases ev)
  case (OfferResult p b start refs t)
  with assms have s: "offered p b start refs t n = Done ([], s)" by simp
  show ?thesis
    using assms(1) books_offered [OF s] node_invI [OF _ moves_offered [OF s]] by (simp add: node_inv_def)
next
  case (PeerGone p)
  with assms show ?thesis
    using books_drop_peer node_invI [OF _ moves_drop_peer] by (simp add: node_inv_def)
next
  case (FetchResult p b os)
  with assms show ?thesis
    using outcomes_safe [of "mach n" "bin_of n" p os] windowed_same [of s n]
    by (auto simp: node_inv_def books_def)
qed (use assms in auto)

lemma node_inv_handle:
  assumes "node_inv n" and "handle ev n = Done (fx, n')"
  shows "node_inv n'"
  using assms(2)
proof (cases rule: handle_cases)
  case (round s)
  with assms(1) show ?thesis by (blast intro: books_round_from node_inv_round)
next
  case direct
  have "windowed n' |\<subseteq>| windowed n"
  proof (rule windowed_mono)
    fix k l b c assume "fmlookup (logs n') k = Some l" "fmlookup (entries l) b = Some c"
    then show "c |\<in>| windowed n"
      using direct(5) [of k l]
      by (auto simp: get_or_def PeerBinLog_new_def split: option.splits intro: windowedI)
  qed
  moreover have "log_inv l" if "fmlookup (logs n') k = Some l" for k l
    using direct(5) [OF that] log_at_inv assms(1) by (simp add: node_inv_def)
  ultimately show ?thesis
    using assms(1) direct(1,7) by (auto simp: node_inv_def books_def)
qed

text \<open>What an event closes before anything new is opened.\<close>

fun answered :: "event \<Rightarrow> discovery \<Rightarrow> discovery" where
  "answered (PeerGone p) d = forget_peer p d"
| "answered (OfferResult p b start refs t) d = close p b d"
| "answered ev d = d"

lemma opened_handle:
  assumes "handle ev n = Done (fx, n')"
  shows "opened (answered ev (disc n)) fx (disc n')"
proof (cases ev)
  case (OfferResult p b start refs t)
  with assms obtain s where s: "offered p b start refs t n = Done ([], s)" "node_round s = Done (fx, n')"
    by (blast elim: handle_offerE)
  have "disc s = close p b (disc n)"
    using offered_rel [OF s(1)] by (simp add: ingest_rel_def open_window_def Let_def)
  with opened_round [OF s(2)] OfferResult show ?thesis by simp
next
  case (PeerGone p)
  then show ?thesis using assms opened_round [of "drop_peer p n" fx n']
    by (simp add: drop_peer_def Let_def)
next
  case (FetchResult p b os)
  then show ?thesis using assms opened_round [of "n\<lparr>mach := fold (apply_outcome p) os (mach n)\<rparr>" fx n']
    by simp
next
  case (CursorsResult p cs)
  with assms have "for_each (take_cursor p) cs n = Done (fx, n')" by simp
  from opened_for_each [OF this opened_take_cursor] CursorsResult show ?thesis by simp
next
  case Tick
  with assms have "for_each tick_key (sorted_list_of_fset (fmdom (logs n))) n = Done (fx, n')" by simp
  from opened_for_each [OF this opened_tick_key] Tick show ?thesis by simp
next
  case (PeerSeen p)
  with assms show ?thesis by (auto simp: peer_seen_def opened_none split: if_splits)
qed

subsection \<open>Runs of the node\<close>

text \<open>
  A node starts with a choice of configuration and policy and with the ids its store already holds.
  Its runs refine those of the machine: \<open>simulation\<close> gives the invariant and the refinement.
\<close>

definition preload_all :: "triple list \<Rightarrow> node \<Rightarrow> node" where
  "preload_all cs n = fold (\<lambda>c n. snd (Node_preload c n)) cs n"

definition node_start :: "node \<Rightarrow> bool" where
  "node_start n \<longleftrightarrow> (\<exists>k r pol cs. dedup k \<and> n = preload_all cs (with_policy k r pol))"

inductive node_step :: "node \<Rightarrow> node \<Rightarrow> bool" where
  "handle ev n = Done (fx, n') \<Longrightarrow> node_step n n'"

inductive_cases node_stepE: "node_step n n'"

definition machine_reach :: "'c pull_state \<Rightarrow> bool" where
  "machine_reach m \<longleftrightarrow> (\<exists>k. dedup k \<and> machine_step\<^sup>*\<^sup>* (PullState_new k) m)"

lemma preload_all_start:
  assumes "machine_step\<^sup>*\<^sup>* m0 (mach n)" "node_inv n" "want (mach n) = fmempty"
  shows "machine_step\<^sup>*\<^sup>* m0 (mach (preload_all cs n)) \<and> node_inv (preload_all cs n)"
  using assms
proof (induction cs arbitrary: n)
  case (Cons c cs)
  let ?n = "snd (Node_preload c n)"
  have n: "?n = n\<lparr>mach := snd (preload c (mach n))\<rparr>"
    by (simp add: Node_preload_def case_prod_beta Let_def)
  have "machine_step (mach n) (do_action (Preload c) (mach n))"
    using Cons.prems(3) by (intro machine_step.act) (simp add: contains_key_def)
  then have step: "machine_step (mach n) (mach ?n)" by (simp add: n)
  then have "machine_step\<^sup>*\<^sup>* m0 (mach ?n)" using Cons.prems(1) by simp
  moreover have "books ?n"
    using Cons.prems(2) windowed_same [of ?n n]
    by (auto simp: node_inv_def books_def books_of_def n preload_def)
  then have "node_inv ?n"
    using Cons.prems(2) step by (auto simp: node_inv_def intro: machine_inv_step)
  moreover have "want (mach ?n) = fmempty" using Cons.prems(3) by (simp add: n preload_def)
  ultimately show ?case using Cons.IH [of ?n] by (simp add: preload_all_def)
qed (simp add: preload_all_def)

lemma node_start_reach: "node_start n \<Longrightarrow> machine_reach (mach n) \<and> node_inv n"
proof -
  assume "node_start n"
  then obtain k r pol cs where k: "dedup k" and n: "n = preload_all cs (with_policy k r pol)"
    by (auto simp: node_start_def)
  have "windowed (with_policy k r pol) = {||}"
    by (auto simp: mem_windowed with_policy_def)
  then have "node_inv (with_policy k r pol)"
    using k by (simp add: node_inv_def books_def books_of_def with_policy_def) (simp add: PullState_new_def)
  moreover have "mach (with_policy k r pol) = PullState_new k" by (simp add: with_policy_def)
  moreover have "want (PullState_new k :: triple pull_state) = fmempty" by (simp add: PullState_new_def)
  ultimately show ?thesis
    using preload_all_start [of "PullState_new k" "with_policy k r pol" cs] k n
    by (auto simp: machine_reach_def)
qed

interpretation node: simulation node_start node_step node_inv machine_reach "machine_step\<^sup>*\<^sup>*" mach
proof unfold_locales
  show "node_inv n" "machine_reach (mach n)" if "node_start n" for n
    using node_start_reach [OF that] by auto
  show "node_inv n'" if "node_inv n" "node_step n n'" for n n'
    using that by (auto elim: node_stepE intro: node_inv_handle)
  show "machine_step\<^sup>*\<^sup>* (mach n) (mach n') \<or> mach n = mach n'" if "node_inv n" "node_step n n'" for n n'
    using that by (auto elim: node_stepE intro: moves_handle)
qed

lemma run_total: "\<exists>fx n'. for_each handle evs n = Done (fx, n')"
proof -
  have "\<exists>fx n'. for_each handle evs n = Done (fx, n') \<and> True"
    using handle_done by (intro for_each_rule) auto
  then show ?thesis by simp
qed

lemma run_steps: "for_each handle evs n = Done (fx, n') \<Longrightarrow> node_step\<^sup>*\<^sup>* n n'"
  by (erule for_each_rel) (auto intro: rtranclp_trans node_step.intros)

subsection \<open>A node to evaluate\<close>

text \<open>The result of one event; the handler is total, so this is what it returns.\<close>

definition result :: "event \<Rightarrow> node \<Rightarrow> effect list \<times> node" where
  "result ev n = (case handle ev n of Done r \<Rightarrow> r | Panic \<Rightarrow> ([], n))"

lemma handle_result: "handle ev n = Done (fst (result ev n), snd (result ev n))"
  using handle_done [of ev n] by (auto simp: result_def)

definition sample_node :: node where
  "sample_node = snd (result (OfferResult 1 9 1 [(1, mock 4), (3, mock 5)] 3)
     (snd (result (CursorsResult 1 [(9, 2)]) (snd (result (PeerSeen 1) (with_policy PRODUCTION 8 SHIPPED))))))"

lemma fresh_node_inv: "node_inv (with_policy PRODUCTION r pol)"
proof -
  have "with_policy PRODUCTION r pol = preload_all [] (with_policy PRODUCTION r pol)"
    by (simp add: preload_all_def)
  moreover have "dedup PRODUCTION" by (simp add: PRODUCTION_def)
  ultimately show ?thesis using node_start_reach unfolding node_start_def by blast
qed

lemma sample_node_inv: "node_inv sample_node"
  unfolding sample_node_def by (blast intro: node_inv_handle handle_result fresh_node_inv)

end
