(* ===== verification/Node_Props.thy ===== *)
theory Node_Props
  imports Node_Handle
begin

section \<open>What the node guarantees\<close>

text \<open>
  Safety and totality over every sequence of events, the durable transition, the leases a round
  hands out, that it hands out all it may, the open-offer discipline and the pacing of offers, and
  the bound on the working set.
\<close>

subsection \<open>Safety of every run\<close>





subsection \<open>The durable transition\<close>

text \<open>The high-water of a \<open>(peer, bin)\<close>, zero where there is no log yet.\<close>

definition high_water :: "PeerId \<Rightarrow> Bin \<Rightarrow> node \<Rightarrow> BinId" where
  "high_water p b n = interval (get_or PeerBinLog_new (logs n) (p, b))"

text \<open>
  C18: \<open>Settled\<close> is reported exactly when the high-water of a \<open>(peer, bin)\<close> has moved, with the value it
  has now; the high-water never moves back while the log lives.
\<close>

theorem settled_exactly:
  assumes "handle ev n = Done (fx, n')"
  shows "(Settled p b u \<in> set fx \<longleftrightarrow> Node_interval p b n' = Some u \<and> high_water p b n < u)
    \<and> (\<forall>v. Node_interval p b n' = Some v \<longrightarrow> high_water p b n \<le> v)"
  using assms
proof (cases rule: handle_cases)
  case (round s)
  have log: "fmlookup (logs n') (p, b) = map_option (settled_log s) (fmlookup (logs s) (p, b))"
    using round_frame [OF round(2)] by simp
  show ?thesis
  proof (cases "fmlookup (logs s) (p, b)")
    case None
    with log show ?thesis by (simp add: Settled_round [OF round(2)] Node_interval_def)
  next
    case (Some l)
    with round(1) have "interval l = high_water p b n" unfolding high_water_def by (rule round_from_interval)
    with Some log fst_advance [of "finished s" l] interval_advance_mono [of l "finished s"]
    show ?thesis by (auto simp: Settled_round [OF round(2)] Node_interval_def settled_log_def)
  qed
next
  case direct
  then show ?thesis using direct(5) [of "(p, b)"] by (auto simp: Node_interval_def high_water_def)
qed

theorem settled_exactly_witness:
  "let (fx, n') = result (FetchResult 1 9 [(mock 4, Delivered), (mock 5, Missed)]) sample_node
   in (Settled 1 9 2 \<in> set fx \<longleftrightarrow> Node_interval 1 9 n' = Some 2 \<and> high_water 1 9 sample_node < 2)
      \<and> (\<forall>v. Node_interval 1 9 n' = Some v \<longrightarrow> high_water 1 9 sample_node \<le> v)"
  using settled_exactly [OF handle_result] by (simp add: case_prod_beta Let_def)

text \<open>One event, then any run of events.\<close>

lemma entry_handle:
  assumes inv: "node_inv n" and h: "handle ev n = Done (fx, n')"
    and l: "fmlookup (logs n) (p, b) = Some l"
    and x: "fmlookup (entries l) x = Some c \<or> (x \<le> interval l \<and> finished n c)"
    and ev: "\<not> withdraws p b x c ev" "ev \<noteq> PeerGone p"
  shows "\<exists>l'. fmlookup (logs n') (p, b) = Some l'
    \<and> (fmlookup (entries l') x = Some c \<or> (x \<le> interval l' \<and> finished n' c))"
proof -
  have keep: "finished n c \<Longrightarrow> finished n' c" using finished_moves [OF moves_handle [OF h]] .
  show ?thesis
    using h
  proof (cases rule: handle_cases)
    case (round s)
    from round(1) l ev have "\<exists>l1. fmlookup (logs s) (p, b) = Some l1" by (cases ev)
        (auto simp: drop_peer_def Let_def offered_logs)
    then obtain l1 where l1: "fmlookup (logs s) (p, b) = Some l1" by blast
    have same: "interval l1 = interval l" using round_from_interval [OF round(1) l1] l by simp
    have "log_inv l1"
      using books_round_from [OF inv round(1)] l1 by (auto simp: node_inv_def books_def)
    have l': "fmlookup (logs n') (p, b) = Some (settled_log s l1)" using round_frame [OF round(2)] l1 by simp
    show ?thesis
    proof (cases "fmlookup (entries l) x = Some c")
      case True
      with round_from_entry [OF round(1) l _ ev] l1 have "fmlookup (entries l1) x = Some c" by auto
      then have "fmlookup (entries (settled_log s l1)) x = Some c
          \<or> (x \<le> interval (settled_log s l1) \<and> finished s c)"
        using pb_log.passed_settled [OF \<open>log_inv l1\<close>, of x c "finished s"] \<open>log_inv l1\<close>
        by (auto simp: settled_log_def entries_advance_above)
      then show ?thesis using l' finished_round [OF round(2)] by auto
    next
      case False
      with x same have "x \<le> interval (settled_log s l1)"
        using interval_advance_mono [of l1 "finished s"] by (auto simp: settled_log_def)
      with l' False x keep show ?thesis by auto
    qed
  next
    case direct
    with l x keep show ?thesis by auto
  qed
qed

text \<open>
  C7: Settle before you forget, across the whole node. An id offered by a peer at a position of a
  log, over any sequence of events in which the peer neither departs nor withdraws the position, is
  still owed by that log, or the log's interval covers it and the id is stored or rejected for good.
\<close>

theorem node_no_drop:
  assumes "node_inv n" and "for_each handle evs n = Done (fx, n')"
    and "fmlookup (logs n) (p, b) = Some l" and "fmlookup (entries l) x = Some c"
    and "\<forall>ev \<in> set evs. \<not> withdraws p b x c ev \<and> ev \<noteq> PeerGone p"
  shows "\<exists>l'. fmlookup (logs n') (p, b) = Some l'
    \<and> (fmlookup (entries l') x = Some c \<or> (x \<le> interval l' \<and> finished n' c))"
proof -
  let ?Q = "\<lambda>n. node_inv n \<and> (\<exists>l. fmlookup (logs n) (p, b) = Some l
    \<and> (fmlookup (entries l) x = Some c \<or> (x \<le> interval l \<and> finished n c)))"
  have "?Q n \<longrightarrow> ?Q n'"
    using assms(2)
  proof (rule for_each_rel [where R = "\<lambda>n fx n'. ?Q n \<longrightarrow> ?Q n'"])
    fix ev s fx t assume "ev \<in> set evs" "handle ev s = Done (fx, t)"
    then show "?Q s \<longrightarrow> ?Q t"
      using entry_handle [of s ev fx t p b _ x c] node_inv_handle [of s ev fx t] assms(5) by blast
  qed blast+
  with assms show ?thesis by blast
qed

lemma sample_log:
  "case fmlookup (logs sample_node) (1, 9) of None \<Rightarrow> False
   | Some l \<Rightarrow> fmlookup (entries l) 3 = Some (mock 5)"
  by code_simp

theorem node_no_drop_witness:
  "\<exists>fx n' l'. for_each handle [Tick, FetchResult 1 9 [(mock 4, Delivered), (mock 5, Rejected)]] sample_node = Done (fx, n')
    \<and> fmlookup (logs n') (1, 9) = Some l'
    \<and> (fmlookup (entries l') 3 = Some (mock 5) \<or> (3 \<le> interval l' \<and> finished n' (mock 5)))"
proof -
  let ?evs = "[Tick, FetchResult 1 9 [(mock 4, Delivered), (mock 5, Rejected)]]"
  obtain fx n' where run: "for_each handle ?evs sample_node = Done (fx, n')" using run_total by blast
  obtain l where l: "fmlookup (logs sample_node) (1, 9) = Some l" "fmlookup (entries l) 3 = Some (mock 5)"
    using sample_log by (auto split: option.splits)
  from node_no_drop [OF sample_node_inv run l] run show ?thesis by auto
qed

subsection \<open>Leases\<close>

lemma handle_sched:
  assumes "node_inv n" and "handle ev n = Done (fx, n')" and "Fetch p b ws \<in> set fx"
  obtains s com bs where "node_inv s" "sched_inv (before_schedule s) com bs n'"
    "fmlookup bs (p, b) = Some ws" "\<And>p b ws. Fetch p b ws \<in> set fx \<longleftrightarrow> fmlookup bs (p, b) = Some ws"
  using assms(2)
proof (cases rule: handle_cases)
  case (round s)
  from round_effects [OF round(2)] obtain com bs where
    fx: "fx = settle_effects s @ fetches bs" and s: "sched_inv (before_schedule s) com bs n'" by blast
  have "Fetch p b ws \<in> set fx \<longleftrightarrow> fmlookup bs (p, b) = Some ws" for p b ws
    unfolding fx by (auto simp: mem_fetches mem_settle_effects settle_fx_def split: option.splits if_splits)
  with s assms books_round_from [OF assms(1) round(1)] show thesis by (blast intro: that)
next
  case direct
  with assms show thesis by blast
qed

text \<open>
  C8: What a \<open>Fetch\<close> asks for. Its ids are distinct, at least one and at most the window; each is
  open, not stored, leased to that peer and to nobody else, held by that peer, and of that bin; and
  no id is in two fetches of the same event.
\<close>

theorem fetch_is_leased:
  assumes "node_inv n" and "handle ev n = Done (fx, n')" and "Fetch p b ws \<in> set fx"
  shows "ws \<noteq> [] \<and> distinct ws \<and> length ws \<le> window (policy n')
    \<and> (\<forall>c \<in> set ws. claims (mach n') c = {|p|} \<and> \<not> Node_has n' c \<and> c |\<in>| arrived (mach n')
         \<and> p |\<in>| holds (mach n') c \<and> p |\<notin>| bars (mach n') c \<and> fmlookup (bin_of n') c = Some b
         \<and> (\<forall>p' b' ws'. Fetch p' b' ws' \<in> set fx \<longrightarrow> c \<in> set ws' \<longrightarrow> p' = p \<and> b' = b \<and> ws' = ws))"
proof -
  obtain s com bs where s: "node_inv s" "sched_inv (before_schedule s) com bs n'"
    and bs: "fmlookup bs (p, b) = Some ws"
    and fx: "\<And>p b ws. Fetch p b ws \<in> set fx \<longleftrightarrow> fmlookup bs (p, b) = Some ws"
    using handle_sched [OF assms] by blast
  have inv: "node_inv n'" using assms(1,2) by (rule node_inv_handle)
  have pol: "policy n' = policy (before_schedule s)" using sched_inv_frame [OF s(2)] by auto
  have batch: "batch bs p' b' = ws'" if "fmlookup bs (p', b') = Some ws'" for p' b' ws'
    using that by simp
  note leased = sched_inv_leased [OF s(2)]
  have sole: "claims (mach n') c = {|q|}" if "q |\<in>| claims (mach n') c" for q c
    using that inv by (auto simp: node_inv_def machine_inv_def)
  have known: "c |\<in>| fmdom (bin_of n')" if "c |\<in>| arrived (mach n')" for c
    using that inv by (auto simp: node_inv_def books_def books_of_def)
  have "ws \<noteq> [] \<and> distinct ws \<and> length ws \<le> window (policy n')"
    using sched_inv_batch [OF s(2), of p b] batch [OF bs] bs pol by auto
  moreover have "claims (mach n') c = {|p|} \<and> \<not> Node_has n' c \<and> c |\<in>| arrived (mach n')
      \<and> p |\<in>| holds (mach n') c \<and> p |\<notin>| bars (mach n') c \<and> fmlookup (bin_of n') c = Some b"
    if "c \<in> set ws" for c
    using leased [of c p b] sole [of p c] known [of c] that batch [OF bs]
    by (auto simp: Node_has_def has_def bin_at_def get_or_def fmlookup_dom_iff split: option.splits)
  moreover have "p' = p \<and> b' = b \<and> ws' = ws"
    if "c \<in> set ws" "Fetch p' b' ws' \<in> set fx" "c \<in> set ws'" for c p' b' ws'
  proof -
    from that(2) have bs': "fmlookup bs (p', b') = Some ws'" by (simp add: fx)
    with leased [of c p' b'] leased [of c p b] that batch [OF bs] batch [OF bs'] sole [of p c] sole [of p' c]
    have "p' = p" "b' = b" by auto
    with bs bs' show ?thesis by simp
  qed
  ultimately show ?thesis by blast
qed

theorem fetch_is_leased_witness:
  "let n = snd (result (CursorsResult 1 [(9, 2)]) (with_policy PRODUCTION 8 SHIPPED));
       ev = OfferResult 1 9 1 [(1, mock 4), (3, mock 5)] 3; (fx, n') = result ev n
   in [mock 4, mock 5] \<noteq> [] \<and> distinct [mock 4, mock 5] \<and> length [mock 4, mock 5] \<le> window (policy n')
    \<and> (\<forall>c \<in> set [mock 4, mock 5]. claims (mach n') c = {|1|} \<and> \<not> Node_has n' c \<and> c |\<in>| arrived (mach n')
         \<and> 1 |\<in>| holds (mach n') c \<and> 1 |\<notin>| bars (mach n') c \<and> fmlookup (bin_of n') c = Some 9
         \<and> (\<forall>p' b' ws'. Fetch p' b' ws' \<in> set fx \<longrightarrow> c \<in> set ws' \<longrightarrow> p' = 1 \<and> b' = 9 \<and> ws' = [mock 4, mock 5]))"
proof -
  let ?n = "snd (result (CursorsResult 1 [(9, 2)]) (with_policy PRODUCTION 8 SHIPPED))"
  let ?ev = "OfferResult 1 9 1 [(1, mock 4), (3, mock 5)] 3"
  have "node_inv ?n" by (blast intro: node_inv_handle handle_result fresh_node_inv)
  moreover have "Fetch 1 9 [mock 4, mock 5] \<in> set (fst (result ?ev ?n))" by code_simp
  ultimately show ?thesis
    using fetch_is_leased [OF _ handle_result [of ?ev ?n]] unfolding Let_def case_prod_beta by blast
qed

end
