(* ===== verification/Node_Live.thy ===== *)
theory Node_Live
  imports Node_Handle Machine_Props
begin

section \<open>Progress, pacing and the size of the node\<close>

text \<open>
  That a round hands out all it may and never idles on fetchable work, that offers are one per
  stream and strictly extend coverage, what a departed peer leaves behind, and what bounds the
  working set.
\<close>

declare split_paired_All [simp del] split_paired_Ex [simp del]

subsection \<open>Progress\<close>

lemma full_batch:
  assumes "sched_inv n0 com bs n" and "budgeted n com = []" and "claimable (mach n) c p"
  shows "length (batch bs p (get_or 0 (bin_of n) c)) = window (policy n)"
proof -
  have "\<not> get_or 0 com (p, get_or 0 (bin_of n) c) < window (policy n)"
    using assms(2,3) set_budgeted [of c p n com] by simp
  moreover have "policy n = policy n0" using sched_inv_frame [OF assms(1)] by auto
  ultimately show ?thesis using sched_inv_batch [OF assms(1), of p "get_or 0 (bin_of n) c"] by simp
qed

text \<open>
  A round is work-conserving: a want that is still enabled after it was not forgotten but held
  back by the window, and that peer's fetch for that bin is full.
\<close>

theorem round_saturates:
  assumes "node_round n = Done (fx, n')" and "claimable (mach n') c p" and "0 < window (policy n')"
  shows "\<exists>ws. Fetch p (get_or 0 (bin_of n') c) ws \<in> set fx \<and> length ws = window (policy n')"
proof -
  obtain com bs where fx: "fx = settle_effects n @ fetches bs"
    and s: "sched_inv (before_schedule n) com bs n'" and full: "budgeted n' com = []"
    using round_effects [OF assms(1)] by blast
  let ?b = "get_or 0 (bin_of n') c"
  have "length (batch bs p ?b) = window (policy n')" using full_batch [OF s full assms(2)] .
  moreover from this assms(3) obtain ws where "fmlookup bs (p, ?b) = Some ws"
    by (cases "fmlookup bs (p, ?b)") (auto simp: get_or_def)
  ultimately show ?thesis by (auto simp: fx mem_fetches)
qed

definition busy_node :: node where
  "busy_node = snd (result (CursorsResult 1 [(9, 2)]) (with_policy PRODUCTION 8 \<lparr>cumulative_routing = True, window = 1\<rparr>))"

text \<open>Two ids from one peer under a window of one: the second want is enabled and waits.\<close>

definition held_back :: "(effect list \<times> node) exec" where
  "held_back = bind_exec (for_each (ingest 1 9 2) [(1, mock 4), (2, mock 5)] busy_node) (\<lambda>(_, n). node_round n)"

lemma held_back_claimable:
  "case held_back of Panic \<Rightarrow> False
   | Done (fx, n) \<Rightarrow> claimable (mach n) (mock 5) 1 \<and> window (policy n) = 1 \<and> get_or 0 (bin_of n) (mock 5) = 9"
  by code_simp

theorem round_saturates_witness:
  "\<exists>fx n' ws. held_back = Done (fx, n') \<and> Fetch 1 9 ws \<in> set fx \<and> length ws = 1"
proof -
  from held_back_claimable obtain fx n' where h: "held_back = Done (fx, n')"
    and n': "claimable (mach n') (mock 5) 1" "window (policy n') = 1" "get_or 0 (bin_of n') (mock 5) = 9"
    by (auto split: exec.splits)
  from h obtain s where "node_round s = Done (fx, n')"
    by (auto simp: held_back_def bind_exec_eq_Done)
  from round_saturates [OF this n'(1)] n' h show ?thesis by auto
qed

text \<open>The reset pass leaves no open unclaimed id barred at all its holders.\<close>

lemma eligible_after_reset:
  assumes inv: "node_inv n" and cfg: "reset_on_exhaust (cfg (mach n))"
    and c: "c |\<in>| arrived (mach (reset_pass n))" "c |\<notin>| got (mach n)" "claims (mach n) c = {||}"
      "holds (mach n) c \<noteq> {||}"
  shows "eligible (mach (reset_pass n)) c"
proof -
  obtain ex where eq: "reset_pass n = n\<lparr>mach := (mach n)\<lparr>excluded := ex\<rparr>\<rparr>"
    and ex: "fmlookup ex c = (if c |\<in>| fmdom (bin_of n) \<and> can_reset_excluded (mach n) c then None
            else fmlookup (excluded (mach n)) c)"
    using reset_pass_spec [of n] by blast
  have c': "c |\<in>| arrived (mach n)" using c(1) by (simp add: eq)
  have "\<not> holds (mach n) c |\<subseteq>| get_or {||} ex c"
  proof
    assume sub: "holds (mach n) c |\<subseteq>| get_or {||} ex c"
    with c(4) obtain e where e: "fmlookup ex c = Some e" by (cases "fmlookup ex c") (auto simp: get_or_def)
    then have old: "fmlookup (excluded (mach n)) c = Some e" and no: "\<not> can_reset_excluded (mach n) c"
      using ex c' inv by (auto simp: node_inv_def books_def books_of_def split: if_splits)
    have "\<not> contains_key (want (mach n)) c"
      using inv c(3) by (simp add: node_inv_def machine_inv_def contains_key_normal)
    moreover obtain hs where "fmlookup (holders (mach n)) c = Some hs"
      using c(4) by (auto simp: get_or_def split: option.splits)
    ultimately have "can_reset_excluded (mach n) c"
      using cfg c' c(2,4) old sub e by (auto simp: can_reset_excluded_def)
    with no show False by simp
  qed
  with c(2) show ?thesis by (simp add: eligible_iff eq)
qed

text \<open>With fetchable work and a window of at least one, a round leaves a lease in flight.\<close>

lemma round_leases:
  assumes "node_inv n" and "node_round n = Done (fx, n')" and "cfg (mach n) = PRODUCTION"
    and "0 < window (policy n)"
    and "c |\<in>| arrived (mach n')" and "\<not> Node_has n' c" and "holds (mach n') c \<noteq> {||}"
  shows "\<exists>d p. p |\<in>| claims (mach n') d"
proof (rule ccontr)
  assume "\<not> ?thesis"
  then have idle: "claims (mach n') d = {||}" for d by auto
  obtain com bs where s: "sched_inv (before_schedule n) com bs n'" and full: "budgeted n' com = []"
    using round_effects [OF assms(2)] by blast
  obtain w a where n': "n' = (before_schedule n)\<lparr>mach := (mach (before_schedule n))\<lparr>want := w\<rparr>, assigned := a\<rparr>"
    using sched_inv_frame [OF s] by blast
  let ?p = "prune (settled_node n)"
  obtain ex where r: "before_schedule n = ?p\<lparr>mach := (mach ?p)\<lparr>excluded := ex\<rparr>\<rparr>"
    using reset_pass_spec [of ?p] by (auto simp: before_schedule_def)
  have inv: "node_inv n'" using assms(1,2) by (rule node_inv_round)
  have p: "node_inv ?p"
    using assms(1) books_prune [OF books_settled_node] node_invI [of n ?p] moves_prune [of "settled_node n"]
    by (auto simp: node_inv_def settled_node_def)
  have frame: "cfg (mach n') = PRODUCTION" "policy n' = policy n" using round_frame [OF assms(2)] assms(3) by auto
  have "claims (mach ?p) c = {||}" using s idle unfolding sched_inv_def by (auto simp: r)
  then have "eligible (mach (reset_pass ?p)) c"
    using assms(5-7) frame(1) p
    by (intro eligible_after_reset) (auto simp: n' r [unfolded before_schedule_def] before_schedule_def Node_has_def has_def PRODUCTION_def)
  then have "eligible (mach n') c" by (simp add: n' eligible_iff before_schedule_def)
  then obtain d where d: "d |\<in>| arrived (mach n')" "eligible (mach n') d" "\<not> addressed (mach n') d" "prio_ok (mach n') d"
    using deepest_eligible [of c "mach n'"] assms(5,6) idle inv
    by (auto simp: Node_has_def has_def node_inv_def machine_inv_def addressed_iff)
  then obtain q where "claimable (mach n') d q"
    using eligible_claimable [of "mach n'" d] inv frame(1) by (auto simp: node_inv_def PRODUCTION_def)
  from full_batch [OF s full this] assms(4) frame(2)
  obtain e where "e \<in> set (batch bs q (get_or 0 (bin_of n') d))"
    by (cases "batch bs q (get_or 0 (bin_of n') d)") auto
  then show False using sched_inv_leased [OF s] idle by force
qed

text \<open>
  C13: The node is never idle with work it could do. With the shipped machine and a window of at
  least one, if after a round some open id is not stored and somebody holds it, then some lease is
  in flight: no peer and no set of bars can wedge the puller.
\<close>

theorem node_never_idle:
  assumes "node_inv n" and "node_round n = Done (fx, n')" and "cfg (mach n) = PRODUCTION"
    and "0 < window (policy n)"
    and "c |\<in>| arrived (mach n')" and "\<not> Node_has n' c" and "holds (mach n') c \<noteq> {||}"
  shows "\<exists>d p. p |\<in>| claims (mach n') d"
  using assms by (rule round_leases)

lemma sample_round:
  "case node_round sample_node of Panic \<Rightarrow> False
   | Done (fx, n') \<Rightarrow> mock 5 |\<in>| arrived (mach n') \<and> \<not> Node_has n' (mock 5) \<and> holds (mach n') (mock 5) \<noteq> {||}
       \<and> cfg (mach sample_node) = PRODUCTION \<and> 0 < window (policy sample_node)"
  by code_simp

theorem node_never_idle_witness:
  "\<exists>fx n' d p. node_round sample_node = Done (fx, n') \<and> p |\<in>| claims (mach n') d"
proof -
  obtain fx n' where r: "node_round sample_node = Done (fx, n')" using node_round_total by blast
  with sample_round node_never_idle [OF sample_node_inv r, of "mock 5"] show ?thesis by auto
qed

subsection \<open>Offers\<close>

text \<open>
  One standing offer per \<open>(peer, bin)\<close>. After an event has closed what it answers, every offer it
  emits is for a stream with none open, no stream gets two, and the open set grows by exactly these.
\<close>

theorem one_open_offer:
  assumes "handle ev n = Done (fx, n')"
  defines "before \<equiv> fset (offer_open (answered ev (disc n)))"
  shows "distinct (offers fx) \<and> set (offers fx) \<inter> before = {}
    \<and> fset (offer_open (disc n')) = before \<union> set (offers fx)"
  using opened_handle [OF assms(1)] by (simp add: opened_def before_def)

theorem one_open_offer_witness:
  "let (fx, n') = result Tick sample_node; before = fset (offer_open (answered Tick (disc sample_node)))
   in distinct (offers fx) \<and> set (offers fx) \<inter> before = {}
      \<and> fset (offer_open (disc n')) = before \<union> set (offers fx)"
  using one_open_offer [OF handle_result [of Tick sample_node]] by (simp add: Let_def case_prod_beta)

lemma tail_past_cover:
  assumes "log_inv l" and "topmost l < next_start (snd (advance S l))"
  shows "interval (snd (advance S l)) = topmost l"
proof (rule antisym)
  show "interval (snd (advance S l)) \<le> topmost l" using assms(1) by (rule interval_advance_le)
  show "topmost l \<le> interval (snd (advance S l))"
    using word_le_minus_one [OF assms(2)] by (simp add: next_start_def)
qed

text \<open>
  Offers are paced. A round answers an offer for \<open>[start, ...]\<close> with a new offer on the same stream
  only if everything up to \<open>start\<close> is settled, and the new offer starts strictly above it: however the
  peer under-states its topmost, a stream cannot be made to re-advertise the same range in a loop.
\<close>

theorem offer_pacing:
  assumes "node_inv n" and "handle (OfferResult p b start refs t) n = Done (fx, n')"
    and "Offer p b start' \<in> set fx"
  shows "start < start' \<and> (\<exists>u. Node_interval p b n' = Some u \<and> start \<le> u \<and> start' = u + 1)"
proof -
  from assms(2) obtain s where s: "offered p b start refs t n = Done ([], s)" "node_round s = Done (fx, n')"
    "logs s = fmupd (p, b) (offer_log p b start refs t n) (logs n)"
    by (rule handle_offerE)
  let ?l = "offer_log p b start refs t n"
  have "node_inv s" using assms(1) s(1) by (auto intro: books_round_from [of n "OfferResult p b start refs t"])
  moreover have "fmlookup (logs s) (p, b) = Some ?l" by (simp add: s(3))
  ultimately have inv: "log_inv ?l" unfolding node_inv_def books_def by blast
  have tail: "topmost ?l < next_start (settled_log s ?l)" and start': "start' = next_start (settled_log s ?l)"
    using assms(3) Offer_round [OF s(2), of p b start'] s(3) by (auto simp: has_tail_def)
  have "interval (settled_log s ?l) = topmost ?l"
    using tail inv unfolding settled_log_def by (rule tail_past_cover [rotated])
  moreover have "start \<le> topmost ?l" by (rule topmost_offer_log)
  moreover have "Node_interval p b n' = Some (interval (settled_log s ?l))"
    using round_frame [OF s(2)] s(3) by (simp add: Node_interval_def)
  ultimately show ?thesis using tail start' by (auto simp: next_start_def)
qed

definition asked_node :: node where
  "asked_node = snd (result (CursorsResult 1 [(9, 2)]) (snd (result (PeerSeen 1) (with_policy PRODUCTION 8 SHIPPED))))"

theorem offer_pacing_witness:
  "let (fx, n') = result (OfferResult 1 9 1 [] 0) asked_node
   in Offer 1 9 2 \<in> set fx \<and> (1::BinId) < 2 \<and> (\<exists>u. Node_interval 1 9 n' = Some u \<and> 1 \<le> u \<and> 2 = u + 1)"
proof -
  have "Offer 1 9 2 \<in> set (fst (result (OfferResult 1 9 1 [] 0) asked_node))" by code_simp
  moreover have "node_inv asked_node"
    unfolding asked_node_def by (blast intro: node_inv_handle handle_result fresh_node_inv)
  ultimately show ?thesis
    using offer_pacing [OF _ handle_result] by (fastforce simp: Let_def case_prod_beta)
qed

subsection \<open>Departed peers\<close>

lemma drop_peer_clean:
  "p |\<notin>| holds (mach (drop_peer p n)) c \<and> p |\<notin>| claims (mach (drop_peer p n)) c
   \<and> bars (mach (drop_peer p n)) c = bars (mach n) c"
proof -
  let ?m1 = "lose_all (held_by (mach n) p) p (mach n)"
  let ?m2 = "lose_all (claims_of ?m1 p) p ?m1"
  have m: "mach (drop_peer p n) = ?m2" by (simp add: drop_peer_def Let_def)
  from lose_all_spec [of "held_by (mach n) p" p "mach n"] obtain H W where
    m1: "?m1 = (mach n)\<lparr>holders := H, want := W\<rparr>"
    and H: "\<And>c. get_or {||} H c = (if c \<in> set (held_by (mach n) p) then holds (mach n) c |-| {|p|} else holds (mach n) c)"
    by blast
  from lose_all_spec [of "claims_of ?m1 p" p ?m1] obtain H' W' where
    m2: "?m2 = ?m1\<lparr>holders := H', want := W'\<rparr>"
    and H': "\<And>c. get_or {||} H' c = (if c \<in> set (claims_of ?m1 p) then holds ?m1 c |-| {|p|} else holds ?m1 c)"
    and W': "\<And>c. get_or {||} W' c = (if c \<in> set (claims_of ?m1 p) then claims ?m1 c |-| {|p|} else claims ?m1 c)"
    by blast
  have "p |\<notin>| get_or {||} H c" by (simp add: H held_by_def)
  then have "p |\<notin>| holds ?m1 c" by (simp add: m1)
  moreover have "excluded ?m1 = excluded (mach n)" by (simp add: m1)
  ultimately show ?thesis unfolding m m2 by (simp add: H' W' claims_of_def)
qed

text \<open>
  A departed peer leaves no trace: no lease, no holding, no log, no cursor, no open offer; nothing
  is asked of it; and nobody is barred because it left.
\<close>

theorem peer_gone_no_trace:
  assumes "handle (PeerGone p) n = Done (fx, n')"
  shows "p |\<notin>| peers n' \<and> (\<forall>c. p |\<notin>| holds (mach n') c \<and> p |\<notin>| claims (mach n') c
       \<and> bars (mach n') c |\<subseteq>| bars (mach n) c)
    \<and> (\<forall>b. fmlookup (logs n') (p, b) = None \<and> fmlookup (cursors n') (p, b) = None
       \<and> (p, b) |\<notin>| offer_open (disc n') \<and> (\<forall>x ws. Offer p b x \<notin> set fx \<and> Fetch p b ws \<notin> set fx))"
proof -
  let ?s = "drop_peer p n"
  from assms have r: "node_round ?s = Done (fx, n')" by simp
  note frame = round_frame [OF r]
  obtain com bs where fx: "fx = settle_effects ?s @ fetches bs" and s: "sched_inv (before_schedule ?s) com bs n'"
    using round_effects [OF r] by blast
  have logs: "fmlookup (logs ?s) (p, b) = None" "fmlookup (cursors ?s) (p, b) = None" "p |\<notin>| peers ?s" for b
    by (simp_all add: drop_peer_def Let_def)
  have holds: "p |\<notin>| holds (mach n') c" "bars (mach n') c |\<subseteq>| bars (mach n) c" for c
    using frame drop_peer_clean [of p n c] by (auto dest: fsubsetD)
  have leased: "c \<in> set (batch bs p b) \<Longrightarrow> False" for c b
    using sched_inv_leased [OF s] holds by blast
  have "p |\<notin>| claims (mach n') c" for c
  proof -
    have "p |\<notin>| claims (mach (before_schedule ?s)) c"
      using before_schedule_eq [of ?s] drop_peer_clean [of p n c] by auto
    with leased s show ?thesis unfolding sched_inv_def by blast
  qed
  moreover have "Fetch p b ws \<notin> set fx" for b ws
  proof
    assume "Fetch p b ws \<in> set fx"
    then have "fmlookup bs (p, b) = Some ws"
      unfolding fx by (auto simp: mem_fetches mem_settle_effects settle_fx_def split: option.splits if_splits)
    moreover from this have "ws \<noteq> []" using sched_inv_batch [OF s, of p b] by auto
    ultimately show False using leased [of "hd ws" b] by simp
  qed
  moreover have no_offer: "Offer p b x \<notin> set fx" for b x using logs by (simp add: Offer_round [OF r])
  moreover have "(p, b) |\<notin>| offer_open (disc n')" for b
    using opened_handle [OF assms] no_offer by (auto simp: opened_def forget_peer_def mem_offers)
  ultimately show ?thesis using frame logs holds by simp
qed

theorem peer_gone_no_trace_witness:
  "let (fx, n') = result (PeerGone 1) sample_node in
     1 |\<notin>| peers n' \<and> (\<forall>c. 1 |\<notin>| holds (mach n') c \<and> 1 |\<notin>| claims (mach n') c
       \<and> bars (mach n') c |\<subseteq>| bars (mach sample_node) c)
    \<and> (\<forall>b. fmlookup (logs n') (1, b) = None \<and> fmlookup (cursors n') (1, b) = None
       \<and> (1, b) |\<notin>| offer_open (disc n') \<and> (\<forall>x ws. Offer 1 b x \<notin> set fx \<and> Fetch 1 b ws \<notin> set fx))"
  unfolding case_prod_beta Let_def by (rule peer_gone_no_trace) (rule handle_result)

subsection \<open>The working set\<close>

text \<open>
  What a round keeps: an id stays in the working set exactly while it is unsettled or still in
  some offer window, and every scheduling map is keyed within the working set. So memory follows
  the windows and the unsettled ids, not the history, and no unsettled id is ever dropped.
\<close>

theorem working_set_tracks_window:
  assumes "node_inv n" and "node_round n = Done (fx, n')"
  shows "(\<forall>c. c |\<in>| fmdom (bin_of n') \<longleftrightarrow>
        c |\<in>| fmdom (bin_of n) \<and> (\<not> finished n' c \<or> c |\<in>| windowed n'))
    \<and> fmdom (want (mach n')) |\<union>| fmdom (holders (mach n')) |\<union>| fmdom (excluded (mach n'))
        |\<union>| fmdom (prio (mach n')) |\<union>| arrived (mach n') |\<union>| live (mach n') |\<subseteq>| fmdom (bin_of n')"
proof -
  note frame = round_frame [OF assms(2)]
  have inv: "node_inv n'" using assms by (rule node_inv_round)
  have "windowed (settled_node n) = windowed n'"
    using frame by (intro windowed_same) (simp add: settled_node_def)
  moreover have "finished (settled_node n) c = finished n' c" for c
    using finished_round [OF assms(2)] by (simp add: settled_node_def)
  ultimately have "c |\<in>| fmdom (bin_of n') \<longleftrightarrow>
      c |\<in>| fmdom (bin_of n) \<and> (\<not> finished n' c \<or> c |\<in>| windowed n')" for c
    using frame by (auto simp: set_pruned settled_node_def)
  moreover have "fmdom (want (mach n')) |\<subseteq>| arrived (mach n')"
  proof
    fix c assume "c |\<in>| fmdom (want (mach n'))"
    then have "claims (mach n') c \<noteq> {||}"
      using inv contains_key_normal [of "want (mach n')" c]
      by (simp add: node_inv_def machine_inv_def contains_key_def)
    then obtain p where "p |\<in>| claims (mach n') c" by auto
    then show "c |\<in>| arrived (mach n')" using inv by (auto simp: node_inv_def machine_inv_def)
  qed
  moreover have "live (mach n') |\<subseteq>| arrived (mach n')" "books_of (bin_of n') (mach n')"
    using inv by (auto simp: node_inv_def machine_inv_def books_def)
  ultimately show ?thesis by (auto simp: books_of_def dest: fsubsetD)
qed

theorem working_set_tracks_window_witness:
  "\<exists>fx n'. node_round sample_node = Done (fx, n')
    \<and> (\<forall>c. c |\<in>| fmdom (bin_of n') \<longleftrightarrow>
        c |\<in>| fmdom (bin_of sample_node) \<and> (\<not> finished n' c \<or> c |\<in>| windowed n'))
    \<and> fmdom (want (mach n')) |\<union>| fmdom (holders (mach n')) |\<union>| fmdom (excluded (mach n'))
        |\<union>| fmdom (prio (mach n')) |\<union>| arrived (mach n') |\<union>| live (mach n') |\<subseteq>| fmdom (bin_of n')"
proof -
  obtain fx n' where "node_round sample_node = Done (fx, n')" using node_round_total by blast
  with working_set_tracks_window [OF sample_node_inv this] show ?thesis by blast
qed

text \<open>
  An id that nobody offers any more is not collected. A peer offers an id and departs: its windows
  are gone, nobody holds the id, and it stays in the working set and in the deficit.
\<close>

theorem orphan_stays_in_working_set:
  "let n = snd (result (PeerGone 1) sample_node)
   in windowed n = {||} \<and> holds (mach n) (mock 5) = {||} \<and> working_set n = 2 \<and> Node_deficit n = 2"
  by code_simp


end
