(* ===== verification/Crypto.thy ===== *)
theory Crypto
  imports Prelude
begin

section \<open>Shared primitives: \<open>crates/crypto\<close>, \<open>crates/wire/src/bmt.rs\<close>, \<open>crates/wire/src/postage.rs\<close>\<close>

text \<open>
  Keccak and secp256k1 come from third-party crates: they are the functions of a record every
  operation takes. What the code builds from them is translated: the EIP-191 prefix, the recoverable
  signature layout, the chunk address, the stamp and its validation.
\<close>

record crypto =
  keccak256 :: "bytes \<Rightarrow> bytes"
  public_key :: "bytes \<Rightarrow> bytes option"
  sign_prehash :: "bytes \<Rightarrow> bytes \<Rightarrow> (bytes \<times> u8) option"
  recover_from_prehash :: "bytes \<Rightarrow> bytes \<Rightarrow> u8 \<Rightarrow> bytes option"

text \<open>
  What the callers rely on: a digest has 32 bytes, a point 65, a signature 64, a recovery id is below 4,
  and recovery inverts signing.
\<close>

definition lawful :: "crypto \<Rightarrow> bool" where
  "lawful cr \<longleftrightarrow>
     (\<forall>x. length (keccak256 cr x) = 32)
   \<and> (\<forall>s pk. public_key cr s = Some pk \<longrightarrow> length pk = 65
        \<and> (\<forall>h. \<exists>sig r. sign_prehash cr s h = Some (sig, r) \<and> length sig = 64 \<and> r < 4
             \<and> recover_from_prehash cr h sig r = Some pk))
   \<and> (\<forall>s h. public_key cr s = None \<longrightarrow> sign_prehash cr s h = None)"

text \<open>\<open>to_string\<close> on a length: decimal digits in ASCII.\<close>

fun decimal :: "nat \<Rightarrow> bytes" where
  "decimal n = (if n < 10 then [of_nat (48 + n)] else decimal (n div 10) @ [of_nat (48 + n mod 10)])"

declare decimal.simps [simp del]

definition ETH_PREFIX :: bytes where
  "ETH_PREFIX = map of_char (CHR 0x19 # ''Ethereum Signed Message:'' @ [CHR 0x0A])"

definition eth_prefixed :: "crypto \<Rightarrow> bytes \<Rightarrow> bytes" where
  "eth_prefixed cr data = keccak256 cr (ETH_PREFIX @ decimal (length data) @ data)"

definition eth_address :: "crypto \<Rightarrow> bytes \<Rightarrow> bytes" where
  "eth_address cr pk = drop 12 (keccak256 cr (drop 1 pk))"

text \<open>\<open>checked_sub(27)\<close> on the last byte, then \<open>RecoveryId::from_byte\<close>, which takes 0 to 3.\<close>

definition recovery_id :: "u8 \<Rightarrow> u8 option" where
  "recovery_id v = (if 27 \<le> v \<and> v - 27 < 4 then Some (v - 27) else None)"

definition recover :: "crypto \<Rightarrow> bytes \<Rightarrow> bytes \<Rightarrow> bytes option" where
  "recover cr prehash sig65 =
     (if length sig65 \<noteq> 65 then None
      else Option.bind (recovery_id (sig65 ! 64)) (\<lambda>r.
        Option.bind (recover_from_prehash cr prehash (take 64 sig65) r) (\<lambda>pk. Some (eth_address cr pk))))"

definition sign :: "crypto \<Rightarrow> bytes \<Rightarrow> bytes \<Rightarrow> bytes option" where
  "sign cr secret prehash = map_option (\<lambda>(sig, r). sig @ [r + 27]) (sign_prehash cr secret prehash)"

definition public_eth_address :: "crypto \<Rightarrow> bytes \<Rightarrow> bytes option" where
  "public_eth_address cr secret = map_option (eth_address cr) (public_key cr secret)"

subsection \<open>The chunk address: \<open>bmt.rs\<close>\<close>

definition SPAN_SIZE :: nat where
  "SPAN_SIZE = 8"

definition SECTION :: nat where
  "SECTION = 32"

definition CHUNK_SIZE :: nat where
  "CHUNK_SIZE = 4096"

definition hash_pair :: "crypto \<Rightarrow> bytes \<Rightarrow> bytes \<Rightarrow> bytes" where
  "hash_pair cr l r = keccak256 cr (l @ r)"

text \<open>
  On a length that is a power of two and at least 64 the recursion ends at 64. The model stops below
  that as well, where the source would recurse for ever; \<open>chunk_address\<close> calls it on 4096 bytes only.
\<close>

function bmt_root :: "crypto \<Rightarrow> bytes \<Rightarrow> bytes" where
  "bmt_root cr data =
     (if length data \<le> 2 * SECTION then keccak256 cr data
      else (let half = length data div 2
            in hash_pair cr (bmt_root cr (take half data)) (bmt_root cr (drop half data))))"
  by pat_completeness auto
termination
  by (relation "measure (\<lambda>(cr, data). length data)") (auto simp: SECTION_def)

declare bmt_root.simps [simp del]

definition chunk_address :: "crypto \<Rightarrow> bytes \<Rightarrow> bytes exec" where
  "chunk_address cr payload =
     (if CHUNK_SIZE < length payload then Panic
      else (let padded = payload @ replicate (CHUNK_SIZE - length payload) 0
            in Done (keccak256 cr (u64_le_bytes (of_nat (length payload)) @ bmt_root cr padded))))"

subsection \<open>Postage stamps: \<open>postage.rs\<close>\<close>

definition STAMP_SIZE :: nat where "STAMP_SIZE = 113"
definition BATCH_ID :: nat where "BATCH_ID = 32"
definition INDEX :: nat where "INDEX = 8"
definition TIMESTAMP :: nat where "TIMESTAMP = 8"
definition SIG :: nat where "SIG = 65"

lemmas stamp_layout = STAMP_SIZE_def BATCH_ID_def INDEX_def TIMESTAMP_def SIG_def

datatype stamp = Stamp bytes

fun stamp_bytes :: "stamp \<Rightarrow> bytes" where
  "stamp_bytes (Stamp b) = b"

definition Stamp_parse :: "bytes \<Rightarrow> stamp option" where
  "Stamp_parse b = (if length b = STAMP_SIZE then Some (Stamp b) else None)"

definition Stamp_batch_id :: "stamp \<Rightarrow> bytes" where
  "Stamp_batch_id st = take BATCH_ID (stamp_bytes st)"

definition Stamp_index :: "stamp \<Rightarrow> bytes" where
  "Stamp_index st = take INDEX (drop BATCH_ID (stamp_bytes st))"

definition Stamp_timestamp :: "stamp \<Rightarrow> bytes" where
  "Stamp_timestamp st = take TIMESTAMP (drop (BATCH_ID + INDEX) (stamp_bytes st))"

definition Stamp_sig :: "stamp \<Rightarrow> bytes" where
  "Stamp_sig st = drop (BATCH_ID + INDEX + TIMESTAMP) (stamp_bytes st)"

definition to_sign_digest :: "crypto \<Rightarrow> bytes \<Rightarrow> bytes \<Rightarrow> bytes \<Rightarrow> bytes \<Rightarrow> bytes" where
  "to_sign_digest cr chunk_addr bid idx ts = keccak256 cr (chunk_addr @ bid @ idx @ ts)"

definition recover_owner :: "crypto \<Rightarrow> bytes \<Rightarrow> stamp \<Rightarrow> bytes option" where
  "recover_owner cr chunk_addr st =
     recover cr (eth_prefixed cr
       (to_sign_digest cr chunk_addr (Stamp_batch_id st) (Stamp_index st) (Stamp_timestamp st))) (Stamp_sig st)"

definition valid :: "crypto \<Rightarrow> bytes \<Rightarrow> stamp \<Rightarrow> bytes \<Rightarrow> bool" where
  "valid cr chunk_addr st owner \<longleftrightarrow> recover_owner cr chunk_addr st = Some owner"

subsection \<open>Signing and recovery\<close>

lemma lawfulD:
  assumes "lawful cr"
  shows "length (keccak256 cr x) = 32"
    and "public_key cr s = Some pk \<Longrightarrow> length pk = 65"
    and "public_key cr s = None \<Longrightarrow> sign_prehash cr s h = None"
  using assms by (auto simp: lawful_def)

lemma recovery_id_sign: "r < 4 \<Longrightarrow> recovery_id (r + 27) = Some r"
proof -
  assume "r < 4"
  then have "unat r < 4" by (simp add: word_less_nat_alt)
  then have "unat (r + 27) = unat r + 27" by (simp add: unat_plus_if')
  then have "27 \<le> r + 27" by (simp add: word_le_nat_alt)
  with \<open>r < 4\<close> show ?thesis by (simp add: recovery_id_def)
qed

text \<open>\<open>recover\<close> on the output of \<open>sign\<close> names the signer's own address.\<close>

lemma recover_sign:
  assumes "lawful cr" and "public_eth_address cr s = Some owner"
  obtains sig where "sign cr s h = Some sig" and "length sig = 65" and "recover cr h sig = Some owner"
proof -
  from assms(2) obtain pk where pk: "public_key cr s = Some pk" "owner = eth_address cr pk"
    by (auto simp: public_eth_address_def)
  with assms(1) obtain sig r where "sign_prehash cr s h = Some (sig, r)" "length sig = 64" "r < 4"
    "recover_from_prehash cr h sig r = Some pk" unfolding lawful_def by blast
  with pk show ?thesis
    by (intro that [of "sig @ [r + 27]"]) (simp_all add: sign_def recover_def recovery_id_sign nth_append)
qed

lemma length_eth_address: "lawful cr \<Longrightarrow> length (eth_address cr pk) = 20"
  by (simp add: eth_address_def lawfulD)

subsection \<open>Binding: two inputs with one address are a Keccak collision\<close>

definition collision :: "crypto \<Rightarrow> bool" where
  "collision cr \<longleftrightarrow> (\<exists>x y. x \<noteq> y \<and> keccak256 cr x = keccak256 cr y)"

lemma keccak_eqE: "keccak256 cr x = keccak256 cr y \<Longrightarrow> x = y \<or> collision cr"
  unfolding collision_def by blast

lemma length_bmt_root: "lawful cr \<Longrightarrow> length (bmt_root cr data) = 32"
  by (subst bmt_root.simps) (simp add: hash_pair_def lawfulD Let_def)

lemma bmt_root_binding:
  assumes "lawful cr"
  shows "length x = length y \<Longrightarrow> bmt_root cr x = bmt_root cr y \<Longrightarrow> x = y \<or> collision cr"
proof (induction "length x" arbitrary: x y rule: less_induct)
  case less
  show ?case
  proof (cases "length x \<le> 2 * SECTION")
    case True
    with less.prems have "keccak256 cr x = keccak256 cr y" by (simp add: bmt_root.simps [of cr x] bmt_root.simps [of cr y])
    then show ?thesis by (rule keccak_eqE)
  next
    case False
    let ?h = "length x div 2"
    have lt: "length (take ?h x) < length x" "length (drop ?h x) < length x" using False by (auto simp: SECTION_def)
    from False less.prems have
      "keccak256 cr (bmt_root cr (take ?h x) @ bmt_root cr (drop ?h x)) =
       keccak256 cr (bmt_root cr (take ?h y) @ bmt_root cr (drop ?h y))"
      by (simp add: bmt_root.simps [of cr x] bmt_root.simps [of cr y] hash_pair_def Let_def)
    then consider "collision cr"
      | "bmt_root cr (take ?h x) = bmt_root cr (take ?h y)" "bmt_root cr (drop ?h x) = bmt_root cr (drop ?h y)"
      using keccak_eqE length_bmt_root [OF assms] by (metis append_eq_append_conv)
    then show ?thesis
    proof cases
      case 2
      with less.hyps [OF lt(1), of "take ?h y"] less.hyps [OF lt(2), of "drop ?h y"] less.prems(1)
      show ?thesis by (metis append_take_drop_id length_drop length_take)
    qed simp
  qed
qed

lemma u64_le_bytes_inject: "u64_le_bytes a = u64_le_bytes b \<longleftrightarrow> a = b"
proof
  assume eq: "u64_le_bytes a = u64_le_bytes b"
  have "byte_at i a = byte_at i b" if "i < 8" for i
  proof -
    from that have "i \<in> {0, 1, 2, 3, 4, 5, 6, 7}" by auto
    with eq show ?thesis by (auto simp: u64_le_bytes_def)
  qed
  then have bytes: "bit (byte_at (n div 8) a) (n mod 8) = bit (byte_at (n div 8) b) (n mod 8)" if "n < 64" for n
    using that by (simp add: less_mult_imp_div_less)
  show "a = b"
  proof (rule bit_word_eqI)
    fix n assume "n < LENGTH(64)"
    then show "bit a n = bit b n"
      using bytes [of n] by (simp add: byte_at_def bit_simps)
  qed
qed simp

lemma chunk_address_binding_lemma:
  assumes "lawful cr" and "chunk_address cr p = Done a" and "chunk_address cr q = Done a"
  shows "p = q \<or> collision cr"
proof -
  let ?pad = "\<lambda>p. p @ replicate (CHUNK_SIZE - length p) (0 :: u8)"
  from assms have len: "length p \<le> CHUNK_SIZE" "length q \<le> CHUNK_SIZE"
    and eq: "keccak256 cr (u64_le_bytes (of_nat (length p)) @ bmt_root cr (?pad p)) =
        keccak256 cr (u64_le_bytes (of_nat (length q)) @ bmt_root cr (?pad q))"
    by (auto simp: chunk_address_def Let_def split: if_splits)
  from keccak_eqE [OF eq] show ?thesis
  proof
    assume "u64_le_bytes (of_nat (length p)) @ bmt_root cr (?pad p) = u64_le_bytes (of_nat (length q)) @ bmt_root cr (?pad q)"
    then have "u64_le_bytes (of_nat (length p)) = u64_le_bytes (of_nat (length q))"
      and root: "bmt_root cr (?pad p) = bmt_root cr (?pad q)" by simp_all
    then have "(of_nat (length p) :: u64) = of_nat (length q)" by (simp add: u64_le_bytes_inject)
    then have same: "length p = length q"
      using len by (simp add: CHUNK_SIZE_def word_unat_eq_iff unat_of_nat)
    from bmt_root_binding [OF assms(1) _ root] same len show ?thesis by auto
  qed simp
qed

lemma length_decimal_mono: "m \<le> n \<Longrightarrow> length (decimal m) \<le> length (decimal n)"
proof (induction n arbitrary: m rule: less_induct)
  case (less n)
  show ?case
  proof (cases "n < 10")
    case True
    with less.prems show ?thesis by (simp add: decimal.simps [of n] decimal.simps [of m])
  next
    case False
    with less.IH [of "n div 10" "m div 10"] less.prems show ?thesis
      by (cases "m < 10") (simp_all add: decimal.simps [of n] decimal.simps [of m] div_le_mono)
  qed
qed

text \<open>The prefix commits to the message: the total length determines the length of the data.\<close>

lemma eth_prefixed_binding:
  assumes "eth_prefixed cr x = eth_prefixed cr y"
  shows "x = y \<or> collision cr"
proof -
  have "decimal (length x) @ x = decimal (length y) @ y \<Longrightarrow> x = y"
  proof -
    assume eq: "decimal (length x) @ x = decimal (length y) @ y"
    then have "length (decimal (length x)) + length x = length (decimal (length y)) + length y"
      by (metis length_append)
    then have "length x = length y"
      using length_decimal_mono [of "length x" "length y"] length_decimal_mono [of "length y" "length x"] by linarith
    with eq show ?thesis by simp
  qed
  with assms keccak_eqE show ?thesis unfolding eth_prefixed_def by blast
qed

text \<open>What a stamp signs commits to the chunk and to every field of the stamp.\<close>

lemma to_sign_digest_binding:
  assumes "to_sign_digest cr a b i t = to_sign_digest cr a' b' i' t'"
    and "length a = length a'" "length b = length b'" "length i = length i'"
  shows "(a = a' \<and> b = b' \<and> i = i' \<and> t = t') \<or> collision cr"
  using assms keccak_eqE unfolding to_sign_digest_def by fastforce

end
