(* ===== verification/Overlay.thy ===== *)
theory Overlay
  imports Identity Crypto
begin

section \<open>Proximity and neighbourhood: \<open>crates/overlay\<close>\<close>

text \<open>
  Proximity order over the whole address, bee's capped bin, the overlay address and the reserve of a
  node. The lemmas show that the byte loop counts common leading bits, and that a reserve is a prefix.
\<close>

unbundle bit_operations_syntax

text \<open>\<open>u8::leading_zeros\<close>: the bits from the top down to the first that is set.\<close>

definition leading_zeros :: "u8 \<Rightarrow> nat" where
  "leading_zeros x = length (takeWhile (\<lambda>i. \<not> bit x i) [7, 6, 5, 4, 3, 2, 1, 0])"

text \<open>The \<open>for\<close> loop over the byte positions, up to 32 of them.\<close>

fun proximity_loop :: "nat \<Rightarrow> bytes \<Rightarrow> bytes \<Rightarrow> u8" where
  "proximity_loop i (a # as) (b # bs) =
     (if 32 \<le> i then 255
      else (let x = a XOR b
            in if x \<noteq> 0 then of_nat i * 8 + of_nat (leading_zeros x) else proximity_loop (i + 1) as bs))"
| "proximity_loop i as bs = 255"

definition proximity :: "bytes \<Rightarrow> bytes \<Rightarrow> u8" where
  "proximity a b = proximity_loop 0 a b"

definition BEE_MAX_BIN :: u8 where
  "BEE_MAX_BIN = 31"

definition bee_wire_bin :: "u8 \<Rightarrow> u8" where
  "bee_wire_bin po = min po BEE_MAX_BIN"

definition overlay_address :: "crypto \<Rightarrow> bytes \<Rightarrow> u64 \<Rightarrow> bytes \<Rightarrow> Address" where
  "overlay_address cr eth network_id nonce = keccak256 cr (eth @ u64_le_bytes network_id @ nonce)"

record overlay_neighbourhood =
  nb_overlay :: Address
  nb_radius :: u8

definition depth_of :: "overlay_neighbourhood \<Rightarrow> Address \<Rightarrow> u8" where
  "depth_of n chunk = proximity chunk (nb_overlay n)"

definition in_reserve :: "overlay_neighbourhood \<Rightarrow> Address \<Rightarrow> bool" where
  "in_reserve n chunk \<longleftrightarrow> nb_radius n \<le> depth_of n chunk"

definition is_neighbour :: "overlay_neighbourhood \<Rightarrow> Address \<Rightarrow> bool" where
  "is_neighbour n peer \<longleftrightarrow> nb_radius n \<le> proximity peer (nb_overlay n)"

subsection \<open>Common leading bits\<close>

definition byte_bits :: "u8 \<Rightarrow> bool list" where
  "byte_bits x = map (bit x) [7, 6, 5, 4, 3, 2, 1, 0]"

definition addr_bits :: "bytes \<Rightarrow> bool list" where
  "addr_bits a = concat (map byte_bits a)"

fun common_prefix :: "bool list \<Rightarrow> bool list \<Rightarrow> nat" where
  "common_prefix (x # xs) (y # ys) = (if x = y then Suc (common_prefix xs ys) else 0)"
| "common_prefix xs ys = 0"

lemma length_byte_bits [simp]: "length (byte_bits x) = 8"
  by (simp add: byte_bits_def)

lemma length_addr_bits [simp]: "length (addr_bits a) = 8 * length a"
  by (induction a) (auto simp: addr_bits_def)

lemma common_prefix_le: "common_prefix xs ys \<le> length xs \<and> common_prefix xs ys \<le> length ys"
  by (induction xs ys rule: common_prefix.induct) auto

lemma common_prefix_same [simp]: "common_prefix (xs @ as) (xs @ bs) = length xs + common_prefix as bs"
  by (induction xs) auto

lemma common_prefix_self [simp]: "common_prefix xs xs = length xs"
  using common_prefix_same [of xs "[]" "[]"] by simp

lemma common_prefix_differ:
  "length xs = length ys \<Longrightarrow> xs \<noteq> ys \<Longrightarrow> common_prefix (xs @ as) (ys @ bs) = common_prefix xs ys"
  by (induction xs ys rule: list_induct2) auto

lemma common_prefix_sym: "common_prefix xs ys = common_prefix ys xs"
  by (induction xs ys rule: common_prefix.induct) auto

text \<open>Agreeing on \<open>k\<close> bits is having a common prefix of at least \<open>k\<close>.\<close>

lemma common_prefix_ge:
  "k \<le> length xs \<Longrightarrow> k \<le> length ys \<Longrightarrow> k \<le> common_prefix xs ys \<longleftrightarrow> take k xs = take k ys"
proof (induction xs ys arbitrary: k rule: common_prefix.induct)
  case (1 x xs y ys)
  then show ?case by (cases k) auto
qed auto

lemma common_prefix_ultrametric:
  assumes "length xs = length ys" and "length ys = length zs"
  shows "min (common_prefix xs ys) (common_prefix ys zs) \<le> common_prefix xs zs"
proof -
  let ?k = "min (common_prefix xs ys) (common_prefix ys zs)"
  have "?k \<le> length ys" using common_prefix_le [of xs ys] by linarith
  then have "take ?k xs = take ?k ys" "take ?k ys = take ?k zs"
    using common_prefix_ge [of ?k xs ys] common_prefix_ge [of ?k ys zs] assms by auto
  then show ?thesis using common_prefix_ge [of ?k xs zs] assms \<open>?k \<le> length ys\<close> by simp
qed

lemma byte_bits_inject: "byte_bits x = byte_bits y \<longleftrightarrow> x = y"
proof
  assume eq: "byte_bits x = byte_bits y"
  have "bit x n = bit y n" if "n < 8" for n
  proof -
    from that have "n \<in> {0, 1, 2, 3, 4, 5, 6, 7}" by auto
    with eq show ?thesis by (auto simp: byte_bits_def)
  qed
  then show "x = y" by (intro bit_word_eqI) simp
qed simp

lemma leading_zeros_prefix: "leading_zeros (x XOR y) = common_prefix (byte_bits x) (byte_bits y)"
  by (simp add: leading_zeros_def byte_bits_def bit_xor_iff)

lemma leading_zeros_less: "x \<noteq> 0 \<Longrightarrow> leading_zeros x < 8"
proof -
  assume "x \<noteq> 0"
  then have "byte_bits x \<noteq> byte_bits 0" by (simp add: byte_bits_inject)
  then have "common_prefix (byte_bits x) (byte_bits 0) \<noteq> 8"
    using common_prefix_ge [of 8 "byte_bits x" "byte_bits 0"] by auto
  then show ?thesis using leading_zeros_prefix [of x 0] common_prefix_le [of "byte_bits x" "byte_bits 0"] by simp
qed

lemma xor_zero_iff: "(a :: u8) XOR b = 0 \<longleftrightarrow> a = b"
  by (auto simp: bit_eq_iff bit_xor_iff)

lemma addr_bits_Cons: "addr_bits (a # as) = byte_bits a @ addr_bits as"
  by (simp add: addr_bits_def)

lemma proximity_loop_counts:
  assumes "length as = length bs" and "i + length as \<le> 32"
  shows "unat (proximity_loop i as bs) = (if as = bs then 255 else 8 * i + common_prefix (addr_bits as) (addr_bits bs))"
  using assms
proof (induction as bs arbitrary: i rule: list_induct2)
  case (Cons a as b bs)
  show ?case
  proof (cases "a = b")
    case True
    with Cons show ?thesis by (auto simp: addr_bits_Cons)
  next
    case False
    then have x: "a XOR b \<noteq> 0" by (simp add: xor_zero_iff)
    have lz: "leading_zeros (a XOR b) < 8" by (rule leading_zeros_less [OF x])
    have "unat (of_nat i * 8 + of_nat (leading_zeros (a XOR b)) :: u8) = 8 * i + leading_zeros (a XOR b)"
    proof -
      have "of_nat i * 8 + of_nat (leading_zeros (a XOR b)) = (of_nat (8 * i + leading_zeros (a XOR b)) :: u8)"
        by (simp add: mult.commute)
      then show ?thesis using lz Cons.prems by (simp only: unat_of_nat) simp
    qed
    moreover have "common_prefix (addr_bits (a # as)) (addr_bits (b # bs)) = leading_zeros (a XOR b)"
      using False by (simp add: addr_bits_Cons common_prefix_differ byte_bits_inject leading_zeros_prefix)
    ultimately show ?thesis using False x Cons.prems by (simp add: Let_def)
  qed
qed simp

lemma addr_bits_inject: "length as = length bs \<Longrightarrow> addr_bits as = addr_bits bs \<longleftrightarrow> as = bs"
  by (induction as bs rule: list_induct2) (auto simp: addr_bits_Cons byte_bits_inject addr_bits_def)

lemma proximity_counts:
  assumes "length a = 32" and "length b = 32"
  shows "unat (proximity a b) = min 255 (common_prefix (addr_bits a) (addr_bits b))"
proof (cases "a = b")
  case True
  with proximity_loop_counts [of a b 0] assms show ?thesis by (simp add: proximity_def)
next
  case False
  then have "addr_bits a \<noteq> addr_bits b" using assms by (simp add: addr_bits_inject)
  then have "\<not> 256 \<le> common_prefix (addr_bits a) (addr_bits b)"
    using common_prefix_ge [of 256 "addr_bits a" "addr_bits b"] assms by simp
  with False proximity_loop_counts [of a b 0] assms show ?thesis by (simp add: proximity_def)
qed

end
