(* ===== verification/Protobuf.thy ===== *)
theory Protobuf
  imports Prelude
begin

unbundle bit_operations_syntax

section \<open>The proto3 plumbing: \<open>crates/protobuf/src/lib.rs\<close>\<close>

text \<open>
  Varints, delimited frames and fields. A Rust function that appends to a buffer takes the buffer
  and returns it extended. A \<open>usize\<close> that is read from the wire is a \<open>u64\<close> (64-bit target): the
  additions on it wrap, and a slice whose bounds are out of order or out of range panics. The
  callback of \<open>fields\<close> (here \<open>pb_fields\<close>) becomes a function of the state it captures, and may panic.
\<close>

definition MAX_FRAME :: nat where
  "MAX_FRAME = 128 * 1024"

subsection \<open>Varints\<close>

lemma drop_bit_less: "0x80 \<le> v \<Longrightarrow> unat (drop_bit 7 v) < unat (v :: u64)"
  by (simp add: word_le_nat_alt drop_bit_eq_div unat_div)

function put_uvarint :: "bytes \<Rightarrow> u64 \<Rightarrow> bytes" where
  "put_uvarint buf v =
     (if 0x80 \<le> v then put_uvarint (buf @ [(ucast v AND 0x7f) OR 0x80]) (drop_bit 7 v)
      else buf @ [ucast v])"
  by pat_completeness auto
termination
  by (relation "measure (\<lambda>(buf, v). unat v)") (simp_all add: drop_bit_less)

declare put_uvarint.simps [simp del]

text \<open>The \<open>for\<close> loop over \<open>enumerate().take(10)\<close>: \<open>i\<close> is the index, \<open>v\<close> the accumulator.\<close>

fun uvarint_loop :: "nat \<Rightarrow> u64 \<Rightarrow> bytes \<Rightarrow> (u64 \<times> nat) option" where
  "uvarint_loop i v [] = None"
| "uvarint_loop i v (byte # rest) =
     (if 10 \<le> i then None
      else (let v' = v OR push_bit (7 * i) (ucast (byte AND 0x7f))
            in if byte AND 0x80 = 0 then Some (v', i + 1) else uvarint_loop (i + 1) v' rest))"

definition get_uvarint :: "bytes \<Rightarrow> (u64 \<times> nat) option" where
  "get_uvarint b = uvarint_loop 0 0 b"

subsection \<open>Frames\<close>

definition frame :: "bytes \<Rightarrow> bytes" where
  "frame msg = put_uvarint [] (of_nat (length msg)) @ msg"

text \<open>\<open>&b[i..j]\<close>\<close>

definition slice :: "bytes \<Rightarrow> nat \<Rightarrow> nat \<Rightarrow> bytes exec" where
  "slice b i j = (if i \<le> j \<and> j \<le> length b then Done (take (j - i) (drop i b)) else Panic)"

definition deframe :: "bytes \<Rightarrow> (bytes \<times> nat) option exec" where
  "deframe buf = (case get_uvarint buf of
      None \<Rightarrow> Done None
    | Some (len, n) \<Rightarrow>
        if MAX_FRAME < unat len then Panic
        else (let end1 = unat (of_nat n + len)
              in if length buf < end1 then Done None
                 else bind_exec (slice buf n end1) (\<lambda>msg. Done (Some (msg, end1)))))"

subsection \<open>Fields\<close>

definition put_varint_field :: "bytes \<Rightarrow> u32 \<Rightarrow> u64 \<Rightarrow> bytes" where
  "put_varint_field buf field v =
     (if v \<noteq> 0 then put_uvarint (put_uvarint buf (ucast (push_bit 3 field))) v else buf)"

definition put_bytes_field :: "bytes \<Rightarrow> u32 \<Rightarrow> bytes \<Rightarrow> bytes" where
  "put_bytes_field buf field b =
     (if b \<noteq> [] then put_uvarint (put_uvarint buf (ucast (push_bit 3 field OR 2))) (of_nat (length b)) @ b
      else buf)"

lemma uvarint_loop_bounds:
  "uvarint_loop i v b = Some (w, n) \<Longrightarrow> i < n \<and> n \<le> i + length b"
  by (induction i v b rule: uvarint_loop.induct) (auto simp: Let_def split: if_splits)

lemma get_uvarint_bounds: "get_uvarint b = Some (w, n) \<Longrightarrow> 0 < n \<and> n \<le> length b"
  using uvarint_loop_bounds [of 0 0 b w n] by (simp add: get_uvarint_def)

text \<open>
  One turn of the \<open>while\<close> loop: the field read and what is left of the message. The slices of wire
  types 0 and of the tag are within bounds by \<open>get_uvarint\<close>; that of wire type 2 may not be.
\<close>

definition next_field :: "bytes \<Rightarrow> ((u32 \<times> u8 \<times> bytes) \<times> bytes) option exec" where
  "next_field b0 = (case get_uvarint b0 of
      None \<Rightarrow> Done None
    | Some (tag, n0) \<Rightarrow>
        (let b = drop n0 b0; field = ucast (drop_bit 3 tag); wt = ucast (tag AND 7) :: u8
         in if wt = 0 then
              (case get_uvarint b of
                 None \<Rightarrow> Done None
               | Some (_, n) \<Rightarrow> Done (Some ((field, wt, take n b), drop n b)))
            else if wt = 2 then
              (case get_uvarint b of
                 None \<Rightarrow> Done None
               | Some (len, n) \<Rightarrow>
                   (let end1 = unat (of_nat n + len)
                    in if length b < end1 then Done None
                       else bind_exec (slice b n end1) (\<lambda>p. Done (Some ((field, wt, p), drop end1 b)))))
            else if wt = 5 then
              (if length b < 4 then Done None else Done (Some ((field, wt, take 4 b), drop 4 b)))
            else if wt = 1 then
              (if length b < 8 then Done None else Done (Some ((field, wt, take 8 b), drop 8 b)))
            else Done None))"

lemma next_field_shorter:
  assumes "next_field b = Done (Some (fld, rest))"
  shows "length rest < length b"
proof -
  obtain tag n0 where n0: "get_uvarint b = Some (tag, n0)"
    using assms by (auto simp: next_field_def split: option.splits)
  have "length (drop n0 b) < length b" using get_uvarint_bounds [OF n0] by auto
  moreover have "length rest \<le> length (drop n0 b)"
    using assms n0
    by (auto simp: next_field_def Let_def bind_exec_eq_Done split: option.splits if_splits prod.splits)
  ultimately show ?thesis by simp
qed

function pb_fields :: "bytes \<Rightarrow> (u32 \<Rightarrow> u8 \<Rightarrow> bytes \<Rightarrow> 's \<Rightarrow> 's exec) \<Rightarrow> 's \<Rightarrow> 's option exec" where
  "pb_fields b f s =
     (if b = [] then Done (Some s)
      else (case next_field b of
          Panic \<Rightarrow> Panic
        | Done None \<Rightarrow> Done None
        | Done (Some ((field, wt, p), rest)) \<Rightarrow>
            (case f field wt p s of
               Panic \<Rightarrow> Panic
             | Done s' \<Rightarrow> pb_fields rest f s')))"
  by pat_completeness auto
termination
  by (relation "measure (\<lambda>(b, f, s). length b)") (auto simp: next_field_shorter)

declare pb_fields.simps [simp del]

definition varint_of :: "bytes \<Rightarrow> u64" where
  "varint_of payload = (case get_uvarint payload of Some (v, _) \<Rightarrow> v | None \<Rightarrow> 0)"

subsection \<open>Varints round-trip\<close>

abbreviation uvarint :: "u64 \<Rightarrow> bytes" where
  "uvarint v \<equiv> put_uvarint [] v"

lemma put_uvarint_append: "put_uvarint buf v = buf @ uvarint v"
proof (induction "unat v" arbitrary: v buf rule: less_induct)
  case less
  show ?case
  proof (cases "0x80 \<le> v")
    case True
    have "put_uvarint (buf @ x) (drop_bit 7 v) = buf @ put_uvarint x (drop_bit 7 v)" for buf x
      using less [OF drop_bit_less [OF True], of "buf @ x"] less [OF drop_bit_less [OF True], of x] by simp
    with True show ?thesis by (simp add: put_uvarint.simps [of _ v])
  qed (simp add: put_uvarint.simps [of _ v])
qed

lemma uvarint_unfold:
  "uvarint v = (if 0x80 \<le> v then ((ucast v AND 0x7f) OR 0x80) # uvarint (drop_bit 7 v) else [ucast v])"
  by (subst put_uvarint.simps) (simp add: put_uvarint_append [of "[x]" for x])

lemma uvarint_not_Nil [simp]: "uvarint v \<noteq> []"
  by (subst uvarint_unfold) simp

text \<open>The two bit patterns of the source, \<open>0x7f\<close> and \<open>0x80\<close>, on one byte.\<close>

lemma bit_0x7f: "bit (0x7f :: u8) n \<longleftrightarrow> n < 7"
proof -
  have "(0x7f :: u8) = mask 7" by (simp add: mask_eq_exp_minus_1)
  then show ?thesis by (simp only: bit_simps) auto
qed

lemma bit_0x80: "bit (0x80 :: u8) n \<longleftrightarrow> n = 7"
proof -
  have "(0x80 :: u8) = 2 ^ 7" by simp
  then show ?thesis by (simp only: bit_simps) auto
qed

lemma and_0x80: "(b :: u8) AND 0x80 = 0 \<longleftrightarrow> \<not> bit b 7"
proof
  assume "b AND 0x80 = 0"
  then have "\<not> bit (b AND 0x80) 7" by simp
  then show "\<not> bit b 7" by (simp add: bit_and_iff bit_0x80)
next
  assume "\<not> bit b 7"
  then show "b AND 0x80 = 0" by (intro bit_word_eqI) (unfold bit_and_iff bit_0x80, auto)
qed

lemma and_0x7f: "(ucast ((b :: u8) AND 0x7f) :: u64) = take_bit 7 (ucast b)"
  by (rule bit_word_eqI) (unfold bit_ucast_iff bit_and_iff bit_0x7f bit_take_bit_iff, auto)

lemma continued_byte:
  "bit ((ucast (v :: u64) AND 0x7f) OR 0x80 :: u8) 7"
  "take_bit 7 (ucast ((ucast v AND 0x7f) OR 0x80 :: u8)) = take_bit 7 v"
  by (simp add: bit_or_iff bit_0x80)
     (rule bit_word_eqI, unfold bit_take_bit_iff bit_ucast_iff bit_or_iff bit_and_iff bit_0x7f bit_0x80, auto)

lemma last_byte:
  assumes "(v :: u64) < 0x80"
  shows "\<not> bit (ucast v :: u8) 7" and "take_bit 7 (ucast (ucast v :: u8)) = v"
proof -
  have "take_bit 7 v = v"
    using assms by (simp add: word_unat_eq_iff unsigned_take_bit_eq take_bit_nat_eq_self word_less_nat_alt)
  then have b: "bit v n \<Longrightarrow> n < 7" for n by (metis bit_take_bit_iff)
  then show "\<not> bit (ucast v :: u8) 7" by (auto simp: bit_ucast_iff)
  show "take_bit 7 (ucast (ucast v :: u8)) = v"
    using b by (intro bit_word_eqI) (fastforce simp: bit_ucast_iff bit_take_bit_iff)
qed

lemma join_groups:
  "(acc OR push_bit (7 * i) (take_bit 7 v)) OR push_bit (7 * (i + 1)) (drop_bit 7 v)
     = acc OR push_bit (7 * i) (v :: u64)"
proof (rule bit_word_eqI)
  fix n assume n: "n < LENGTH(64)"
  have "7 + (n - 7 * (i + 1)) = n - 7 * i" if "7 * (i + 1) \<le> n" using that by simp
  then show "bit ((acc OR push_bit (7 * i) (take_bit 7 v)) OR push_bit (7 * (i + 1)) (drop_bit 7 v)) n
      = bit (acc OR push_bit (7 * i) v) n"
    using n by (cases "7 * (i + 1) \<le> n")
      (auto simp: bit_or_iff bit_push_bit_iff bit_take_bit_iff bit_drop_bit_eq)
qed

lemma uvarint_loop_put:
  assumes "unat v < 2 ^ (64 - 7 * i)" and "i \<le> 9"
  shows "uvarint_loop i acc (uvarint v @ rest) = Some (acc OR push_bit (7 * i) v, i + length (uvarint v))"
  using assms
proof (induction "unat v" arbitrary: v i acc rule: less_induct)
  case less
  show ?case
  proof (cases "0x80 \<le> v")
    case True
    have big: "2 ^ 7 \<le> unat v" using True by (simp add: word_le_nat_alt)
    have "\<not> 64 - 7 * i \<le> 7"
      using big less.prems(1) by (meson not_le order_less_le_trans one_le_numeral power_increasing)
    then have i: "i \<le> 8" "64 - 7 * i = 7 + (64 - 7 * (i + 1))" by auto
    have "unat (drop_bit 7 v) = unat v div 2 ^ 7" by (simp add: drop_bit_eq_div unat_div)
    also have "\<dots> < 2 ^ (64 - 7 * (i + 1))"
      using less.prems(1) unfolding i(2) power_add by (simp add: less_mult_imp_div_less mult.commute)
    finally have small: "unat (drop_bit 7 v) < 2 ^ (64 - 7 * (i + 1))" .
    let ?acc = "acc OR push_bit (7 * i) (take_bit 7 v)"
    have "uvarint_loop i acc (uvarint v @ rest) = uvarint_loop (i + 1) ?acc (uvarint (drop_bit 7 v) @ rest)"
      using True i(1) by (simp add: uvarint_unfold [of v] Let_def and_0x80 and_0x7f continued_byte)
    also have "\<dots> = Some (?acc OR push_bit (7 * (i + 1)) (drop_bit 7 v), (i + 1) + length (uvarint (drop_bit 7 v)))"
      using less.hyps [OF drop_bit_less [OF True] small] i(1) by simp
    also have "?acc OR push_bit (7 * (i + 1)) (drop_bit 7 v) = acc OR push_bit (7 * i) v" by (rule join_groups)
    also have "(i + 1) + length (uvarint (drop_bit 7 v)) = i + length (uvarint v)"
      using True by (simp add: uvarint_unfold [of v])
    finally show ?thesis .
  next
    case False
    then have "v < 0x80" by simp
    with False less.prems(2) show ?thesis
      by (simp add: uvarint_unfold [of v] Let_def and_0x80 and_0x7f last_byte)
  qed
qed

lemma get_put_uvarint [simp]: "get_uvarint (uvarint v @ rest) = Some (v, length (uvarint v))"
  using uvarint_loop_put [of v 0 0 rest] unsigned_less [of v, where ?'a = nat]
  by (simp add: get_uvarint_def)

lemma varint_of_uvarint [simp]: "varint_of (uvarint v) = v"
  using get_put_uvarint [of v "[]"] by (simp add: varint_of_def)

lemma uvarint_loop_le: "uvarint_loop i v b = Some (w, n) \<Longrightarrow> n \<le> 10"
  by (induction i v b rule: uvarint_loop.induct) (auto simp: Let_def split: if_splits)

lemma length_uvarint: "length (uvarint v) \<le> 10"
  using get_put_uvarint [of v "[]"] unfolding get_uvarint_def by (rule uvarint_loop_le)

subsection \<open>Frames round-trip\<close>

lemma end_of_payload:
  assumes "k < 2 ^ 32"
  shows "unat (of_nat (length (uvarint v)) + of_nat k :: u64) = length (uvarint v) + k"
  and "unat (of_nat k :: u64) = k"
proof -
  have "length (uvarint v) + k < 2 ^ 64" using length_uvarint [of v] assms by simp
  then show "unat (of_nat (length (uvarint v)) + of_nat k :: u64) = length (uvarint v) + k"
    by (simp only: of_nat_add [symmetric] unat_of_nat) simp
  show "unat (of_nat k :: u64) = k" using assms by (simp add: unat_of_nat)
qed

lemma slice_middle [simp]: "slice (a @ b @ c) (length a) (length a + length b) = Done b"
  by (simp add: slice_def)

lemma deframe_frame:
  assumes "length msg \<le> MAX_FRAME"
  shows "deframe (frame msg @ rest) = Done (Some (msg, length (frame msg)))"
proof -
  have len: "length msg < 2 ^ 32" using assms by (simp add: MAX_FRAME_def)
  let ?u = "uvarint (of_nat (length msg))"
  have "get_uvarint (frame msg @ rest) = Some (of_nat (length msg), length ?u)"
    by (simp add: frame_def)
  moreover have "slice (frame msg @ rest) (length ?u) (length ?u + length msg) = Done msg"
    by (simp add: frame_def)
  ultimately show ?thesis
    using assms end_of_payload(1) [OF len, of "of_nat (length msg)"] end_of_payload(2) [OF len]
    by (simp add: deframe_def Let_def) (simp add: frame_def)
qed

text \<open>A frame that has not arrived whole is waited for: the prefix is neither decoded nor refused.\<close>

lemma uvarint_prefix: "k < length (uvarint v) \<Longrightarrow> uvarint_loop i acc (take k (uvarint v)) = None"
proof (induction "unat v" arbitrary: v k i acc rule: less_induct)
  case less
  show ?case
  proof (cases "0x80 \<le> v")
    case True
    then have "k \<noteq> 0 \<Longrightarrow> k - 1 < length (uvarint (drop_bit 7 v))"
      using less.prems by (simp add: uvarint_unfold [of v])
    with True less.hyps [OF drop_bit_less [OF True]] show ?thesis
      by (cases k) (simp_all add: uvarint_unfold [of v] Let_def and_0x80 continued_byte)
  next
    case False
    with less.prems show ?thesis by (simp add: uvarint_unfold [of v])
  qed
qed

lemma deframe_prefix:
  assumes "length msg \<le> MAX_FRAME" and "k < length (frame msg)"
  shows "deframe (take k (frame msg)) = Done None"
proof (cases "k < length (uvarint (of_nat (length msg)))")
  case True
  then have "take k (frame msg) = take k (uvarint (of_nat (length msg)))" by (simp add: frame_def)
  with True show ?thesis by (simp add: deframe_def get_uvarint_def uvarint_prefix)
next
  case False
  let ?u = "uvarint (of_nat (length msg))"
  have len: "length msg < 2 ^ 32" using assms by (simp add: MAX_FRAME_def)
  have "take k (frame msg) = ?u @ take (k - length ?u) msg" using False by (simp add: frame_def)
  with assms False end_of_payload(1) [OF len, of "of_nat (length msg)"] end_of_payload(2) [OF len] show ?thesis
    by (simp add: deframe_def Let_def frame_def)
qed

subsection \<open>Fields round-trip\<close>

text \<open>A tag holds the field number above three bits of wire type.\<close>

lemma bit_field: "field < 2 ^ 29 \<Longrightarrow> bit (field :: u32) n \<Longrightarrow> n < 29"
proof -
  assume "field < 2 ^ 29" and n: "bit field n"
  then have "take_bit 29 field = field"
    by (simp add: word_unat_eq_iff unsigned_take_bit_eq take_bit_nat_eq_self word_less_nat_alt)
  with n show "n < 29" by (metis bit_take_bit_iff)
qed

lemma bit_2: "bit (2 :: 'a::len word) n \<longleftrightarrow> n = 1 \<and> n < LENGTH('a)"
proof -
  have "(2 :: 'a word) = 2 ^ 1" by simp
  then show ?thesis by (simp only: bit_simps) auto
qed

lemma bit_7: "bit (7 :: u64) n \<longleftrightarrow> n < 3"
proof -
  have "(7 :: u64) = mask 3" by (simp add: mask_eq_exp_minus_1)
  then show ?thesis by (simp only: bit_simps) auto
qed

lemma tag_field:
  assumes "field < 2 ^ 29"
  shows "ucast (drop_bit 3 (ucast (push_bit 3 field) :: u64)) = (field :: u32)"
    and "ucast (drop_bit 3 (ucast (push_bit 3 field OR 2) :: u64)) = field"
  using bit_field [OF assms]
  by (auto intro!: bit_word_eqI simp: bit_ucast_iff bit_drop_bit_eq bit_or_iff bit_push_bit_iff bit_2 simp del: bit_numeral_word_iff)

lemma tag_wire_type:
  "(ucast ((ucast (push_bit 3 (field :: u32)) :: u64) AND 7) :: u8) = 0"
  "(ucast ((ucast (push_bit 3 field OR 2) :: u64) AND 7) :: u8) = 2"
proof -
  show "(ucast ((ucast (push_bit 3 field) :: u64) AND 7) :: u8) = 0"
    by (rule bit_word_eqI) (unfold bit_ucast_iff bit_and_iff bit_7 bit_push_bit_iff, auto)
  show "(ucast ((ucast (push_bit 3 field OR 2) :: u64) AND 7) :: u8) = 2"
    by (rule bit_word_eqI) (unfold bit_ucast_iff bit_and_iff bit_7 bit_or_iff bit_push_bit_iff bit_2, auto)
qed

lemma pb_fields_Nil [simp]: "pb_fields [] f s = Done (Some s)"
  by (simp add: pb_fields.simps)

lemma put_varint_field_append: "put_varint_field buf field v = buf @ put_varint_field [] field v"
  by (simp add: put_varint_field_def put_uvarint_append [of buf] put_uvarint_append [of "buf @ x" for x]
      put_uvarint_append [of "uvarint x" for x])

lemma put_bytes_field_append: "put_bytes_field buf field b = buf @ put_bytes_field [] field b"
  by (simp add: put_bytes_field_def put_uvarint_append [of buf] put_uvarint_append [of "buf @ x" for x]
      put_uvarint_append [of "uvarint x" for x])

lemma pb_fields_varint:
  assumes "field < 2 ^ 29"
  shows "pb_fields (put_varint_field [] field v @ rest) f s =
    (if v = 0 then pb_fields rest f s else bind_exec (f field 0 (uvarint v) s) (pb_fields rest f))"
proof (cases "v = 0")
  case False
  then have b: "put_varint_field [] field v @ rest = uvarint (ucast (push_bit 3 field)) @ uvarint v @ rest"
    by (simp add: put_varint_field_def put_uvarint_append [of "uvarint x" for x])
  have "next_field (put_varint_field [] field v @ rest) = Done (Some ((field, 0, uvarint v), rest))"
    unfolding b by (simp add: next_field_def tag_field [OF assms] tag_wire_type)
  with False b show ?thesis by (subst pb_fields.simps) (simp split: exec.split)
qed (simp add: put_varint_field_def)

lemma next_field_bytes:
  assumes "field < 2 ^ 29" and "length b < 2 ^ 32" and "b \<noteq> []"
  shows "next_field (put_bytes_field [] field b @ rest) = Done (Some ((field, 2, b), rest))"
    and "put_bytes_field [] field b \<noteq> []"
proof -
  let ?u = "uvarint (of_nat (length b))"
  have eq: "put_bytes_field [] field b @ rest = uvarint (ucast (push_bit 3 field OR 2)) @ ?u @ b @ rest"
    using assms(3) by (simp add: put_bytes_field_def put_uvarint_append [of "uvarint x" for x])
  show "next_field (put_bytes_field [] field b @ rest) = Done (Some ((field, 2, b), rest))"
    unfolding eq using end_of_payload(1) [OF assms(2), of "of_nat (length b)"]
    by (simp add: next_field_def tag_field [OF assms(1)] tag_wire_type Let_def)
  show "put_bytes_field [] field b \<noteq> []" using assms(3) by (simp add: put_bytes_field_def)
qed

lemma pb_fields_bytes:
  assumes "field < 2 ^ 29" and "length b < 2 ^ 32"
  shows "pb_fields (put_bytes_field [] field b @ rest) f s =
    (if b = [] then pb_fields rest f s else bind_exec (f field 2 b s) (pb_fields rest f))"
proof (cases "b = []")
  case False
  with next_field_bytes(1) [OF assms, of rest] next_field_bytes(2) [OF assms] show ?thesis by (subst pb_fields.simps) (simp split: exec.split)
qed (simp add: put_bytes_field_def)

text \<open>What \<open>deframe\<close> takes off the buffer is there.\<close>

lemma deframe_bounds:
  assumes "deframe buf = Done (Some (msg, n))"
  shows "0 < n \<and> n \<le> length buf \<and> length msg \<le> n"
proof -
  obtain len k where g: "get_uvarint buf = Some (len, k)"
    using assms by (auto simp: deframe_def split: option.splits)
  from assms g have "slice buf k n = Done msg" "n \<le> length buf"
    by (auto simp: deframe_def Let_def bind_exec_eq_Done split: if_splits)
  with get_uvarint_bounds [OF g] show ?thesis by (auto simp: slice_def split: if_splits)
qed

end
