(* ===== verification/Wire_Pb.thy ===== *)
theory Wire_Pb
  imports Protobuf
begin

section \<open>The pull-sync messages: \<open>crates/wire/src/pb.rs\<close>\<close>

text \<open>
  The five message shapes with their encoders and decoders, and bee's bitvector. A message type
  \<open>X\<close> is the record \<open>xxx_msg\<close>; the decoders return \<open>Panic\<close> where the field reader would.
\<close>

unbundle bit_operations_syntax

subsection \<open>Messages\<close>

record get_msg =
  get_bin :: u32
  get_start :: u64

definition Get_encode :: "get_msg \<Rightarrow> bytes" where
  "Get_encode m = put_varint_field (put_varint_field [] 1 (ucast (get_bin m))) 2 (get_start m)"

definition Get_decode :: "bytes \<Rightarrow> get_msg option exec" where
  "Get_decode b = pb_fields b (\<lambda>f _ p m. Done (
     if f = 1 then m\<lparr>get_bin := ucast (varint_of p)\<rparr>
     else if f = 2 then m\<lparr>get_start := varint_of p\<rparr> else m)) \<lparr>get_bin = 0, get_start = 0\<rparr>"

record chunk_msg =
  chunkmsg_address :: bytes
  chunk_batch_id :: bytes
  chunk_stamp_hash :: bytes

definition Chunk_encode :: "chunk_msg \<Rightarrow> bytes" where
  "Chunk_encode m = put_bytes_field (put_bytes_field (put_bytes_field [] 1 (chunkmsg_address m))
     2 (chunk_batch_id m)) 3 (chunk_stamp_hash m)"

definition Chunk_decode :: "bytes \<Rightarrow> chunk_msg option exec" where
  "Chunk_decode b = pb_fields b (\<lambda>f _ p m. Done (
     if f = 1 then m\<lparr>chunkmsg_address := p\<rparr>
     else if f = 2 then m\<lparr>chunk_batch_id := p\<rparr>
     else if f = 3 then m\<lparr>chunk_stamp_hash := p\<rparr> else m))
     \<lparr>chunkmsg_address = [], chunk_batch_id = [], chunk_stamp_hash = []\<rparr>"

record offer_msg =
  offer_topmost :: u64
  offer_chunks :: "chunk_msg list"

definition Offer_encode :: "offer_msg \<Rightarrow> bytes" where
  "Offer_encode m =
     fold (\<lambda>c b. put_bytes_field b 2 (Chunk_encode c)) (offer_chunks m)
       (put_varint_field [] 1 (offer_topmost m))"

text \<open>The callback decodes chunks as it goes: the captured state is the message and the \<open>bad\<close> flag.\<close>

definition Offer_field :: "u32 \<Rightarrow> u8 \<Rightarrow> bytes \<Rightarrow> offer_msg \<times> bool \<Rightarrow> (offer_msg \<times> bool) exec" where
  "Offer_field f wt p st = (case st of (m, bad) \<Rightarrow>
     if f = 1 then Done (m\<lparr>offer_topmost := varint_of p\<rparr>, bad)
     else if f = 2 then bind_exec (Chunk_decode p) (\<lambda>r. case r of
         Some c \<Rightarrow> Done (m\<lparr>offer_chunks := offer_chunks m @ [c]\<rparr>, bad)
       | None \<Rightarrow> Done (m, True))
     else Done (m, bad))"

definition Offer_decode :: "bytes \<Rightarrow> offer_msg option exec" where
  "Offer_decode b =
     bind_exec (pb_fields b Offer_field (\<lparr>offer_topmost = 0, offer_chunks = []\<rparr>, False)) (\<lambda>r.
       Done (case r of None \<Rightarrow> None | Some (m, bad) \<Rightarrow> if bad then None else Some m))"

record want_msg =
  want_bitvector :: bytes

definition Want_encode :: "want_msg \<Rightarrow> bytes" where
  "Want_encode m = put_bytes_field [] 1 (want_bitvector m)"

definition Want_decode :: "bytes \<Rightarrow> want_msg option exec" where
  "Want_decode b = pb_fields b (\<lambda>f _ p m. Done (if f = 1 then m\<lparr>want_bitvector := p\<rparr> else m))
     \<lparr>want_bitvector = []\<rparr>"

record delivery_msg =
  delivery_address :: bytes
  delivery_data :: bytes
  delivery_stamp :: bytes

definition Delivery_encode :: "delivery_msg \<Rightarrow> bytes" where
  "Delivery_encode m = put_bytes_field (put_bytes_field (put_bytes_field [] 1 (delivery_address m))
     2 (delivery_data m)) 3 (delivery_stamp m)"

definition Delivery_decode :: "bytes \<Rightarrow> delivery_msg option exec" where
  "Delivery_decode b = pb_fields b (\<lambda>f _ p m. Done (
     if f = 1 then m\<lparr>delivery_address := p\<rparr>
     else if f = 2 then m\<lparr>delivery_data := p\<rparr>
     else if f = 3 then m\<lparr>delivery_stamp := p\<rparr> else m))
     \<lparr>delivery_address = [], delivery_data = [], delivery_stamp = []\<rparr>"

definition Syn_encode :: "unit \<Rightarrow> bytes" where
  "Syn_encode m = []"

definition Syn_decode :: "bytes \<Rightarrow> unit option exec" where
  "Syn_decode b = Done (Some ())"

record ack_msg =
  ack_cursors :: "u64 list"
  ack_epoch :: u64

definition Ack_encode :: "ack_msg \<Rightarrow> bytes" where
  "Ack_encode m =
     (let b = (if ack_cursors m \<noteq> []
               then put_bytes_field [] 1 (fold (\<lambda>c packed. put_uvarint packed c) (ack_cursors m) [])
               else [])
      in put_varint_field b 2 (ack_epoch m))"

text \<open>The \<open>while let\<close> over a packed payload.\<close>

function unpack :: "bytes \<Rightarrow> u64 list \<Rightarrow> u64 list" where
  "unpack rest cs = (case get_uvarint rest of
      None \<Rightarrow> cs
    | Some (v, n) \<Rightarrow> if drop n rest = [] then cs @ [v] else unpack (drop n rest) (cs @ [v]))"
  by pat_completeness auto
termination
  by (relation "measure (\<lambda>(rest, cs). length rest)") (auto dest: get_uvarint_bounds)

declare unpack.simps [simp del]

definition Ack_decode :: "bytes \<Rightarrow> ack_msg option exec" where
  "Ack_decode b = pb_fields b (\<lambda>f wt p m. Done (
     if f = 1 \<and> wt = 2 then m\<lparr>ack_cursors := unpack p (ack_cursors m)\<rparr>
     else if f = 1 \<and> wt = 0 then m\<lparr>ack_cursors := ack_cursors m @ [varint_of p]\<rparr>
     else if f = 2 then m\<lparr>ack_epoch := varint_of p\<rparr> else m))
     \<lparr>ack_cursors = [], ack_epoch = 0\<rparr>"

subsection \<open>The bitvector\<close>

definition bitvector_new :: "nat \<Rightarrow> bytes" where
  "bitvector_new len = replicate (len div 8 + 1) 0"

definition bitvector_set :: "nat \<Rightarrow> bytes \<Rightarrow> bytes exec" where
  "bitvector_set i bv =
     (if i div 8 < length bv then Done (bv[i div 8 := (bv ! (i div 8)) OR push_bit (i mod 8) 1]) else Panic)"

definition bitvector_get :: "bytes \<Rightarrow> nat \<Rightarrow> bool" where
  "bitvector_get bv i \<longleftrightarrow> i div 8 < length bv \<and> (bv ! (i div 8)) AND push_bit (i mod 8) 1 \<noteq> 0"

lemma bit_one_shifted: "bit (push_bit k (1 :: u8)) n \<longleftrightarrow> n = k \<and> n < 8"
  by (auto simp: bit_push_bit_iff bit_1_iff simp del: push_bit_of_1)

lemma and_bit: "(b :: u8) AND push_bit k 1 \<noteq> 0 \<longleftrightarrow> bit b k"
proof
  assume "b AND push_bit k 1 \<noteq> 0"
  then obtain n where "bit (b AND push_bit k 1) n" by (metis bit_word_eqI bit_0_eq bot_apply bot_bool_def)
  then show "bit b k" unfolding bit_and_iff bit_one_shifted by blast
next
  assume b: "bit b k"
  then have "bit (b AND push_bit k 1) k"
    using bit_imp_le_length [OF b] unfolding bit_and_iff bit_one_shifted by simp
  then show "b AND push_bit k 1 \<noteq> 0" by (metis bit_0_eq bot_apply bot_bool_def)
qed

lemma bitvector_get_bit: "bitvector_get bv i \<longleftrightarrow> i div 8 < length bv \<and> bit (bv ! (i div 8)) (i mod 8)"
  unfolding bitvector_get_def and_bit by (rule refl)

lemma bitvector_get_new [simp]: "\<not> bitvector_get (bitvector_new n) i"
  by (auto simp: bitvector_get_bit bitvector_new_def simp del: replicate_Suc)

lemma length_bitvector_new [simp]: "length (bitvector_new n) = n div 8 + 1"
  by (simp add: bitvector_new_def)

lemma bitvector_set_ok:
  assumes "i div 8 < length bv"
  shows "\<exists>bv'. bitvector_set i bv = Done bv' \<and> length bv' = length bv
    \<and> (\<forall>j. bitvector_get bv' j \<longleftrightarrow> j = i \<or> bitvector_get bv j)"
proof -
  let ?bv = "bv[i div 8 := (bv ! (i div 8)) OR push_bit (i mod 8) 1]"
  have "bitvector_get ?bv j \<longleftrightarrow> j = i \<or> bitvector_get bv j" for j
  proof (cases "j div 8 = i div 8")
    case True
    then have "j = i \<longleftrightarrow> j mod 8 = i mod 8" by (metis div_mult_mod_eq)
    with True assms show ?thesis
      by (auto simp: bitvector_get_bit bit_or_iff bit_one_shifted simp del: push_bit_of_1)
  next
    case False
    with assms show ?thesis by (auto simp: bitvector_get_bit)
  qed
  with assms show ?thesis by (simp add: bitvector_set_def)
qed

subsection \<open>The message interface\<close>

text \<open>
  What a stream needs of a message type: what was encoded decodes to itself. \<open>sized\<close> bounds the parts
  of a message by what its length fields and the frame can carry.
\<close>

locale wire_message =
  fixes sized :: "'m \<Rightarrow> bool"
    and enc :: "'m \<Rightarrow> bytes"
    and dec :: "bytes \<Rightarrow> 'm option exec"
  assumes dec_enc: "sized m \<Longrightarrow> dec (enc m) = Done (Some m)"
begin

lemma enc_inj: "sized m \<Longrightarrow> sized m' \<Longrightarrow> enc m = enc m' \<Longrightarrow> m = m'"
  by (metis dec_enc exec.inject option.inject)

lemma framed: "sized m \<Longrightarrow> length (enc m) \<le> MAX_FRAME \<Longrightarrow>
  bind_exec (deframe (frame (enc m) @ rest)) (\<lambda>r. case r of
      None \<Rightarrow> Done None
    | Some (msg, n) \<Rightarrow> bind_exec (dec msg) (\<lambda>d. Done (map_option (\<lambda>m. (m, n)) d)))
  = Done (Some (m, length (frame (enc m))))"
  by (simp add: deframe_frame dec_enc)

end

lemmas put_fields_append =
  put_varint_field_append [of "put_varint_field [] f v" for f v]
  put_varint_field_append [of "put_bytes_field [] f v" for f v]
  put_bytes_field_append [of "put_bytes_field [] f v" for f v]
  put_bytes_field_append [of "put_bytes_field [] f v @ x" for f v x]
  put_bytes_field_append [of "put_varint_field [] f v" for f v]

lemma pb_fields_varint_end: "field < 2 ^ 29 \<Longrightarrow> pb_fields (put_varint_field [] field v) f s =
    (if v = 0 then Done (Some s) else bind_exec (f field 0 (uvarint v) s) (\<lambda>s. Done (Some s)))"
  using pb_fields_varint [of field v "[]" f s] by (cases "f field 0 (uvarint v) s") auto

lemma pb_fields_bytes_end: "field < 2 ^ 29 \<Longrightarrow> length b < 2 ^ 32 \<Longrightarrow> pb_fields (put_bytes_field [] field b) f s =
    (if b = [] then Done (Some s) else bind_exec (f field 2 b s) (\<lambda>s. Done (Some s)))"
  using pb_fields_bytes [of field b "[]" f s] by (cases "f field 2 b s") auto

lemmas pb_fields_simps = put_fields_append pb_fields_varint pb_fields_bytes pb_fields_varint_end pb_fields_bytes_end

lemma length_put_bytes_field: "length (put_bytes_field [] f b) \<le> 20 + length b"
  using length_uvarint [of "ucast (push_bit 3 f OR 2)"] length_uvarint [of "of_nat (length b)"]
  by (simp add: put_bytes_field_def put_uvarint_append [of "uvarint x" for x])

lemma length_put_varint_field: "length (put_varint_field [] f v) \<le> 20"
  using length_uvarint [of "ucast (push_bit 3 f)"] length_uvarint [of v]
  by (simp add: put_varint_field_def put_uvarint_append [of "uvarint x" for x])

interpretation get_wire: wire_message "\<lambda>_. True" Get_encode Get_decode
  by unfold_locales (auto simp: Get_encode_def Get_decode_def pb_fields_simps intro!: get_msg.equality)

definition chunk_sized :: "chunk_msg \<Rightarrow> bool" where
  "chunk_sized m \<longleftrightarrow> length (chunkmsg_address m) < 2 ^ 32 \<and> length (chunk_batch_id m) < 2 ^ 32
     \<and> length (chunk_stamp_hash m) < 2 ^ 32"

interpretation chunk_wire: wire_message chunk_sized Chunk_encode Chunk_decode
  by unfold_locales
     (auto simp: chunk_sized_def Chunk_encode_def Chunk_decode_def pb_fields_simps intro!: chunk_msg.equality)

interpretation want_wire: wire_message "\<lambda>m. length (want_bitvector m) < 2 ^ 32" Want_encode Want_decode
  by unfold_locales (auto simp: Want_encode_def Want_decode_def pb_fields_simps intro!: want_msg.equality)

definition delivery_sized :: "delivery_msg \<Rightarrow> bool" where
  "delivery_sized m \<longleftrightarrow> length (delivery_address m) < 2 ^ 32 \<and> length (delivery_data m) < 2 ^ 32
     \<and> length (delivery_stamp m) < 2 ^ 32"

interpretation delivery_wire: wire_message delivery_sized Delivery_encode Delivery_decode
  by unfold_locales
     (auto simp: delivery_sized_def Delivery_encode_def Delivery_decode_def pb_fields_simps
       intro!: delivery_msg.equality)

interpretation syn_wire: wire_message "\<lambda>_. True" Syn_encode Syn_decode
  by unfold_locales (simp add: Syn_decode_def)

text \<open>An offer: a chunk with all fields empty has the empty encoding, which the field writer omits.\<close>

definition offer_sized :: "offer_msg \<Rightarrow> bool" where
  "offer_sized m \<longleftrightarrow> list_all (\<lambda>c. chunk_sized c \<and> Chunk_encode c \<noteq> [] \<and> length (Chunk_encode c) < 2 ^ 32) (offer_chunks m)"

lemma fold_put_bytes:
  "fold (\<lambda>c b. put_bytes_field b f (g c)) cs buf = buf @ concat (map (\<lambda>c. put_bytes_field [] f (g c)) cs)"
proof (induction cs arbitrary: buf)
  case (Cons c cs)
  show ?case
    using Cons.IH [of "put_bytes_field buf f (g c)"] put_bytes_field_append [of buf f "g c"] by simp
qed simp

lemma Offer_fields_chunks:
  assumes "list_all (\<lambda>c. chunk_sized c \<and> Chunk_encode c \<noteq> [] \<and> length (Chunk_encode c) < 2 ^ 32) cs"
  shows "pb_fields (concat (map (\<lambda>c. put_bytes_field [] 2 (Chunk_encode c)) cs)) Offer_field (m, False)
    = Done (Some (m\<lparr>offer_chunks := offer_chunks m @ cs\<rparr>, False))"
  using assms
  by (induction cs arbitrary: m) (auto simp: pb_fields_bytes Offer_field_def chunk_wire.dec_enc)

interpretation offer_wire: wire_message offer_sized Offer_encode Offer_decode
  by unfold_locales
     (auto simp: offer_sized_def Offer_encode_def Offer_decode_def fold_put_bytes pb_fields_varint
       Offer_fields_chunks, auto simp: Offer_field_def Offer_fields_chunks)

definition ack_sized :: "ack_msg \<Rightarrow> bool" where
  "ack_sized m \<longleftrightarrow> length (ack_cursors m) < 2 ^ 28"

lemma fold_put_uvarint: "fold (\<lambda>c b. put_uvarint b c) cs buf = buf @ concat (map uvarint cs)"
proof (induction cs arbitrary: buf)
  case (Cons c cs)
  show ?case using Cons.IH [of "put_uvarint buf c"] put_uvarint_append [of buf c] by simp
qed simp

lemma unpack_packed: "cs \<noteq> [] \<Longrightarrow> unpack (concat (map uvarint cs)) acc = acc @ cs"
proof (induction cs arbitrary: acc)
  case (Cons c cs)
  show ?case
  proof (cases cs)
    case Nil
    then show ?thesis by (subst unpack.simps) (use get_put_uvarint [of c "[]"] in simp)
  next
    case (Cons d ds)
    then have "concat (map uvarint cs) \<noteq> []" by simp
    with Cons Cons.IH [of "acc @ [c]"] show ?thesis by (subst unpack.simps) simp
  qed
qed simp

lemma length_packed: "length (concat (map uvarint cs)) \<le> 10 * length cs"
  by (induction cs) (use length_uvarint in \<open>auto simp: add_mono\<close>)

interpretation ack_wire: wire_message ack_sized Ack_encode Ack_decode
proof unfold_locales
  fix m assume m: "ack_sized m"
  have len: "length (concat (map uvarint (ack_cursors m))) < 2 ^ 32"
    using length_packed [of "ack_cursors m"] m by (simp add: ack_sized_def)
  show "Ack_decode (Ack_encode m) = Done (Some m)"
  proof (cases "ack_cursors m = []")
    case True
    then show ?thesis
      by (auto simp: Ack_encode_def Ack_decode_def pb_fields_simps intro!: ack_msg.equality)
  next
    case False
    then have "concat (map uvarint (ack_cursors m)) \<noteq> []" by (cases "ack_cursors m") auto
    with False len show ?thesis
      by (auto simp: Ack_encode_def Ack_decode_def pb_fields_simps fold_put_uvarint unpack_packed
          simp del: concat_eq_Nil_conv intro!: ack_msg.equality)
  qed
qed

end
