(* ===== verification/Bzz.thy ===== *)
theory Bzz
  imports Overlay Wire_Pb
begin

section \<open>Network identity and handshake messages: \<open>crates/net/src/lib.rs\<close>, \<open>pb.rs\<close>\<close>

text \<open>
  The signed binding of overlay, underlay and key, its wire form and its verification, and the three
  handshake messages. Arrays are byte lists; \<open>wf_bzz\<close> states their lengths. A \<open>String\<close> is its UTF-8 bytes.
\<close>

unbundle bit_operations_syntax

definition HANDSHAKE_PREFIX :: bytes where
  "HANDSHAKE_PREFIX = map of_char ''bee-handshake-''"

definition sign_data :: "bytes \<Rightarrow> Address \<Rightarrow> u64 \<Rightarrow> bytes \<Rightarrow> u64 \<Rightarrow> bytes \<Rightarrow> bytes" where
  "sign_data underlay overlay network_id nonce timestamp chequebook =
     HANDSHAKE_PREFIX @ underlay @ overlay @ u64_be_bytes network_id @ nonce @ u64_be_bytes timestamp @ chequebook"

record bzz_address =
  bz_underlay :: bytes
  bz_overlay :: Address
  bz_signature :: bytes
  bz_nonce :: bytes
  bz_timestamp :: u64
  bz_chequebook :: bytes

definition BzzAddress_new :: "crypto \<Rightarrow> bytes \<Rightarrow> bytes \<Rightarrow> u64 \<Rightarrow> bytes \<Rightarrow> u64 \<Rightarrow> bytes \<Rightarrow> bzz_address option" where
  "BzzAddress_new cr secret underlay network_id nonce timestamp chequebook =
     Option.bind (public_eth_address cr secret) (\<lambda>eth.
       (let overlay = overlay_address cr eth network_id nonce;
            data = sign_data underlay overlay network_id nonce timestamp chequebook
        in Option.bind (sign cr secret (eth_prefixed cr data)) (\<lambda>sig.
          Some \<lparr>bz_underlay = underlay, bz_overlay = overlay, bz_signature = sig, bz_nonce = nonce,
                bz_timestamp = timestamp, bz_chequebook = chequebook\<rparr>)))"

definition BzzAddress_encode :: "bzz_address \<Rightarrow> bytes" where
  "BzzAddress_encode a =
     put_bytes_field (put_varint_field (put_bytes_field (put_bytes_field (put_bytes_field (put_bytes_field []
       1 (bz_underlay a)) 2 (bz_signature a)) 3 (bz_overlay a)) 4 (bz_nonce a)) 5 (bz_timestamp a)) 6 (bz_chequebook a)"

text \<open>The callback of \<open>decode\<close>: the captured fields and the \<open>bad\<close> flag.\<close>

definition BzzAddress_field :: "u32 \<Rightarrow> u8 \<Rightarrow> bytes \<Rightarrow> bzz_address \<times> bool \<Rightarrow> (bzz_address \<times> bool) exec" where
  "BzzAddress_field f wt p st = (case st of (a, bad) \<Rightarrow> Done (
     if f = 1 then (a\<lparr>bz_underlay := p\<rparr>, bad)
     else if f = 2 \<and> length p = 65 then (a\<lparr>bz_signature := p\<rparr>, bad)
     else if f = 3 \<and> length p = 32 then (a\<lparr>bz_overlay := p\<rparr>, bad)
     else if f = 4 \<and> length p = 32 then (a\<lparr>bz_nonce := p\<rparr>, bad)
     else if f = 5 then (a\<lparr>bz_timestamp := varint_of p\<rparr>, bad)
     else if f = 6 \<and> length p = 20 then (a\<lparr>bz_chequebook := p\<rparr>, bad)
     else if f = 2 \<or> f = 3 \<or> f = 4 \<or> f = 6 then (a, True)
     else (a, bad)))"

definition BzzAddress_decode :: "bytes \<Rightarrow> bzz_address option exec" where
  "BzzAddress_decode b =
     bind_exec (pb_fields b BzzAddress_field
       (\<lparr>bz_underlay = [], bz_overlay = replicate 32 0, bz_signature = replicate 65 0, bz_nonce = replicate 32 0,
         bz_timestamp = 0, bz_chequebook = replicate 20 0\<rparr>, False)) (\<lambda>r.
       Done (case r of None \<Rightarrow> None | Some (a, bad) \<Rightarrow> if bad then None else Some a))"

definition bzz_verify :: "crypto \<Rightarrow> bzz_address \<Rightarrow> u64 \<Rightarrow> bytes option" where
  "bzz_verify cr a network_id =
     (let data = sign_data (bz_underlay a) (bz_overlay a) network_id (bz_nonce a) (bz_timestamp a) (bz_chequebook a)
      in Option.bind (recover cr (eth_prefixed cr data) (bz_signature a)) (\<lambda>eth.
        if overlay_address cr eth network_id (bz_nonce a) = bz_overlay a then Some eth else None))"

subsection \<open>The handshake messages: \<open>pb.rs\<close>\<close>

text \<open>
  \<open>String::from_utf8_lossy\<close>: a sequence that is not UTF-8 is replaced by U+FFFD up to the byte that breaks
  it. \<open>utf8_tail\<close> gives the ranges of the bytes that may follow a leading byte.
\<close>

definition utf8_tail :: "u8 \<Rightarrow> (u8 \<times> u8) list option" where
  "utf8_tail b =
     (if b < 0x80 then Some []
      else if 0xC2 \<le> b \<and> b \<le> 0xDF then Some [(0x80, 0xBF)]
      else if b = 0xE0 then Some [(0xA0, 0xBF), (0x80, 0xBF)]
      else if b = 0xED then Some [(0x80, 0x9F), (0x80, 0xBF)]
      else if 0xE1 \<le> b \<and> b \<le> 0xEF then Some [(0x80, 0xBF), (0x80, 0xBF)]
      else if b = 0xF0 then Some [(0x90, 0xBF), (0x80, 0xBF), (0x80, 0xBF)]
      else if 0xF1 \<le> b \<and> b \<le> 0xF3 then Some [(0x80, 0xBF), (0x80, 0xBF), (0x80, 0xBF)]
      else if b = 0xF4 then Some [(0x80, 0x8F), (0x80, 0xBF), (0x80, 0xBF)]
      else None)"

fun matching :: "(u8 \<times> u8) list \<Rightarrow> bytes \<Rightarrow> nat" where
  "matching ((lo, hi) # rs) (b # bs) = (if lo \<le> b \<and> b \<le> hi then Suc (matching rs bs) else 0)"
| "matching rs bs = 0"

function from_utf8_lossy :: "bytes \<Rightarrow> bytes" where
  "from_utf8_lossy [] = []"
| "from_utf8_lossy (b # bs) = (case utf8_tail b of
      None \<Rightarrow> [0xEF, 0xBF, 0xBD] @ from_utf8_lossy bs
    | Some rs \<Rightarrow> (let k = matching rs bs
        in (if k = length rs then b # take k bs else [0xEF, 0xBF, 0xBD]) @ from_utf8_lossy (drop k bs)))"
  by pat_completeness auto
termination
  by (relation "measure length") auto

declare from_utf8_lossy.simps(2) [simp del]

record hs_syn =
  syn_observed :: bytes

definition HsSyn_encode :: "hs_syn \<Rightarrow> bytes" where
  "HsSyn_encode m = put_bytes_field [] 1 (syn_observed m)"

definition HsSyn_decode :: "bytes \<Rightarrow> hs_syn option exec" where
  "HsSyn_decode b = pb_fields b (\<lambda>f _ p m. Done (if f = 1 then m\<lparr>syn_observed := p\<rparr> else m)) \<lparr>syn_observed = []\<rparr>"

record hs_ack =
  hack_address :: bzz_address
  hack_network_id :: u64
  hack_full_node :: bool
  hack_welcome :: bytes

definition HsAck_encode :: "hs_ack \<Rightarrow> bytes" where
  "HsAck_encode m =
     put_bytes_field (put_varint_field (put_varint_field (put_bytes_field []
       1 (BzzAddress_encode (hack_address m))) 2 (hack_network_id m)) 3 (of_bool (hack_full_node m))) 99 (hack_welcome m)"

text \<open>The callback: the optional address and the three scalars.\<close>

definition HsAck_field ::
  "u32 \<Rightarrow> u8 \<Rightarrow> bytes \<Rightarrow> bzz_address option \<times> u64 \<times> bool \<times> bytes \<Rightarrow> (bzz_address option \<times> u64 \<times> bool \<times> bytes) exec" where
  "HsAck_field f wt p st = (case st of (a, net, full, welcome) \<Rightarrow>
     if f = 1 then bind_exec (BzzAddress_decode p) (\<lambda>a'. Done (a', net, full, welcome))
     else if f = 2 then Done (a, varint_of p, full, welcome)
     else if f = 3 then Done (a, net, varint_of p \<noteq> 0, welcome)
     else if f = 99 then Done (a, net, full, from_utf8_lossy p)
     else Done st)"

definition HsAck_decode :: "bytes \<Rightarrow> hs_ack option exec" where
  "HsAck_decode b =
     bind_exec (pb_fields b HsAck_field (None, 0, False, [])) (\<lambda>r. Done (case r of
         Some (Some a, net, full, welcome) \<Rightarrow>
           Some \<lparr>hack_address = a, hack_network_id = net, hack_full_node = full, hack_welcome = welcome\<rparr>
       | _ \<Rightarrow> None))"

record hs_synack =
  sa_syn :: hs_syn
  sa_ack :: hs_ack

definition HsSynAck_encode :: "hs_synack \<Rightarrow> bytes" where
  "HsSynAck_encode m = put_bytes_field (put_bytes_field [] 1 (HsSyn_encode (sa_syn m))) 2 (HsAck_encode (sa_ack m))"

definition HsSynAck_field ::
  "u32 \<Rightarrow> u8 \<Rightarrow> bytes \<Rightarrow> hs_syn option \<times> hs_ack option \<Rightarrow> (hs_syn option \<times> hs_ack option) exec" where
  "HsSynAck_field f wt p st = (case st of (syn, ack) \<Rightarrow>
     if f = 1 then bind_exec (HsSyn_decode p) (\<lambda>syn'. Done (syn', ack))
     else if f = 2 then bind_exec (HsAck_decode p) (\<lambda>ack'. Done (syn, ack'))
     else Done st)"

definition HsSynAck_decode :: "bytes \<Rightarrow> hs_synack option exec" where
  "HsSynAck_decode b =
     bind_exec (pb_fields b HsSynAck_field (None, None)) (\<lambda>r. Done (case r of
         Some (Some syn, Some ack) \<Rightarrow> Some \<lparr>sa_syn = syn, sa_ack = ack\<rparr>
       | _ \<Rightarrow> None))"

subsection \<open>Round trips\<close>

definition wf_bzz :: "bzz_address \<Rightarrow> bool" where
  "wf_bzz a \<longleftrightarrow> length (bz_signature a) = 65 \<and> length (bz_overlay a) = 32 \<and> length (bz_nonce a) = 32
     \<and> length (bz_chequebook a) = 20 \<and> length (bz_underlay a) < 2 ^ 16"

lemmas put_fields_flat =
  put_bytes_field_append [of "put_bytes_field x y z" for x y z]
  put_bytes_field_append [of "put_varint_field x y z" for x y z]
  put_varint_field_append [of "put_bytes_field x y z" for x y z]
  put_varint_field_append [of "put_varint_field x y z" for x y z]
  put_bytes_field_append [of "x @ y" for x y]
  put_varint_field_append [of "x @ y" for x y]

interpretation bzz_wire: wire_message wf_bzz BzzAddress_encode BzzAddress_decode
proof unfold_locales
  fix a assume wf: "wf_bzz a"
  then have "bz_signature a \<noteq> []" "bz_overlay a \<noteq> []" "bz_nonce a \<noteq> []" "bz_chequebook a \<noteq> []"
    by (auto simp: wf_bzz_def)
  with wf show "BzzAddress_decode (BzzAddress_encode a) = Done (Some a)"
    by (auto simp: BzzAddress_encode_def BzzAddress_decode_def put_fields_flat pb_fields_varint pb_fields_bytes
        pb_fields_bytes_end BzzAddress_field_def wf_bzz_def intro!: bzz_address.equality)
qed

lemma length_BzzAddress_encode: "wf_bzz a \<Longrightarrow> length (BzzAddress_encode a) < 2 ^ 17"
  using length_put_bytes_field [of 1 "bz_underlay a"] length_put_bytes_field [of 2 "bz_signature a"]
    length_put_bytes_field [of 3 "bz_overlay a"] length_put_bytes_field [of 4 "bz_nonce a"]
    length_put_varint_field [of 5 "bz_timestamp a"] length_put_bytes_field [of 6 "bz_chequebook a"]
  by (simp add: BzzAddress_encode_def put_fields_flat wf_bzz_def)

lemma BzzAddress_encode_not_Nil: "wf_bzz a \<Longrightarrow> BzzAddress_encode a \<noteq> []"
  by (auto simp: BzzAddress_encode_def put_fields_flat wf_bzz_def put_bytes_field_def [of "[]"])

interpretation hs_syn_wire: wire_message "\<lambda>m. length (syn_observed m) < 2 ^ 32" HsSyn_encode HsSyn_decode
  by unfold_locales (auto simp: HsSyn_encode_def HsSyn_decode_def pb_fields_bytes_end intro!: hs_syn.equality)

definition wf_hack :: "hs_ack \<Rightarrow> bool" where
  "wf_hack m \<longleftrightarrow> wf_bzz (hack_address m) \<and> from_utf8_lossy (hack_welcome m) = hack_welcome m
     \<and> length (hack_welcome m) < 2 ^ 16"

lemma length_HsAck_encode: "wf_hack m \<Longrightarrow> length (HsAck_encode m) < 2 ^ 18"
  using length_put_bytes_field [of 1 "BzzAddress_encode (hack_address m)"] length_BzzAddress_encode [of "hack_address m"]
    length_put_varint_field [of 2 "hack_network_id m"] length_put_varint_field [of 3 "of_bool (hack_full_node m)"]
    length_put_bytes_field [of 99 "hack_welcome m"]
  by (simp add: HsAck_encode_def put_fields_flat wf_hack_def)

lemma HsAck_encode_not_Nil: "wf_hack m \<Longrightarrow> HsAck_encode m \<noteq> []"
  using BzzAddress_encode_not_Nil [of "hack_address m"]
  by (auto simp: HsAck_encode_def put_fields_flat wf_hack_def put_bytes_field_def [of "[]"])

interpretation hs_ack_wire: wire_message wf_hack HsAck_encode HsAck_decode
proof unfold_locales
  fix m assume wf: "wf_hack m"
  have a: "BzzAddress_encode (hack_address m) \<noteq> []" "length (BzzAddress_encode (hack_address m)) < 2 ^ 32"
    using wf BzzAddress_encode_not_Nil length_BzzAddress_encode [of "hack_address m"] by (auto simp: wf_hack_def)
  from wf a show "HsAck_decode (HsAck_encode m) = Done (Some m)"
    by (auto simp: HsAck_encode_def HsAck_decode_def put_fields_flat pb_fields_varint pb_fields_bytes
        pb_fields_bytes_end HsAck_field_def bzz_wire.dec_enc wf_hack_def intro!: hs_ack.equality)
qed

text \<open>A \<open>SynAck\<close> round-trips when it observed something: an empty \<open>Syn\<close> has the empty encoding, which is omitted.\<close>

definition wf_synack :: "hs_synack \<Rightarrow> bool" where
  "wf_synack m \<longleftrightarrow> wf_hack (sa_ack m) \<and> syn_observed (sa_syn m) \<noteq> [] \<and> length (syn_observed (sa_syn m)) < 2 ^ 16"

lemma length_HsSyn_encode: "length (syn_observed m) < 2 ^ 16 \<Longrightarrow> length (HsSyn_encode m) < 2 ^ 17"
  using length_put_bytes_field [of 1 "syn_observed m"] by (simp add: HsSyn_encode_def)

interpretation hs_synack_wire: wire_message wf_synack HsSynAck_encode HsSynAck_decode
proof unfold_locales
  fix m assume wf: "wf_synack m"
  have "HsSyn_encode (sa_syn m) \<noteq> []" "length (HsSyn_encode (sa_syn m)) < 2 ^ 32"
    using wf length_HsSyn_encode [of "sa_syn m"] by (auto simp: wf_synack_def HsSyn_encode_def put_bytes_field_def)
  moreover have "HsAck_encode (sa_ack m) \<noteq> []" "length (HsAck_encode (sa_ack m)) < 2 ^ 32"
    using wf length_HsAck_encode [of "sa_ack m"] by (auto simp: wf_synack_def HsAck_encode_not_Nil)
  ultimately show "HsSynAck_decode (HsSynAck_encode m) = Done (Some m)"
    using wf by (auto simp: HsSynAck_encode_def HsSynAck_decode_def put_fields_flat pb_fields_bytes
        pb_fields_bytes_end HsSynAck_field_def hs_syn_wire.dec_enc hs_ack_wire.dec_enc wf_synack_def intro!: hs_synack.equality)
qed

lemma HsSynAck_drops_empty_syn:
  assumes "wf_hack ack"
  shows "HsSynAck_decode (HsSynAck_encode \<lparr>sa_syn = \<lparr>syn_observed = []\<rparr>, sa_ack = ack\<rparr>) = Done None"
proof -
  have "HsAck_encode ack \<noteq> []" "length (HsAck_encode ack) < 2 ^ 32"
    using assms length_HsAck_encode [of ack] HsAck_encode_not_Nil by auto
  with assms show ?thesis
    by (auto simp: HsSynAck_encode_def HsSynAck_decode_def HsSyn_encode_def put_bytes_field_def [of _ 1]
        pb_fields_bytes_end HsSynAck_field_def hs_ack_wire.dec_enc)
qed

subsection \<open>The binding\<close>

lemma length_recovered: "lawful cr \<Longrightarrow> recover cr h sig = Some eth \<Longrightarrow> length eth = 20"
  by (auto simp: recover_def bind_eq_Some_conv length_eth_address split: if_splits)

lemma BzzAddress_new_verifies:
  assumes "lawful cr" and "BzzAddress_new cr secret underlay net nonce ts cheq = Some a"
  shows "bzz_verify cr a net = public_eth_address cr secret"
    and "length nonce = 32 \<Longrightarrow> length cheq = 20 \<Longrightarrow> length underlay < 2 ^ 16 \<Longrightarrow> wf_bzz a"
proof -
  from assms(2) obtain eth sig where eth: "public_eth_address cr secret = Some eth"
    and sig: "sign cr secret (eth_prefixed cr (sign_data underlay (overlay_address cr eth net nonce) net nonce ts cheq)) = Some sig"
    and a: "a = \<lparr>bz_underlay = underlay, bz_overlay = overlay_address cr eth net nonce, bz_signature = sig,
        bz_nonce = nonce, bz_timestamp = ts, bz_chequebook = cheq\<rparr>"
    by (auto simp: BzzAddress_new_def bind_eq_Some_conv Let_def)
  obtain sig' where "sign cr secret (eth_prefixed cr (sign_data underlay (overlay_address cr eth net nonce) net nonce ts cheq)) = Some sig'"
    "length sig' = 65" "recover cr (eth_prefixed cr (sign_data underlay (overlay_address cr eth net nonce) net nonce ts cheq)) sig' = Some eth"
    by (rule recover_sign [OF assms(1) eth])
  with sig eth a show "bzz_verify cr a net = public_eth_address cr secret"
    and "length nonce = 32 \<Longrightarrow> length cheq = 20 \<Longrightarrow> length underlay < 2 ^ 16 \<Longrightarrow> wf_bzz a"
    using assms(1) by (auto simp: bzz_verify_def Let_def wf_bzz_def overlay_address_def lawfulD)
qed

text \<open>An overlay commits to key, network and nonce.\<close>

lemma overlay_commitment:
  assumes "overlay_address cr e net n = overlay_address cr e' net' n'" and "length e = length e'"
  shows "(e = e' \<and> net = net' \<and> n = n') \<or> collision cr"
  using assms keccak_eqE unfolding overlay_address_def by (fastforce simp: u64_le_bytes_inject)

lemma u64_be_bytes_inject: "u64_be_bytes a = u64_be_bytes b \<longleftrightarrow> a = b"
  by (simp add: u64_be_bytes_def u64_le_bytes_inject)

text \<open>The signed bytes determine every field: all but the underlay have a fixed length.\<close>

lemma sign_data_inject:
  assumes "sign_data u ov net n ts ch = sign_data u' ov' net' n' ts' ch'"
    and "length ov = length ov'" "length n = length n'" "length ch = length ch'"
  shows "u = u' \<and> ov = ov' \<and> net = net' \<and> n = n' \<and> ts = ts' \<and> ch = ch'"
proof -
  have "length u = length u'" using arg_cong [OF assms(1), of length] assms(2-4) by (simp add: sign_data_def)
  with assms show ?thesis by (simp add: sign_data_def u64_be_bytes_inject)
qed

end
