(* ===== verification/Handshake.thy ===== *)
theory Handshake
  imports Bzz Transition
begin

section \<open>The handshake exchange: \<open>crates/net/src/handshake.rs\<close>\<close>

text \<open>
  The driver of both roles as a function of its state and the bytes that arrived. \<open>poll\<close> and its helpers
  return the output with the state they leave; \<open>deframe\<close> and the decoders may panic.
\<close>

datatype role = Initiator | Responder

datatype hs_out = HsSend bytes | HsNeed | HsDone bytes | HsFailed

datatype hs_step = Start | AwaitSynAck | AwaitSyn | AwaitAck | Finish bytes | StepFailed

record handshake =
  hs_role :: role
  hs_mine :: bzz_address
  hs_network_id :: u64
  hs_full_node :: bool
  hs_observed :: bytes
  hs_step :: hs_step
  hs_buf :: bytes
  hs_peer_overlay :: "bytes option"

definition Handshake_new :: "role \<Rightarrow> bzz_address \<Rightarrow> u64 \<Rightarrow> bool \<Rightarrow> bytes \<Rightarrow> handshake" where
  "Handshake_new role mine network_id full_node observed =
     \<lparr>hs_role = role, hs_mine = mine, hs_network_id = network_id, hs_full_node = full_node, hs_observed = observed,
      hs_step = Start, hs_buf = [], hs_peer_overlay = None\<rparr>"

definition my_ack :: "handshake \<Rightarrow> hs_ack" where
  "my_ack h = \<lparr>hack_address = hs_mine h, hack_network_id = hs_network_id h, hack_full_node = hs_full_node h,
     hack_welcome = []\<rparr>"

definition hs_check :: "crypto \<Rightarrow> hs_ack \<Rightarrow> handshake \<Rightarrow> bytes option \<times> handshake" where
  "hs_check cr ack h =
     (if hack_network_id ack \<noteq> hs_network_id h then (None, h)
      else (case bzz_verify cr (hack_address ack) (hs_network_id h) of
          None \<Rightarrow> (None, h)
        | Some eth \<Rightarrow> (Some eth, h\<lparr>hs_peer_overlay := Some (bz_overlay (hack_address ack))\<rparr>)))"

definition drive_responder :: "handshake \<Rightarrow> (hs_out \<times> handshake) exec" where
  "drive_responder h = bind_exec (deframe (hs_buf h)) (\<lambda>r. case r of
      None \<Rightarrow> Done (HsNeed, h)
    | Some (msg, n) \<Rightarrow>
        (let h1 = h\<lparr>hs_buf := drop n (hs_buf h)\<rparr>
         in bind_exec (HsSyn_decode msg) (\<lambda>syn. case syn of
              None \<Rightarrow> Done (HsFailed, h1\<lparr>hs_step := StepFailed\<rparr>)
            | Some _ \<Rightarrow>
                Done (HsSend (frame (HsSynAck_encode \<lparr>sa_syn = \<lparr>syn_observed = hs_observed h1\<rparr>, sa_ack = my_ack h1\<rparr>)),
                      h1\<lparr>hs_step := AwaitAck\<rparr>))))"

definition await_synack :: "crypto \<Rightarrow> handshake \<Rightarrow> (hs_out \<times> handshake) exec" where
  "await_synack cr h = bind_exec (deframe (hs_buf h)) (\<lambda>r. case r of
      None \<Rightarrow> Done (HsNeed, h)
    | Some (msg, n) \<Rightarrow>
        (let h1 = h\<lparr>hs_buf := drop n (hs_buf h)\<rparr>
         in bind_exec (HsSynAck_decode msg) (\<lambda>sa.
              (case sa of
                 None \<Rightarrow> Done (HsFailed, h1\<lparr>hs_step := StepFailed\<rparr>)
               | Some m \<Rightarrow> (case hs_check cr (sa_ack m) h1 of
                     (Some eth, h2) \<Rightarrow> Done (HsSend (frame (HsAck_encode (my_ack h2))), h2\<lparr>hs_step := Finish eth\<rparr>)
                   | (None, h2) \<Rightarrow> Done (HsFailed, h2\<lparr>hs_step := StepFailed\<rparr>))))))"

definition await_ack :: "crypto \<Rightarrow> handshake \<Rightarrow> (hs_out \<times> handshake) exec" where
  "await_ack cr h = bind_exec (deframe (hs_buf h)) (\<lambda>r. case r of
      None \<Rightarrow> Done (HsNeed, h)
    | Some (msg, n) \<Rightarrow>
        (let h1 = h\<lparr>hs_buf := drop n (hs_buf h)\<rparr>
         in bind_exec (HsAck_decode msg) (\<lambda>a.
              (case a of
                 None \<Rightarrow> Done (HsFailed, h1\<lparr>hs_step := StepFailed\<rparr>)
               | Some ack \<Rightarrow> (case hs_check cr ack h1 of
                     (Some eth, h2) \<Rightarrow> Done (HsDone eth, h2\<lparr>hs_step := Finish eth\<rparr>)
                   | (None, h2) \<Rightarrow> Done (HsFailed, h2\<lparr>hs_step := StepFailed\<rparr>))))))"

definition hs_poll :: "crypto \<Rightarrow> bytes \<Rightarrow> handshake \<Rightarrow> (hs_out \<times> handshake) exec" where
  "hs_poll cr input h0 =
     (let h = h0\<lparr>hs_buf := hs_buf h0 @ input\<rparr>
      in case hs_step h of
          Finish eth \<Rightarrow> Done (HsDone eth, h)
        | StepFailed \<Rightarrow> Done (HsFailed, h)
        | Start \<Rightarrow> (case hs_role h of
              Initiator \<Rightarrow> Done (HsSend (frame (HsSyn_encode \<lparr>syn_observed = hs_observed h\<rparr>)), h\<lparr>hs_step := AwaitSynAck\<rparr>)
            | Responder \<Rightarrow> drive_responder (h\<lparr>hs_step := AwaitSyn\<rparr>))
        | AwaitSynAck \<Rightarrow> (case hs_role h of Initiator \<Rightarrow> await_synack cr h | Responder \<Rightarrow> Done (HsFailed, h))
        | AwaitSyn \<Rightarrow> (case hs_role h of Initiator \<Rightarrow> Done (HsFailed, h) | Responder \<Rightarrow> drive_responder h)
        | AwaitAck \<Rightarrow> (case hs_role h of Initiator \<Rightarrow> Done (HsFailed, h) | Responder \<Rightarrow> await_ack cr h))"

subsection \<open>Whatever the peer sends\<close>

text \<open>
  A finished driver holds the address of a key it has seen a binding for, on its own network, and the
  overlay of that binding. It keeps role, identity and network throughout.
\<close>

definition vouched :: "crypto \<Rightarrow> handshake \<Rightarrow> bytes \<Rightarrow> bool" where
  "vouched cr h eth \<longleftrightarrow> (\<exists>a. bzz_verify cr a (hs_network_id h) = Some eth \<and> hs_peer_overlay h = Some (bz_overlay a))"

definition hs_inv :: "crypto \<Rightarrow> handshake \<Rightarrow> bool" where
  "hs_inv cr h \<longleftrightarrow> (case hs_step h of
      Finish eth \<Rightarrow> vouched cr h eth
    | StepFailed \<Rightarrow> True
    | AwaitSynAck \<Rightarrow> hs_role h = Initiator \<and> hs_peer_overlay h = None
    | AwaitSyn \<Rightarrow> hs_role h = Responder \<and> hs_peer_overlay h = None
    | AwaitAck \<Rightarrow> hs_role h = Responder \<and> hs_peer_overlay h = None
    | Start \<Rightarrow> hs_peer_overlay h = None)"

definition hs_post :: "crypto \<Rightarrow> handshake \<Rightarrow> hs_out \<Rightarrow> handshake \<Rightarrow> bool" where
  "hs_post cr h out h' \<longleftrightarrow> hs_inv cr h' \<and> hs_network_id h' = hs_network_id h \<and> hs_mine h' = hs_mine h
     \<and> (\<forall>eth. out = HsDone eth \<longrightarrow> hs_step h' = Finish eth)
     \<and> (out = HsFailed \<longrightarrow> hs_step h' = StepFailed)"

lemma hs_check_cases:
  assumes "hs_check cr ack h = (r, h')"
  obtains (ok) eth where "r = Some eth" "h' = h\<lparr>hs_peer_overlay := Some (bz_overlay (hack_address ack))\<rparr>" "vouched cr h' eth"
    | (bad) "r = None" "h' = h"
proof (cases "hack_network_id ack = hs_network_id h \<and> bzz_verify cr (hack_address ack) (hs_network_id h) \<noteq> None")
  case True
  then obtain eth where "bzz_verify cr (hack_address ack) (hs_network_id h) = Some eth" by blast
  with True assms show ?thesis by (intro ok [of eth]) (auto simp: hs_check_def vouched_def)
next
  case False
  with assms bad show ?thesis by (auto simp: hs_check_def split: if_splits)
qed

lemma hs_postI:
  assumes "hs_inv cr h'" "hs_network_id h' = hs_network_id h" "hs_mine h' = hs_mine h"
    and "\<And>eth. out = HsDone eth \<Longrightarrow> hs_step h' = Finish eth" and "out = HsFailed \<Longrightarrow> hs_step h' = StepFailed"
  shows "hs_post cr h out h'"
  using assms by (simp add: hs_post_def)

lemma drive_responder_post:
  assumes "drive_responder h = Done (out, h')" and "hs_inv cr h" and "hs_step h = AwaitSyn"
  shows "hs_post cr h out h'"
proof -
  from assms(1) obtain d where d: "deframe (hs_buf h) = Done d"
    by (cases "deframe (hs_buf h)") (simp_all add: drive_responder_def)
  show ?thesis
  proof (cases d)
    case None
    with d assms show ?thesis by (auto simp: drive_responder_def intro!: hs_postI)
  next
    case (Some mn)
    obtain msg n where mn: "mn = (msg, n)" by (cases mn)
    from assms(1) d Some mn obtain syn where syn: "HsSyn_decode msg = Done syn"
      by (cases "HsSyn_decode msg") (simp_all add: drive_responder_def)
    with assms d Some mn show ?thesis
      by (cases syn) (auto simp: drive_responder_def hs_inv_def Let_def intro!: hs_postI)
  qed
qed

text \<open>The two arms that read an identity differ in the message and in what they return on success.\<close>

lemma await_post:
  assumes r: "bind_exec (deframe (hs_buf h)) (\<lambda>r. case r of
      None \<Rightarrow> Done (HsNeed, h)
    | Some (msg, n) \<Rightarrow>
        (let h1 = h\<lparr>hs_buf := drop n (hs_buf h)\<rparr>
         in bind_exec (dec msg) (\<lambda>a.
              (case a of
                 None \<Rightarrow> Done (HsFailed, h1\<lparr>hs_step := StepFailed\<rparr>)
               | Some m \<Rightarrow> (case hs_check cr (ack_of m) h1 of
                     (Some eth, h2) \<Rightarrow> Done (success eth h2, h2\<lparr>hs_step := Finish eth\<rparr>)
                   | (None, h2) \<Rightarrow> Done (HsFailed, h2\<lparr>hs_step := StepFailed\<rparr>)))))) = Done (out, h')"
    and inv: "hs_inv cr h" "hs_step h \<noteq> StepFailed" "\<And>e. hs_step h \<noteq> Finish e"
    and success: "\<And>eth h2 e. success eth h2 = HsDone e \<Longrightarrow> eth = e" "\<And>eth h2. success eth h2 \<noteq> HsFailed"
  shows "hs_post cr h out h'"
proof -
  from r obtain d where d: "deframe (hs_buf h) = Done d" by (cases "deframe (hs_buf h)") simp_all
  show ?thesis
  proof (cases d)
    case None
    with d r inv show ?thesis by (auto intro!: hs_postI)
  next
    case (Some mn)
    obtain msg n where mn: "mn = (msg, n)" by (cases mn)
    let ?h1 = "h\<lparr>hs_buf := drop n (hs_buf h)\<rparr>"
    from r d Some mn obtain a where a: "dec msg = Done a" by (cases "dec msg") simp_all
    show ?thesis
    proof (cases a)
      case None
      with r d Some mn a show ?thesis by (auto simp: hs_inv_def intro!: hs_postI)
    next
      case m: (Some m)
      obtain v h2 where v: "hs_check cr (ack_of m) ?h1 = (v, h2)" by (cases "hs_check cr (ack_of m) ?h1")
      from v show ?thesis
      proof (cases rule: hs_check_cases)
        case (ok eth)
        with r d Some mn a m v have "out = success eth h2" "h' = h2\<lparr>hs_step := Finish eth\<rparr>" by auto
        with ok success(2) show ?thesis by (auto simp: hs_inv_def vouched_def intro!: hs_postI dest!: success(1))
      next
        case bad
        with r d Some mn a m v have "out = HsFailed" "h' = h2\<lparr>hs_step := StepFailed\<rparr>" by auto
        with bad show ?thesis by (auto simp: hs_inv_def intro!: hs_postI)
      qed
    qed
  qed
qed

lemma hs_poll_post:
  assumes "hs_poll cr input h = Done (out, h')" and "hs_inv cr h"
  shows "hs_post cr h out h'"
proof -
  let ?h = "h\<lparr>hs_buf := hs_buf h @ input\<rparr>"
  have inv: "hs_inv cr ?h" using assms(2) by (cases "hs_step h") (simp_all add: hs_inv_def vouched_def)
  have same: "hs_post cr ?h out h' \<Longrightarrow> hs_post cr h out h'" by (simp add: hs_post_def)
  show ?thesis
  proof (cases "hs_step h")
    case Start
    show ?thesis
    proof (cases "hs_role h")
      case Initiator
      with Start assms show ?thesis by (auto simp: hs_poll_def hs_inv_def intro!: hs_postI)
    next
      case Responder
      with Start assms have "drive_responder (?h\<lparr>hs_step := AwaitSyn\<rparr>) = Done (out, h')" "hs_inv cr (?h\<lparr>hs_step := AwaitSyn\<rparr>)"
        by (simp_all add: hs_poll_def hs_inv_def)
      from drive_responder_post [OF this] show ?thesis by (simp add: hs_post_def)
    qed
  next
    case AwaitSynAck
    with assms have "await_synack cr ?h = Done (out, h')" by (simp add: hs_poll_def hs_inv_def)
    from await_post [OF this [unfolded await_synack_def] inv] AwaitSynAck show ?thesis by (intro same) simp_all
  next
    case AwaitSyn
    with assms have "drive_responder ?h = Done (out, h')" by (simp add: hs_poll_def hs_inv_def)
    from drive_responder_post [OF this inv] AwaitSyn show ?thesis by (intro same) simp
  next
    case AwaitAck
    with assms have "await_ack cr ?h = Done (out, h')" by (simp add: hs_poll_def hs_inv_def)
    from await_post [OF this [unfolded await_ack_def] inv] AwaitAck show ?thesis by (intro same) simp_all
  next
    case (Finish eth)
    with assms inv show ?thesis by (auto simp: hs_poll_def intro!: hs_postI)
  next
    case StepFailed
    with assms inv show ?thesis by (auto simp: hs_poll_def intro!: hs_postI)
  qed
qed

text \<open>A driver polled with any sequence of inputs.\<close>

definition hs_start :: "handshake \<Rightarrow> bool" where
  "hs_start h \<longleftrightarrow> hs_step h = Start \<and> hs_peer_overlay h = None"

inductive hs_polled :: "crypto \<Rightarrow> handshake \<Rightarrow> handshake \<Rightarrow> bool" for cr where
  polled: "hs_poll cr input h = Done (out, h') \<Longrightarrow> hs_polled cr h h'"

inductive_cases hs_polledE: "hs_polled cr h h'"

interpretation hs: safety hs_start "hs_polled cr" "hs_inv cr" for cr
proof unfold_locales
  show "hs_inv cr h" if "hs_start h" for cr h using that by (simp add: hs_start_def hs_inv_def)
  show "hs_inv cr t" if "hs_inv cr h" "hs_polled cr h t" for cr h t
    using that hs_poll_post by (auto elim!: hs_polledE simp: hs_post_def)
qed

lemma hs_polled_keeps:
  assumes "(hs_polled cr)\<^sup>*\<^sup>* h t" and "hs_inv cr h"
  shows "hs_network_id t = hs_network_id h \<and> hs_mine t = hs_mine h"
  by (rule hs.run_relation [OF assms]) (auto elim!: hs_polledE dest!: hs_poll_post simp: hs_post_def)

subsection \<open>An honest pair\<close>

lemma my_ack_wf: "wf_bzz (hs_mine h) \<Longrightarrow> wf_hack (my_ack h)"
  by (simp add: wf_hack_def my_ack_def)

text \<open>Bindings of ordinary size: the underlay is what makes a message long.\<close>

definition small_bzz :: "bzz_address \<Rightarrow> bool" where
  "small_bzz a \<longleftrightarrow> wf_bzz a \<and> length (bz_underlay a) \<le> 1024"

lemma length_small_ack:
  assumes "small_bzz (hs_mine h)"
  shows "length (HsAck_encode (my_ack h)) \<le> 2048"
proof -
  let ?a = "hs_mine h"
  have "length (BzzAddress_encode ?a) \<le> 1500"
    using assms length_put_bytes_field [of 1 "bz_underlay ?a"] length_put_bytes_field [of 2 "bz_signature ?a"]
      length_put_bytes_field [of 3 "bz_overlay ?a"] length_put_bytes_field [of 4 "bz_nonce ?a"]
      length_put_varint_field [of 5 "bz_timestamp ?a"] length_put_bytes_field [of 6 "bz_chequebook ?a"]
    by (simp add: BzzAddress_encode_def put_fields_flat wf_bzz_def small_bzz_def)
  then show ?thesis
    using length_put_bytes_field [of 1 "BzzAddress_encode ?a"] length_put_varint_field [of 2 "hs_network_id h"]
      length_put_varint_field [of 3 "of_bool (hs_full_node h)"]
    by (simp add: HsAck_encode_def put_fields_flat my_ack_def put_bytes_field_def [of _ 99])
qed

lemma length_small_syn: "length obs \<le> 1024 \<Longrightarrow> length (HsSyn_encode \<lparr>syn_observed = obs\<rparr>) \<le> 1044"
  using length_put_bytes_field [of 1 obs] by (simp add: HsSyn_encode_def)

lemma deframe_alone: "length msg \<le> MAX_FRAME \<Longrightarrow> deframe (frame msg) = Done (Some (msg, length (frame msg)))"
  using deframe_frame [of msg "[]"] by simp

text \<open>The three messages of the exchange, as each side frames them.\<close>

definition syn_of :: "bytes \<Rightarrow> bytes" where
  "syn_of obs = HsSyn_encode \<lparr>syn_observed = obs\<rparr>"

definition synack_of :: "bytes \<Rightarrow> handshake \<Rightarrow> bytes" where
  "synack_of obs h = HsSynAck_encode \<lparr>sa_syn = \<lparr>syn_observed = obs\<rparr>, sa_ack = my_ack h\<rparr>"

lemma length_synack_of:
  assumes "small_bzz (hs_mine h)" and "length obs \<le> 1024"
  shows "length (synack_of obs h) \<le> MAX_FRAME"
  using length_put_bytes_field [of 1 "HsSyn_encode \<lparr>syn_observed = obs\<rparr>"] length_small_syn [OF assms(2)]
    length_put_bytes_field [of 2 "HsAck_encode (my_ack h)"] length_small_ack [OF assms(1)]
  by (simp add: synack_of_def HsSynAck_encode_def put_fields_flat MAX_FRAME_def)

lemma responder_replies:
  assumes "length obs \<le> 1024"
  shows "hs_poll cr (frame (syn_of obs)) (Handshake_new Responder b net full obs_r) =
    Done (HsSend (frame (synack_of obs_r (Handshake_new Responder b net full obs_r))),
          (Handshake_new Responder b net full obs_r)\<lparr>hs_step := AwaitAck\<rparr>)"
proof -
  have "length (syn_of obs) \<le> MAX_FRAME" using length_small_syn [OF assms] by (simp add: syn_of_def MAX_FRAME_def)
  moreover have "HsSyn_decode (syn_of obs) = Done (Some \<lparr>syn_observed = obs\<rparr>)"
    using hs_syn_wire.dec_enc [of "\<lparr>syn_observed = obs\<rparr>"] assms by (simp add: syn_of_def)
  ultimately show ?thesis
    by (simp add: hs_poll_def Handshake_new_def drive_responder_def deframe_alone Let_def synack_of_def my_ack_def)
qed

lemma initiator_opens:
  "hs_poll cr [] (Handshake_new Initiator a net full obs) =
     Done (HsSend (frame (syn_of obs)), (Handshake_new Initiator a net full obs)\<lparr>hs_step := AwaitSynAck\<rparr>)"
  by (simp add: hs_poll_def Handshake_new_def syn_of_def)

lemma initiator_accepts:
  assumes "small_bzz b" and "bzz_verify cr b net = Some eb" and "obs_r \<noteq> []" and "length obs_r \<le> 1024"
  shows "hs_poll cr (frame (synack_of obs_r (Handshake_new Responder b net full' obs_r)))
      ((Handshake_new Initiator a net full obs)\<lparr>hs_step := AwaitSynAck\<rparr>) =
    Done (HsSend (frame (HsAck_encode (my_ack (Handshake_new Initiator a net full obs)))),
      (Handshake_new Initiator a net full obs)\<lparr>hs_step := Finish eb, hs_peer_overlay := Some (bz_overlay b)\<rparr>)"
proof -
  let ?r = "Handshake_new Responder b net full' obs_r"
  let ?m = "\<lparr>sa_syn = \<lparr>syn_observed = obs_r\<rparr>, sa_ack = my_ack ?r\<rparr>"
  have b: "small_bzz (hs_mine ?r)" using assms(1) by (simp add: Handshake_new_def)
  have "wf_synack ?m" using b assms my_ack_wf [of ?r] by (simp add: wf_synack_def small_bzz_def)
  then have "HsSynAck_decode (synack_of obs_r ?r) = Done (Some ?m)" by (simp add: synack_of_def hs_synack_wire.dec_enc)
  moreover have "deframe (frame (synack_of obs_r ?r)) = Done (Some (synack_of obs_r ?r, length (frame (synack_of obs_r ?r))))"
    by (rule deframe_alone [OF length_synack_of [OF b assms(4)]])
  ultimately show ?thesis
    using assms(2) by (simp add: hs_poll_def await_synack_def Let_def hs_check_def Handshake_new_def my_ack_def)
qed

lemma responder_accepts:
  assumes "small_bzz a" and "bzz_verify cr a net = Some ea"
  shows "hs_poll cr (frame (HsAck_encode (my_ack (Handshake_new Initiator a net full obs))))
      ((Handshake_new Responder b net full' obs_r)\<lparr>hs_step := AwaitAck\<rparr>) =
    Done (HsDone ea, (Handshake_new Responder b net full' obs_r)\<lparr>hs_step := Finish ea, hs_peer_overlay := Some (bz_overlay a)\<rparr>)"
proof -
  let ?i = "Handshake_new Initiator a net full obs"
  have a: "small_bzz (hs_mine ?i)" using assms(1) by (simp add: Handshake_new_def)
  have "HsAck_decode (HsAck_encode (my_ack ?i)) = Done (Some (my_ack ?i))"
    using a my_ack_wf [of ?i] by (simp add: hs_ack_wire.dec_enc small_bzz_def)
  moreover have "length (HsAck_encode (my_ack ?i)) \<le> MAX_FRAME" using length_small_ack [OF a] by (simp add: MAX_FRAME_def)
  ultimately show ?thesis
    using assms(2) by (simp add: hs_poll_def await_ack_def Let_def hs_check_def deframe_alone Handshake_new_def my_ack_def)
qed

text \<open>A responder that observed nothing sends a \<open>SynAck\<close> the initiator cannot decode.\<close>

lemma initiator_refuses_empty_observed:
  assumes "small_bzz b"
  shows "\<exists>h. hs_poll cr (frame (synack_of [] (Handshake_new Responder b net full' [])))
      ((Handshake_new Initiator a net full obs)\<lparr>hs_step := AwaitSynAck\<rparr>) = Done (HsFailed, h)"
proof -
  let ?r = "Handshake_new Responder b net full' []"
  have b: "small_bzz (hs_mine ?r)" using assms(1) by (simp add: Handshake_new_def)
  have "HsSynAck_decode (synack_of [] ?r) = Done None"
    unfolding synack_of_def by (rule HsSynAck_drops_empty_syn) (use b my_ack_wf [of ?r] in \<open>simp add: small_bzz_def\<close>)
  moreover have "deframe (frame (synack_of [] ?r)) = Done (Some (synack_of [] ?r, length (frame (synack_of [] ?r))))"
    by (rule deframe_alone [OF length_synack_of [OF b]]) simp
  ultimately show ?thesis by (simp add: hs_poll_def await_synack_def Let_def Handshake_new_def)
qed

end
