(* ===== verification/Hive.thy ===== *)
theory Hive
  imports Handshake
begin

section \<open>Peer discovery: \<open>crates/net/src/hive.rs\<close>\<close>

text \<open>
  The batched push of signed addresses and the receiver that verifies them. \<open>decode_peers\<close> ignores
  whether the fields were read to the end, so it is its own loop: what was decoded before a malformed
  field is kept.
\<close>

definition MAX_BATCH :: nat where
  "MAX_BATCH = 30"

definition encode_peers :: "bzz_address list \<Rightarrow> bytes" where
  "encode_peers addrs = fold (\<lambda>a b. put_bytes_field b 1 (BzzAddress_encode a)) addrs []"

function decode_peers_loop :: "bytes \<Rightarrow> bzz_address list \<Rightarrow> bzz_address list exec" where
  "decode_peers_loop b out =
     (if b = [] then Done out
      else (case next_field b of
          Panic \<Rightarrow> Panic
        | Done None \<Rightarrow> Done out
        | Done (Some ((f, _, p), rest)) \<Rightarrow>
            if f = 1 then (case BzzAddress_decode p of
                Panic \<Rightarrow> Panic
              | Done (Some a) \<Rightarrow> decode_peers_loop rest (out @ [a])
              | Done None \<Rightarrow> decode_peers_loop rest out)
            else decode_peers_loop rest out))"
  by pat_completeness auto
termination
  by (relation "measure (\<lambda>(b, out). length b)") (auto simp: next_field_shorter)

declare decode_peers_loop.simps [simp del]

definition decode_peers :: "bytes \<Rightarrow> bzz_address list exec" where
  "decode_peers b = decode_peers_loop b []"

text \<open>\<open>chunks(MAX_BATCH)\<close>\<close>

function peer_batches :: "bzz_address list \<Rightarrow> bzz_address list list" where
  "peer_batches addrs = (if addrs = [] then [] else take MAX_BATCH addrs # peer_batches (drop MAX_BATCH addrs))"
  by pat_completeness auto
termination
  by (relation "measure length") (auto simp: MAX_BATCH_def)

declare peer_batches.simps [simp del]

definition broadcast_frames :: "bzz_address list \<Rightarrow> bytes" where
  "broadcast_frames addrs = concat (map (\<lambda>batch. frame (encode_peers batch)) (peer_batches addrs))"

record discovered_peer =
  dp_overlay :: bytes
  dp_underlay :: bytes
  dp_eth :: bytes

record hive_receiver =
  hv_network_id :: u64
  hv_buf :: bytes
  hv_peers :: "discovered_peer list"

definition HiveReceiver_new :: "u64 \<Rightarrow> hive_receiver" where
  "HiveReceiver_new network_id = \<lparr>hv_network_id = network_id, hv_buf = [], hv_peers = []\<rparr>"

text \<open>The inner \<open>for\<close>: the addresses of one message that verify.\<close>

definition verified_peers :: "crypto \<Rightarrow> u64 \<Rightarrow> bzz_address list \<Rightarrow> discovered_peer list" where
  "verified_peers cr net addrs = List.map_filter (\<lambda>a. map_option
     (\<lambda>eth. \<lparr>dp_overlay = bz_overlay a, dp_underlay = bz_underlay a, dp_eth = eth\<rparr>) (bzz_verify cr a net)) addrs"

function hive_loop :: "crypto \<Rightarrow> hive_receiver \<Rightarrow> hive_receiver exec" where
  "hive_loop cr rx = (case deframe (hv_buf rx) of
      Panic \<Rightarrow> Panic
    | Done None \<Rightarrow> Done rx
    | Done (Some (msg, n)) \<Rightarrow> (case decode_peers msg of
          Panic \<Rightarrow> Panic
        | Done addrs \<Rightarrow> hive_loop cr (rx\<lparr>hv_buf := drop n (hv_buf rx),
            hv_peers := hv_peers rx @ verified_peers cr (hv_network_id rx) addrs\<rparr>)))"
  by pat_completeness auto
termination
  by (relation "measure (\<lambda>(cr, rx). length (hv_buf rx))") (auto dest!: deframe_bounds)

declare hive_loop.simps [simp del]

definition hive_feed :: "crypto \<Rightarrow> bytes \<Rightarrow> hive_receiver \<Rightarrow> hive_receiver exec" where
  "hive_feed cr input rx = hive_loop cr (rx\<lparr>hv_buf := hv_buf rx @ input\<rparr>)"

text \<open>\<open>receive_peers\<close> over the reads of a stream; an empty read or the end of the script is the end of the stream.\<close>

fun receive_loop :: "crypto \<Rightarrow> bytes list \<Rightarrow> hive_receiver \<Rightarrow> hive_receiver exec" where
  "receive_loop cr [] rx = Done rx"
| "receive_loop cr (b # bs) rx = (if b = [] then Done rx else bind_exec (hive_feed cr b rx) (receive_loop cr bs))"

definition receive_peers :: "crypto \<Rightarrow> bytes list \<Rightarrow> u64 \<Rightarrow> discovered_peer list exec" where
  "receive_peers cr reads network_id =
     bind_exec (receive_loop cr reads (HiveReceiver_new network_id)) (\<lambda>rx. Done (hv_peers rx))"

subsection \<open>Fragments\<close>

lemma uvarint_loop_append: "uvarint_loop i v b = Some r \<Longrightarrow> uvarint_loop i v (b @ c) = Some r"
  by (induction i v b rule: uvarint_loop.induct) (auto simp: Let_def split: if_splits)

lemma get_uvarint_append: "get_uvarint b = Some r \<Longrightarrow> get_uvarint (b @ c) = Some r"
  by (simp add: get_uvarint_def uvarint_loop_append)

lemma deframe_Panic_iff: "deframe b = Panic \<longleftrightarrow> (\<exists>len n. get_uvarint b = Some (len, n) \<and> MAX_FRAME < unat len)"
proof (cases "get_uvarint b")
  case (Some ln)
  obtain len n where ln: "ln = (len, n)" by (cases ln)
  have n: "n \<le> 10" using Some ln uvarint_loop_le [of 0 0 b len n] by (simp add: get_uvarint_def)
  have "n \<le> unat (of_nat n + len)" if "unat len \<le> MAX_FRAME"
    using that n by (simp add: unat_word_ariths unat_of_nat MAX_FRAME_def)
  with Some ln show ?thesis by (auto simp: deframe_def Let_def slice_def)
qed (simp add: deframe_def)

lemma deframe_append_Some:
  assumes "deframe b = Done (Some (msg, n))"
  shows "deframe (b @ c) = Done (Some (msg, n))"
proof -
  obtain len k where g: "get_uvarint b = Some (len, k)"
    using assms by (auto simp: deframe_def split: option.splits)
  with assms have "\<not> MAX_FRAME < unat len" "n = unat (of_nat k + len)" "n \<le> length b" "slice b k n = Done msg"
    by (auto simp: deframe_def Let_def bind_exec_eq_Done split: if_splits)
  moreover from this have "slice (b @ c) k n = Done msg" by (auto simp: slice_def split: if_splits)
  ultimately show ?thesis using get_uvarint_append [OF g, of c] by (simp add: deframe_def Let_def)
qed

lemma deframe_append_Panic: "deframe b = Panic \<Longrightarrow> deframe (b @ c) = Panic"
  unfolding deframe_Panic_iff using get_uvarint_append by blast

text \<open>Feeding two fragments is feeding them joined.\<close>

lemma hive_loop_append:
  "hive_loop cr (rx\<lparr>hv_buf := hv_buf rx @ c\<rparr>) =
     bind_exec (hive_loop cr rx) (\<lambda>rx1. hive_loop cr (rx1\<lparr>hv_buf := hv_buf rx1 @ c\<rparr>))"
proof (induction cr rx rule: hive_loop.induct)
  case (1 cr rx)
  show ?case
  proof (cases "deframe (hv_buf rx)")
    case Panic
    then show ?thesis
      by (simp add: hive_loop.simps [of cr rx] hive_loop.simps [of cr "rx\<lparr>hv_buf := hv_buf rx @ c\<rparr>"] deframe_append_Panic)
  next
    case (Done r)
    show ?thesis
    proof (cases r)
      case None
      with Done show ?thesis by (simp add: hive_loop.simps [of cr rx])
    next
      case (Some mn)
      obtain msg n where mn: "mn = (msg, n)" by (cases mn)
      have d: "deframe (hv_buf rx @ c) = Done (Some (msg, n))" using Done Some mn deframe_append_Some by simp
      have n: "n \<le> length (hv_buf rx)" using deframe_bounds Done Some mn by simp
      show ?thesis
      proof (cases "decode_peers msg")
        case Panic
        with Done Some mn d show ?thesis
          by (simp add: hive_loop.simps [of cr rx] hive_loop.simps [of cr "rx\<lparr>hv_buf := hv_buf rx @ c\<rparr>"])
      next
        case addrs: (Done addrs)
        let ?rx = "rx\<lparr>hv_buf := drop n (hv_buf rx), hv_peers := hv_peers rx @ verified_peers cr (hv_network_id rx) addrs\<rparr>"
        have IH: "hive_loop cr (?rx\<lparr>hv_buf := hv_buf ?rx @ c\<rparr>) =
            bind_exec (hive_loop cr ?rx) (\<lambda>rx1. hive_loop cr (rx1\<lparr>hv_buf := hv_buf rx1 @ c\<rparr>))"
          by (rule "1.IH") (use Done Some mn addrs in auto)
        have eq: "?rx\<lparr>hv_buf := hv_buf ?rx @ c\<rparr> = rx\<lparr>hv_buf := drop n (hv_buf rx) @ c,
            hv_peers := hv_peers rx @ verified_peers cr (hv_network_id rx) addrs\<rparr>"
          by (cases rx) simp
        show ?thesis using IH [unfolded eq] Done Some mn d addrs n
          by (simp add: hive_loop.simps [of cr rx] hive_loop.simps [of cr "rx\<lparr>hv_buf := hv_buf rx @ c\<rparr>"])
      qed
    qed
  qed
qed

lemma hive_feed_append: "hive_feed cr (b @ c) rx = bind_exec (hive_feed cr b rx) (hive_feed cr c)"
  using hive_loop_append [of cr "rx\<lparr>hv_buf := hv_buf rx @ b\<rparr>" c]
  unfolding hive_feed_def by (simp add: hive_feed_def [abs_def])

lemma receive_fragments:
  assumes "[] \<notin> set frags" and "frags \<noteq> []"
  shows "receive_loop cr frags rx = hive_feed cr (concat frags) rx"
  using assms
proof (induction frags arbitrary: rx)
  case (Cons b bs)
  show ?case
  proof (cases "bs = []")
    case True
    with Cons.prems show ?thesis by (cases "hive_feed cr b rx") simp_all
  next
    case False
    have "receive_loop cr (b # bs) rx = bind_exec (hive_feed cr b rx) (receive_loop cr bs)" using Cons.prems by auto
    also have "\<dots> = bind_exec (hive_feed cr b rx) (hive_feed cr (concat bs))"
      using Cons.IH Cons.prems False by (cases "hive_feed cr b rx") simp_all
    finally show ?thesis by (simp add: hive_feed_append)
  qed
qed simp

subsection \<open>A push arrives\<close>

lemma small_bzz_encode: "small_bzz a \<Longrightarrow> length (BzzAddress_encode a) \<le> 1500"
  using length_put_bytes_field [of 1 "bz_underlay a"] length_put_bytes_field [of 2 "bz_signature a"]
    length_put_bytes_field [of 3 "bz_overlay a"] length_put_bytes_field [of 4 "bz_nonce a"]
    length_put_varint_field [of 5 "bz_timestamp a"] length_put_bytes_field [of 6 "bz_chequebook a"]
  by (simp add: BzzAddress_encode_def put_fields_flat wf_bzz_def small_bzz_def)

lemma encode_peers_concat: "encode_peers addrs = concat (map (\<lambda>a. put_bytes_field [] 1 (BzzAddress_encode a)) addrs)"
  by (simp add: encode_peers_def fold_put_bytes)

lemma decode_encode_peers:
  assumes "\<forall>a \<in> set addrs. small_bzz a"
  shows "decode_peers_loop (concat (map (\<lambda>a. put_bytes_field [] 1 (BzzAddress_encode a)) addrs)) out = Done (out @ addrs)"
  using assms
proof (induction addrs arbitrary: out)
  case (Cons a addrs)
  let ?rest = "concat (map (\<lambda>a. put_bytes_field [] 1 (BzzAddress_encode a)) addrs)"
  have a: "small_bzz a" "wf_bzz a" using Cons.prems by (simp_all add: small_bzz_def)
  have "BzzAddress_encode a \<noteq> []" "length (BzzAddress_encode a) < 2 ^ 32"
    using a BzzAddress_encode_not_Nil small_bzz_encode [of a] by auto
  then have "next_field (put_bytes_field [] 1 (BzzAddress_encode a) @ ?rest) = Done (Some ((1, 2, BzzAddress_encode a), ?rest))"
    "put_bytes_field [] 1 (BzzAddress_encode a) \<noteq> []"
    using next_field_bytes(1) [of 1 "BzzAddress_encode a" ?rest] next_field_bytes(2) [of 1 "BzzAddress_encode a"] by simp_all
  with Cons a show ?case
    by (simp add: decode_peers_loop.simps [of "put_bytes_field [] 1 (BzzAddress_encode a) @ ?rest"] bzz_wire.dec_enc)
qed (simp add: decode_peers_loop.simps)

lemma batch_fits:
  assumes "\<forall>a \<in> set addrs. small_bzz a" and "length addrs \<le> MAX_BATCH"
  shows "length (encode_peers addrs) \<le> MAX_FRAME"
proof -
  have "length (put_bytes_field [] 1 (BzzAddress_encode a)) \<le> 1520" if "a \<in> set addrs" for a
    using that assms(1) small_bzz_encode [of a] length_put_bytes_field [of 1 "BzzAddress_encode a"] by force
  then have "length (encode_peers addrs) \<le> 1520 * length addrs"
    unfolding encode_peers_concat by (induction addrs) (auto simp: add_mono)
  with assms(2) show ?thesis by (simp add: MAX_BATCH_def MAX_FRAME_def)
qed

lemma verified_peers_append: "verified_peers cr net (xs @ ys) = verified_peers cr net xs @ verified_peers cr net ys"
  by (simp add: verified_peers_def List.map_filter_def)

lemma hive_loop_batches:
  assumes "\<forall>a \<in> set addrs. small_bzz a"
  shows "hive_loop cr \<lparr>hv_network_id = net, hv_buf = broadcast_frames addrs, hv_peers = ps\<rparr> =
     Done \<lparr>hv_network_id = net, hv_buf = [], hv_peers = ps @ verified_peers cr net addrs\<rparr>"
  using assms
proof (induction addrs arbitrary: ps rule: peer_batches.induct)
  case (1 addrs)
  show ?case
  proof (cases "addrs = []")
    case True
    then show ?thesis
      by (simp add: broadcast_frames_def peer_batches.simps hive_loop.simps verified_peers_def deframe_def get_uvarint_def
          List.map_filter_def)
  next
    case False
    let ?b = "take MAX_BATCH addrs" and ?r = "drop MAX_BATCH addrs"
    have small: "\<forall>a \<in> set ?b. small_bzz a" "\<forall>a \<in> set ?r. small_bzz a"
      using 1(2) set_take_subset [of MAX_BATCH addrs] set_drop_subset [of MAX_BATCH addrs] by blast+
    have fr: "broadcast_frames addrs = frame (encode_peers ?b) @ broadcast_frames ?r"
      using False by (simp add: broadcast_frames_def peer_batches.simps [of addrs])
    have "deframe (frame (encode_peers ?b) @ broadcast_frames ?r) = Done (Some (encode_peers ?b, length (frame (encode_peers ?b))))"
      by (rule deframe_frame [OF batch_fits [OF small(1)]]) simp
    moreover have "decode_peers (encode_peers ?b) = Done ?b"
      using decode_encode_peers [OF small(1), of "[]"] by (simp add: decode_peers_def encode_peers_concat)
    ultimately have "hive_loop cr \<lparr>hv_network_id = net, hv_buf = broadcast_frames addrs, hv_peers = ps\<rparr> =
        hive_loop cr \<lparr>hv_network_id = net, hv_buf = broadcast_frames ?r, hv_peers = ps @ verified_peers cr net ?b\<rparr>"
      unfolding fr by (subst hive_loop.simps) simp
    also have "\<dots> = Done \<lparr>hv_network_id = net, hv_buf = [], hv_peers = (ps @ verified_peers cr net ?b) @ verified_peers cr net ?r\<rparr>"
      by (rule 1(1) [OF False small(2)])
    finally show ?thesis by (simp flip: verified_peers_append)
  qed
qed

text \<open>For any bytes: what a receiver holds has verified.\<close>

lemma verified_peers_sound:
  "p \<in> set (verified_peers cr net addrs) \<Longrightarrow> \<exists>a. bzz_verify cr a net = Some (dp_eth p) \<and> dp_overlay p = bz_overlay a \<and> dp_underlay p = bz_underlay a"
  by (fastforce simp: verified_peers_def List.map_filter_def)

definition hive_sound :: "crypto \<Rightarrow> hive_receiver \<Rightarrow> bool" where
  "hive_sound cr rx \<longleftrightarrow> (\<forall>p \<in> set (hv_peers rx). \<exists>a. bzz_verify cr a (hv_network_id rx) = Some (dp_eth p)
     \<and> dp_overlay p = bz_overlay a \<and> dp_underlay p = bz_underlay a)"

lemma hive_loop_sound: "hive_loop cr rx = Done rx' \<Longrightarrow> hive_sound cr rx \<Longrightarrow> hive_sound cr rx' \<and> hv_network_id rx' = hv_network_id rx"
proof (induction cr rx rule: hive_loop.induct)
  case (1 cr rx)
  from "1.prems"(1) obtain r where d: "deframe (hv_buf rx) = Done r"
    by (cases "deframe (hv_buf rx)") (simp_all add: hive_loop.simps [of cr rx])
  show ?case
  proof (cases r)
    case None
    with d "1.prems" show ?thesis by (simp add: hive_loop.simps [of cr rx])
  next
    case (Some mn)
    obtain msg n where mn: "mn = (msg, n)" by (cases mn)
    from "1.prems"(1) d Some mn obtain addrs where addrs: "decode_peers msg = Done addrs"
      by (cases "decode_peers msg") (simp_all add: hive_loop.simps [of cr rx])
    let ?rx = "rx\<lparr>hv_buf := drop n (hv_buf rx), hv_peers := hv_peers rx @ verified_peers cr (hv_network_id rx) addrs\<rparr>"
    have "hive_loop cr ?rx = Done rx'" using "1.prems"(1) d Some mn addrs by (simp add: hive_loop.simps [of cr rx])
    moreover have "hive_sound cr ?rx" using "1.prems"(2) verified_peers_sound by (fastforce simp: hive_sound_def)
    ultimately show ?thesis using "1.IH" [OF d Some mn [symmetric] addrs] by simp
  qed
qed

end
