(* ===== verification/Adapter.thy ===== *)
theory Adapter
  imports Node Wire_Pb
begin

section \<open>The bee-wire adapter: \<open>crates/wire/src/adapter.rs\<close>\<close>

text \<open>
  The pollers of the two streams, client and server side, over the message codecs. The trait
  \<open>TripleCodec\<close> is a record of functions, \<open>ServeReserve\<close> likewise: every operation takes the
  implementation it is given (\<open>validate\<close> may panic: the implementations hash what was delivered). A poller takes the bytes that arrived and returns what it wants next.
\<close>

record triple_codec =
  tc_address :: "triple \<Rightarrow> bytes"
  tc_batch_id :: "triple \<Rightarrow> bytes"
  tc_stamp_hash :: "triple \<Rightarrow> bytes"
  tc_stamp :: "triple \<Rightarrow> bytes"
  tc_data :: "triple \<Rightarrow> bytes"
  tc_triple_of :: "bytes \<Rightarrow> bytes \<Rightarrow> bytes \<Rightarrow> triple option"
  tc_triple_of_delivery :: "delivery_msg \<Rightarrow> triple option"
  tc_validate :: "triple \<Rightarrow> delivery_msg \<Rightarrow> outcome exec"

datatype client_out =
    CSend bytes
  | CNeed
  | CCursors "(Bin \<times> BinId) list" u64
  | COfferDone "(BinId \<times> triple) list" BinId
  | CFetchDone "(triple \<times> outcome) list"

text \<open>\<open>expect\<close> on the result of a decoder.\<close>

definition expect :: "'a option exec \<Rightarrow> 'a exec" where
  "expect e = bind_exec e (\<lambda>r. case r of Some a \<Rightarrow> Done a | None \<Rightarrow> Panic)"

definition triple_of_chunk :: "triple_codec \<Rightarrow> chunk_msg \<Rightarrow> triple option" where
  "triple_of_chunk codec ch =
     tc_triple_of codec (chunkmsg_address ch) (chunk_batch_id ch) (chunk_stamp_hash ch)"

subsection \<open>The cursors stream\<close>

record cursors_client =
  cc_buf :: bytes
  cc_sent :: bool

definition CursorsClient_new :: cursors_client where
  "CursorsClient_new = \<lparr>cc_buf = [], cc_sent = False\<rparr>"

definition cursors_poll :: "bytes \<Rightarrow> cursors_client \<Rightarrow> (client_out \<times> cursors_client) exec" where
  "cursors_poll input cl =
     (if \<not> cc_sent cl then Done (CSend (frame (Syn_encode ())), cl\<lparr>cc_sent := True\<rparr>)
      else (let buf = cc_buf cl @ input
            in bind_exec (deframe buf) (\<lambda>r. case r of
                Some (msg, n) \<Rightarrow>
                  bind_exec (expect (Ack_decode msg)) (\<lambda>ack.
                    Done (CCursors (map (\<lambda>(b, h). (of_nat b, h)) (enumerate 0 (ack_cursors ack))) (ack_epoch ack),
                          cl\<lparr>cc_buf := drop n buf\<rparr>))
              | None \<Rightarrow> Done (CNeed, cl\<lparr>cc_buf := buf\<rparr>))))"

subsection \<open>The advertisement leg\<close>

record offer_client =
  oc_bin :: Bin
  oc_start :: BinId
  oc_buf :: bytes
  oc_sent :: bool

definition OfferClient_new :: "Bin \<Rightarrow> BinId \<Rightarrow> offer_client" where
  "OfferClient_new bin start = \<lparr>oc_bin = bin, oc_start = start, oc_buf = [], oc_sent = False\<rparr>"

text \<open>The synthetic positions: entry \<open>i\<close> of an offer for \<open>[start, ...]\<close> is filed at \<open>start + i\<close>.\<close>

definition offer_refs :: "triple_codec \<Rightarrow> BinId \<Rightarrow> chunk_msg list \<Rightarrow> (BinId \<times> triple) list" where
  "offer_refs codec start chunks =
     List.map_filter (\<lambda>(i, ch). map_option (\<lambda>t. (start + of_nat i, t)) (triple_of_chunk codec ch))
       (enumerate 0 chunks)"

definition offer_poll :: "triple_codec \<Rightarrow> bytes \<Rightarrow> offer_client \<Rightarrow> (client_out \<times> offer_client) exec" where
  "offer_poll codec input cl =
     (if \<not> oc_sent cl
      then Done (CSend (frame (Get_encode \<lparr>get_bin = ucast (oc_bin cl), get_start = oc_start cl\<rparr>)),
                 cl\<lparr>oc_sent := True\<rparr>)
      else (let buf = oc_buf cl @ input
            in bind_exec (deframe buf) (\<lambda>r. case r of
                Some (msg, n) \<Rightarrow>
                  bind_exec (expect (Offer_decode msg)) (\<lambda>offer.
                    Done (COfferDone (offer_refs codec (oc_start cl) (offer_chunks offer)) (offer_topmost offer),
                          cl\<lparr>oc_buf := drop n buf\<rparr>))
              | None \<Rightarrow> Done (CNeed, cl\<lparr>oc_buf := buf\<rparr>))))"

definition close_frame :: "nat \<Rightarrow> bytes" where
  "close_frame n_offered = frame (Want_encode \<lparr>want_bitvector = bitvector_new n_offered\<rparr>)"

subsection \<open>The delivery leg\<close>

datatype fetch_state = SendGet | AwaitOffer | AwaitDeliveries "triple fset" nat

record fetch_client =
  fc_bin :: Bin
  fc_start :: BinId
  fc_want :: "triple list"
  fc_buf :: bytes
  fc_state :: fetch_state
  fc_outcomes :: "(triple \<times> outcome) list"

definition FetchClient_new :: "Bin \<Rightarrow> BinId \<Rightarrow> triple list \<Rightarrow> fetch_client" where
  "FetchClient_new bin start ws =
     \<lparr>fc_bin = bin, fc_start = start, fc_want = ws, fc_buf = [], fc_state = SendGet, fc_outcomes = []\<rparr>"

definition fetch_close :: "fetch_client \<Rightarrow> client_out \<times> fetch_client" where
  "fetch_close cl =
     (let cl1 = (case fc_state cl of
          AwaitDeliveries pending remaining \<Rightarrow>
            cl\<lparr>fc_outcomes := fc_outcomes cl @ map (\<lambda>t. (t, Missed)) (sorted_list_of_fset pending),
               fc_state := AwaitDeliveries {||} 0\<rparr>
        | _ \<Rightarrow> cl)
      in (CFetchDone (fc_outcomes cl1), cl1\<lparr>fc_outcomes := []\<rparr>))"

text \<open>Matching the wants against the fresh offer: the bitvector and the pending set, entry by entry.\<close>

fun match_wants ::
  "triple_codec \<Rightarrow> triple list \<Rightarrow> (nat \<times> chunk_msg) list \<Rightarrow> bytes \<times> triple fset \<Rightarrow> (bytes \<times> triple fset) exec" where
  "match_wants codec ws [] acc = Done acc"
| "match_wants codec ws ((i, ch) # rest) (bv, pending) =
     (case triple_of_chunk codec ch of
        Some t \<Rightarrow>
          if t \<in> set ws \<and> t |\<notin>| pending
          then bind_exec (bitvector_set i bv) (\<lambda>bv1. match_wants codec ws rest (bv1, finsert t pending))
          else match_wants codec ws rest (bv, pending)
      | None \<Rightarrow> match_wants codec ws rest (bv, pending))"

definition take_offer :: "triple_codec \<Rightarrow> offer_msg \<Rightarrow> fetch_client \<Rightarrow> (client_out \<times> fetch_client) exec" where
  "take_offer codec offer cl =
     bind_exec (match_wants codec (fc_want cl) (enumerate 0 (offer_chunks offer))
         (bitvector_new (max (length (offer_chunks offer)) 1), {||})) (\<lambda>(bv, pending).
       (let cl1 = cl\<lparr>fc_outcomes := fc_outcomes cl @
              map (\<lambda>t. (t, Missed)) (filter (\<lambda>t. t |\<notin>| pending) (fc_want cl))\<rparr>
        in if offer_chunks offer = [] then Done (fetch_close cl1)
           else Done (CSend (frame (Want_encode \<lparr>want_bitvector = bv\<rparr>)),
                      cl1\<lparr>fc_state := AwaitDeliveries pending (fcard pending)\<rparr>)))"

definition zero_address :: "delivery_msg \<Rightarrow> bool" where
  "zero_address d \<longleftrightarrow> list_all (\<lambda>b. b = 0) (delivery_address d) \<or> delivery_address d = []"

definition take_delivery ::
  "triple_codec \<Rightarrow> delivery_msg \<Rightarrow> triple fset \<times> (triple \<times> outcome) list
     \<Rightarrow> (triple fset \<times> (triple \<times> outcome) list) exec" where
  "take_delivery codec d acc = (case acc of (pending, outcomes) \<Rightarrow>
     if zero_address d then Done (pending, outcomes)
     else (case tc_triple_of_delivery codec d of
         Some t \<Rightarrow>
           if t |\<in>| pending
           then bind_exec (tc_validate codec t d) (\<lambda>out. Done (pending |-| {|t|}, outcomes @ [(t, out)]))
           else Done (pending, outcomes)
       | None \<Rightarrow> Done (pending, outcomes)))"

text \<open>The turns of the loop that stay in \<open>AwaitDeliveries\<close>: each takes one frame off the buffer.\<close>

fun deliveries_loop ::
  "triple_codec \<Rightarrow> fetch_client \<Rightarrow> triple fset \<Rightarrow> nat \<Rightarrow> (client_out \<times> fetch_client) exec" where
  "deliveries_loop codec cl pending 0 = Done (fetch_close (cl\<lparr>fc_state := AwaitDeliveries pending 0\<rparr>))"
| "deliveries_loop codec cl pending (Suc k) =
     bind_exec (deframe (fc_buf cl)) (\<lambda>r. case r of
         None \<Rightarrow> Done (CNeed, cl\<lparr>fc_state := AwaitDeliveries pending (Suc k)\<rparr>)
       | Some (msg, n) \<Rightarrow>
           bind_exec (expect (Delivery_decode msg)) (\<lambda>d.
             bind_exec (take_delivery codec d (pending, fc_outcomes cl)) (\<lambda>(pending1, outcomes1).
               deliveries_loop codec (cl\<lparr>fc_buf := drop n (fc_buf cl), fc_outcomes := outcomes1\<rparr>) pending1 k)))"

definition fetch_poll :: "triple_codec \<Rightarrow> bytes \<Rightarrow> fetch_client \<Rightarrow> (client_out \<times> fetch_client) exec" where
  "fetch_poll codec input cl0 =
     (let cl = cl0\<lparr>fc_buf := fc_buf cl0 @ input\<rparr>
      in case fc_state cl of
          SendGet \<Rightarrow>
            Done (CSend (frame (Get_encode \<lparr>get_bin = ucast (fc_bin cl), get_start = fc_start cl\<rparr>)),
                  cl\<lparr>fc_state := AwaitOffer\<rparr>)
        | AwaitOffer \<Rightarrow>
            bind_exec (deframe (fc_buf cl)) (\<lambda>r. case r of
                None \<Rightarrow> Done (CNeed, cl)
              | Some (msg, n) \<Rightarrow>
                  bind_exec (expect (Offer_decode msg)) (\<lambda>offer.
                    take_offer codec offer (cl\<lparr>fc_buf := drop n (fc_buf cl)\<rparr>)))
        | AwaitDeliveries pending remaining \<Rightarrow> deliveries_loop codec cl pending remaining)"

subsection \<open>The serving side\<close>

record serve_reserve =
  sr_collect :: "Bin \<Rightarrow> BinId \<Rightarrow> nat \<Rightarrow> (BinId \<times> triple) list \<times> BinId"
  sr_has :: "triple \<Rightarrow> bool"
  sr_cursors :: "u64 list"
  sr_epoch :: u64

definition MAX_PAGE :: nat where
  "MAX_PAGE = 250"

datatype server_out = SSend bytes | SNeed | SDone | SBlocked Bin BinId

datatype serve_state = AwaitGet | AwaitWant "(BinId \<times> triple) list"

record server_stream =
  ss_buf :: bytes
  ss_state :: serve_state

definition ServerStream_new :: server_stream where
  "ServerStream_new = \<lparr>ss_buf = [], ss_state = AwaitGet\<rparr>"

definition chunk_of :: "triple_codec \<Rightarrow> triple \<Rightarrow> chunk_msg" where
  "chunk_of codec t = \<lparr>chunkmsg_address = tc_address codec t, chunk_batch_id = tc_batch_id codec t,
     chunk_stamp_hash = tc_stamp_hash codec t\<rparr>"

definition delivery_of :: "triple_codec \<Rightarrow> serve_reserve \<Rightarrow> triple \<Rightarrow> delivery_msg" where
  "delivery_of codec reserve t =
     (if sr_has reserve t
      then \<lparr>delivery_address = tc_address codec t, delivery_data = tc_data codec t, delivery_stamp = tc_stamp codec t\<rparr>
      else \<lparr>delivery_address = replicate 32 0, delivery_data = [], delivery_stamp = []\<rparr>)"

definition serve_get ::
  "triple_codec \<Rightarrow> serve_reserve \<Rightarrow> get_msg \<Rightarrow> server_stream \<Rightarrow> server_out \<times> server_stream" where
  "serve_get codec reserve get s =
     (let bin = ucast (get_bin get) :: Bin;
          (es, t) = sr_collect reserve bin (get_start get) MAX_PAGE
      in if es = [] \<and> t < get_start get then (SBlocked bin (get_start get), s)
         else (let chunks = map (\<lambda>(_, c). chunk_of codec c) es;
                   fr = frame (Offer_encode \<lparr>offer_topmost = t, offer_chunks = chunks\<rparr>)
               in (SSend fr, s\<lparr>ss_state := (if chunks = [] then AwaitGet else AwaitWant es)\<rparr>)))"

definition serve_want ::
  "triple_codec \<Rightarrow> serve_reserve \<Rightarrow> (BinId \<times> triple) list \<Rightarrow> want_msg \<Rightarrow> server_out" where
  "serve_want codec reserve es w =
     (let frames = concat (map (\<lambda>(i, (_, t)).
            if \<not> bitvector_get (want_bitvector w) i then []
            else frame (Delivery_encode (delivery_of codec reserve t))) (enumerate 0 es))
      in if frames = [] then SDone else SSend frames)"

definition server_poll ::
  "triple_codec \<Rightarrow> serve_reserve \<Rightarrow> bytes \<Rightarrow> server_stream \<Rightarrow> (server_out \<times> server_stream) exec" where
  "server_poll codec reserve input s0 =
     (let buf = ss_buf s0 @ input; s = s0\<lparr>ss_buf := buf\<rparr>
      in bind_exec (deframe buf) (\<lambda>r. case r of
          None \<Rightarrow> Done (SNeed, s)
        | Some (msg, n) \<Rightarrow>
            (let s1 = s\<lparr>ss_buf := drop n buf\<rparr>
             in case ss_state s of
                 AwaitGet \<Rightarrow>
                   bind_exec (expect (Get_decode msg)) (\<lambda>get. Done (serve_get codec reserve get s1))
               | AwaitWant es \<Rightarrow>
                   bind_exec (expect (Want_decode msg)) (\<lambda>w. Done (serve_want codec reserve es w, s1)))))"

definition cursors_respond :: "serve_reserve \<Rightarrow> bytes \<Rightarrow> bytes option exec" where
  "cursors_respond reserve input =
     bind_exec (deframe input) (\<lambda>r. case r of
         None \<Rightarrow> Done None
       | Some (msg, _) \<Rightarrow>
           bind_exec (Syn_decode msg) (\<lambda>syn. case syn of
               None \<Rightarrow> Done None
             | Some () \<Rightarrow>
                 Done (Some (frame (Ack_encode \<lparr>ack_cursors = sr_cursors reserve, ack_epoch = sr_epoch reserve\<rparr>)))))"

end
