(* ===== verification/Adapter_Inv.thy ===== *)
theory Adapter_Inv
  imports Adapter
begin

section \<open>The fetch client keeps account of its wants\<close>

text \<open>
  Whatever bytes a peer sends, each wanted id is pending or has exactly one outcome, from the offer on.
\<close>

lemma match_wants_step:
  "match_wants codec ws ((i, ch) # rest) (bv, pending) =
     (if \<exists>t. triple_of_chunk codec ch = Some t \<and> t \<in> set ws \<and> t |\<notin>| pending
      then bind_exec (bitvector_set i bv) (\<lambda>bv1. match_wants codec ws rest (bv1, finsert (the (triple_of_chunk codec ch)) pending))
      else match_wants codec ws rest (bv, pending))"
  by (simp split: option.split)

declare match_wants.simps(2) [simp del]

definition named_by :: "triple_codec \<Rightarrow> (nat \<times> chunk_msg) list \<Rightarrow> triple set" where
  "named_by codec ics = {t. \<exists>(i, ch) \<in> set ics. triple_of_chunk codec ch = Some t}"

lemma named_by_simps [simp]: "named_by codec [] = {}"
  "named_by codec ((i, ch) # ics) = set_option (triple_of_chunk codec ch) \<union> named_by codec ics"
  by (auto simp: named_by_def)

lemma match_wants_ok:
  assumes "\<forall>(i, ch) \<in> set ics. i div 8 < length bv" and "fset pending \<subseteq> set ws"
  shows "\<exists>bv' pending'. match_wants codec ws ics (bv, pending) = Done (bv', pending')
    \<and> length bv' = length bv \<and> fset pending' = fset pending \<union> (set ws \<inter> named_by codec ics)"
  using assms
proof (induction ics arbitrary: bv pending)
  case (Cons a ics)
  obtain i ch where a: "a = (i, ch)" by (cases a)
  with Cons.prems have i: "i div 8 < length bv" and rest: "\<forall>(i, ch) \<in> set ics. i div 8 < length bv" by auto
  show ?case
  proof (cases "\<exists>t. triple_of_chunk codec ch = Some t \<and> t \<in> set ws \<and> t |\<notin>| pending")
    case True
    then obtain t where t: "triple_of_chunk codec ch = Some t" "t \<in> set ws" by blast
    obtain bv1 where bv1: "bitvector_set i bv = Done bv1" "length bv1 = length bv"
      using bitvector_set_ok [OF i] by blast
    have "fset (finsert t pending) \<subseteq> set ws" using t Cons.prems(2) by simp
    from Cons.IH [of bv1, OF _ this] rest bv1 obtain bv' pending' where
      "match_wants codec ws ics (bv1, finsert t pending) = Done (bv', pending')" "length bv' = length bv"
      "fset pending' = fset (finsert t pending) \<union> (set ws \<inter> named_by codec ics)" by auto
    with a t bv1 True show ?thesis by (simp only: match_wants_step if_True bind_exec.simps option.sel) auto
  next
    case False
    then have "set_option (triple_of_chunk codec ch) \<inter> set ws \<subseteq> fset pending" by (auto simp: elem_set)
    with Cons.IH [OF rest Cons.prems(2)] a False show ?thesis
      by (simp only: match_wants_step if_False named_by_simps) blast
  qed
qed simp

text \<open>The account: outcomes so far and the pending set partition the wants.\<close>

definition accounts :: "triple list \<Rightarrow> (triple \<times> outcome) list \<Rightarrow> triple fset \<Rightarrow> bool" where
  "accounts ws os P \<longleftrightarrow> distinct (map fst os) \<and> set (map fst os) \<union> fset P = set ws \<and> set (map fst os) \<inter> fset P = {}"

definition resolved :: "triple list \<Rightarrow> (triple \<times> outcome) list \<Rightarrow> bool" where
  "resolved ws os \<longleftrightarrow> distinct (map fst os) \<and> set (map fst os) = set ws"

definition fetch_inv :: "fetch_client \<Rightarrow> bool" where
  "fetch_inv cl \<longleftrightarrow> distinct (fc_want cl) \<and>
     (case fc_state cl of
        AwaitDeliveries pending remaining \<Rightarrow> accounts (fc_want cl) (fc_outcomes cl) pending
      | _ \<Rightarrow> fc_outcomes cl = [])"

lemma accounts_close:
  "accounts ws os P \<Longrightarrow> resolved ws (os @ map (\<lambda>t. (t, Missed)) (sorted_list_of_fset P))"
  by (auto simp: accounts_def resolved_def comp_def)

lemma accounts_resolve: "accounts ws os P \<Longrightarrow> t |\<in>| P \<Longrightarrow> accounts ws (os @ [(t, out)]) (P |-| {|t|})"
  by (auto simp: accounts_def)

lemma accounts_take_delivery:
  "accounts ws os P \<Longrightarrow> take_delivery codec d (P, os) = Done (P', os') \<Longrightarrow> accounts ws os' P'"
  by (auto simp: take_delivery_def accounts_resolve bind_exec_eq_Done split: if_splits option.splits)

text \<open>What a poll may leave: a complete answer, or a client that still accounts for every want.\<close>

definition fetch_post :: "triple list \<Rightarrow> client_out \<times> fetch_client \<Rightarrow> bool" where
  "fetch_post ws r \<longleftrightarrow> (case r of
       (CFetchDone os, cl) \<Rightarrow> resolved ws os
     | (CSend fr, cl) \<Rightarrow> fetch_inv cl \<and> fc_want cl = ws
     | (CNeed, cl) \<Rightarrow> fetch_inv cl \<and> fc_want cl = ws
     | _ \<Rightarrow> False)"

lemma deliveries_loop_post:
  assumes "deliveries_loop codec cl pending k = Done r"
    and "distinct (fc_want cl)" and "accounts (fc_want cl) (fc_outcomes cl) pending"
  shows "fetch_post (fc_want cl) r"
  using assms
proof (induction k arbitrary: cl pending)
  case 0
  then show ?case by (auto simp: fetch_close_def fetch_post_def Let_def accounts_close)
next
  case (Suc k)
  from Suc.prems(1) obtain d where d: "deframe (fc_buf cl) = Done d" by (auto simp: bind_exec_eq_Done)
  show ?case
  proof (cases d)
    case None
    with Suc.prems d show ?thesis by (auto simp: fetch_post_def fetch_inv_def)
  next
    case (Some mn)
    obtain msg n where mn: "mn = (msg, n)" by (cases mn)
    with Suc.prems(1) d Some obtain m where m: "expect (Delivery_decode msg) = Done m"
      by (auto simp: bind_exec_eq_Done)
    with Suc.prems(1) d Some mn obtain P os where
      P: "take_delivery codec m (pending, fc_outcomes cl) = Done (P, os)"
      by (auto simp: bind_exec_eq_Done)
    let ?cl = "cl\<lparr>fc_buf := drop n (fc_buf cl), fc_outcomes := os\<rparr>"
    have "deliveries_loop codec ?cl P k = Done r" using Suc.prems(1) d Some mn m P by simp
    from Suc.IH [OF this] Suc.prems(2) accounts_take_delivery [OF Suc.prems(3) P] show ?thesis by simp
  qed
qed

lemma take_offer_post:
  assumes "take_offer codec offer cl = Done r" and "fetch_inv cl" and "fc_state cl = AwaitOffer"
  shows "fetch_post (fc_want cl) r"
proof -
  have "distinct (fc_want cl)" "fc_outcomes cl = []" using assms by (auto simp: fetch_inv_def)
  note assms = assms this
  let ?ics = "enumerate 0 (offer_chunks offer)"
  have "\<forall>(i, ch) \<in> set ?ics. i div 8 < length (bitvector_new (max (length (offer_chunks offer)) 1))"
    by (auto simp: in_set_enumerate_eq div_le_mono le_imp_less_Suc max_def)
  from match_wants_ok [OF this, of "{||}" "fc_want cl" codec] obtain bv pending where
    m: "match_wants codec (fc_want cl) ?ics (bitvector_new (max (length (offer_chunks offer)) 1), {||}) = Done (bv, pending)"
    and p: "fset pending = set (fc_want cl) \<inter> named_by codec ?ics" by auto
  let ?os = "map (\<lambda>t. (t, Missed)) (filter (\<lambda>t. t |\<notin>| pending) (fc_want cl))"
  have acc: "accounts (fc_want cl) ?os pending" using assms(4) p by (auto simp: accounts_def comp_def)
  show ?thesis
  proof (cases "offer_chunks offer = []")
    case True
    then have "fset pending = {}" using p by simp
    with True m assms acc show ?thesis
      by (auto simp: take_offer_def fetch_close_def fetch_post_def Let_def accounts_def resolved_def comp_def)
  next
    case False
    with m assms acc show ?thesis by (auto simp: take_offer_def fetch_post_def fetch_inv_def Let_def)
  qed
qed

lemma fetch_poll_post:
  assumes "fetch_poll codec input cl = Done r" and "fetch_inv cl"
  shows "fetch_post (fc_want cl) r"
proof -
  let ?cl = "cl\<lparr>fc_buf := fc_buf cl @ input\<rparr>"
  have inv: "fetch_inv ?cl" using assms(2) by (cases "fc_state cl") (simp_all add: fetch_inv_def)
  show ?thesis
  proof (cases "fc_state cl")
    case SendGet
    with assms show ?thesis by (auto simp: fetch_poll_def fetch_post_def fetch_inv_def)
  next
    case AwaitOffer
    from assms(1) AwaitOffer obtain d where d: "deframe (fc_buf cl @ input) = Done d"
      by (auto simp: fetch_poll_def Let_def bind_exec_eq_Done)
    show ?thesis
    proof (cases d)
      case None
      with assms(1) d AwaitOffer inv show ?thesis by (auto simp: fetch_poll_def Let_def fetch_post_def)
    next
      case (Some mn)
      obtain msg n where mn: "mn = (msg, n)" by (cases mn)
      with assms(1) d Some AwaitOffer obtain offer where
        "take_offer codec offer (?cl\<lparr>fc_buf := drop n (fc_buf ?cl)\<rparr>) = Done r"
        by (auto simp: fetch_poll_def Let_def bind_exec_eq_Done)
      from take_offer_post [OF this] inv AwaitOffer show ?thesis by (simp add: fetch_inv_def)
    qed
  next
    case (AwaitDeliveries pending remaining)
    then have "deliveries_loop codec ?cl pending remaining = Done r"
      using assms(1) by (simp add: fetch_poll_def Let_def)
    from deliveries_loop_post [OF this] inv AwaitDeliveries show ?thesis by (simp add: fetch_inv_def)
  qed
qed

lemma fetch_inv_new: "distinct ws \<Longrightarrow> fetch_inv (FetchClient_new bin start ws)"
  by (simp add: fetch_inv_def FetchClient_new_def)

text \<open>Closing the client answers every want once the offer has been matched, and none of them before.\<close>

lemma fetch_close_post:
  assumes "fetch_inv cl"
  shows "fst (fetch_close cl) = CFetchDone [] \<and> (fc_state cl = SendGet \<or> fc_state cl = AwaitOffer)
    \<or> (\<exists>os. fst (fetch_close cl) = CFetchDone os \<and> resolved (fc_want cl) os)"
  using assms by (cases "fc_state cl") (auto simp: fetch_close_def fetch_inv_def Let_def accounts_close)

end
