(* ===== verification/Session.thy ===== *)
theory Session
  imports Node_Handle
begin

section \<open>The pull-sync session: \<open>crates/wire/src/session.rs\<close>\<close>

text \<open>
  The loop between the node and a carrier: effects are queued, each network effect becomes an
  operation, the carrier runs it and its result is fed back. The carrier (\<open>OpRunner\<close>) is a function
  of its own state: it may answer anything, or nothing.
\<close>

datatype op = OpCursors PeerId | OpOffer PeerId Bin BinId | OpFetch PeerId Bin BinId "triple list"

fun op_peer :: "op \<Rightarrow> PeerId" where
  "op_peer (OpCursors p) = p"
| "op_peer (OpOffer p b start) = p"
| "op_peer (OpFetch p b start ws) = p"

record session =
  s_node :: node
  s_queue :: "effect list"
  s_settled :: "(PeerId \<times> Bin \<times> BinId) list"

definition Session_new :: "node \<Rightarrow> session" where
  "Session_new n = \<lparr>s_node = n, s_queue = [], s_settled = []\<rparr>"

definition feed :: "event \<Rightarrow> session \<Rightarrow> session exec" where
  "feed ev s = bind_exec (handle ev (s_node s)) (\<lambda>(fx, n).
     Done (s\<lparr>s_node := n, s_queue := s_queue s @ fx\<rparr>))"

definition add_peer :: "PeerId \<Rightarrow> session \<Rightarrow> session exec" where
  "add_peer p s = feed (PeerSeen p) s"

text \<open>The \<open>while let\<close> of \<open>next_op\<close>, over the queue.\<close>

fun next_op_loop :: "effect list \<Rightarrow> session \<Rightarrow> op option \<times> session" where
  "next_op_loop [] s = (None, s\<lparr>s_queue := []\<rparr>)"
| "next_op_loop (GetCursors p # q) s = (Some (OpCursors p), s\<lparr>s_queue := q\<rparr>)"
| "next_op_loop (Offer p b start # q) s = (Some (OpOffer p b start), s\<lparr>s_queue := q\<rparr>)"
| "next_op_loop (Fetch p b ws # q) s =
     (Some (OpFetch p b (case Node_interval p b (s_node s) of Some i \<Rightarrow> i | None \<Rightarrow> 0) ws), s\<lparr>s_queue := q\<rparr>)"
| "next_op_loop (Settled p b u # q) s = next_op_loop q (s\<lparr>s_settled := s_settled s @ [(p, b, u)]\<rparr>)"

definition next_op :: "session \<Rightarrow> op option \<times> session" where
  "next_op s = next_op_loop (s_queue s) s"

definition take_settled :: "session \<Rightarrow> (PeerId \<times> Bin \<times> BinId) list \<times> session" where
  "take_settled s = (s_settled s, s\<lparr>s_settled := []\<rparr>)"

fun failure_event :: "op \<Rightarrow> event" where
  "failure_event (OpCursors p) = CursorsResult p []"
| "failure_event (OpOffer p b start) = OfferResult p b start [] start"
| "failure_event (OpFetch p b start ws) = FetchResult p b (map (\<lambda>t. (t, Missed)) ws)"

fun is_offer :: "op \<Rightarrow> bool" where
  "is_offer (OpOffer p b start) = True"
| "is_offer op1 = False"

type_synonym 'r op_runner = "op \<Rightarrow> 'r \<Rightarrow> event option \<times> 'r"

text \<open>
  The guard of the source counts the operations and breaks on the one past a million: \<open>budget\<close> counts
  down. The operation that trips the guard has been taken off the queue and is not run.
\<close>

fun drive_loop :: "nat \<Rightarrow> 'r op_runner \<Rightarrow> session \<Rightarrow> 'r \<Rightarrow> (session \<times> 'r) exec" where
  "drive_loop budget run s r = (case next_op s of
      (None, s1) \<Rightarrow> Done (s1, r)
    | (Some op1, s1) \<Rightarrow>
        (case budget of
           0 \<Rightarrow> Done (s1, r)
         | Suc k \<Rightarrow>
             (case run op1 r of
                (Some ev, r1) \<Rightarrow> bind_exec (feed ev s1) (\<lambda>s2. drive_loop k run s2 r1)
              | (None, r1) \<Rightarrow>
                  if \<not> is_offer op1
                  then bind_exec (feed (failure_event op1) s1) (\<lambda>s2. drive_loop k run s2 r1)
                  else drive_loop k run s1 r1)))"

declare drive_loop.simps [simp del]

definition drive :: "'r op_runner \<Rightarrow> session \<Rightarrow> 'r \<Rightarrow> (session \<times> 'r) exec" where
  "drive run s r = drive_loop 1000000 run s r"

subsection \<open>Durable transitions\<close>

fun settled_of :: "effect \<Rightarrow> (PeerId \<times> Bin \<times> BinId) list" where
  "settled_of (Settled p b u) = [(p, b, u)]"
| "settled_of e = []"

definition durable :: "effect list \<Rightarrow> (PeerId \<times> Bin \<times> BinId) list" where
  "durable fx = concat (map settled_of fx)"

lemma durable_simps [simp]: "durable [] = []" "durable (e # fx) = settled_of e @ durable fx"
  "durable (fx @ fx') = durable fx @ durable fx'"
  by (simp_all add: durable_def)

text \<open>What the session has recorded and what it has still to record, in order.\<close>

definition ledger :: "session \<Rightarrow> (PeerId \<times> Bin \<times> BinId) list" where
  "ledger s = s_settled s @ durable (s_queue s)"

lemma next_op_loop_frame:
  "s_node (snd (next_op_loop q s)) = s_node s
   \<and> s_settled (snd (next_op_loop q s)) @ durable (s_queue (snd (next_op_loop q s))) = s_settled s @ durable q
   \<and> (fst (next_op_loop q s) = None \<longrightarrow> s_queue (snd (next_op_loop q s)) = [])"
  by (induction q s rule: next_op_loop.induct) auto

lemma next_op_frame:
  assumes "next_op s = (r, s')"
  shows "s_node s' = s_node s" "ledger s' = ledger s" "r = None \<Longrightarrow> s_queue s' = []"
  using next_op_loop_frame [of "s_queue s" s] assms by (auto simp: next_op_def ledger_def)

lemma feed_done: "\<exists>fx n. handle ev (s_node s) = Done (fx, n)
    \<and> feed ev s = Done (s\<lparr>s_node := n, s_queue := s_queue s @ fx\<rparr>)"
  using handle_done [of ev "s_node s"] by (auto simp: feed_def)

text \<open>
  A driven session is a run of its node: the events it feeds, in order, and their effects, of which
  the ledger holds the durable ones.
\<close>

definition drives :: "session \<Rightarrow> event list \<Rightarrow> session \<Rightarrow> bool" where
  "drives s evs t \<longleftrightarrow> (\<exists>fx. for_each handle evs (s_node s) = Done (fx, s_node t) \<and> ledger t = ledger s @ durable fx)"

lemma drives_refl: "s_node t = s_node s \<Longrightarrow> ledger t = ledger s \<Longrightarrow> drives s [] t"
  by (simp add: drives_def)

lemma drives_feed:
  assumes "feed ev s = Done s1" and "drives s1 evs t"
  shows "drives s (ev # evs) t"
proof -
  obtain fx n where n: "handle ev (s_node s) = Done (fx, n)" "s1 = s\<lparr>s_node := n, s_queue := s_queue s @ fx\<rparr>"
    using feed_done [of ev s] assms(1) by auto
  then have "ledger s1 = ledger s @ durable fx" by (simp add: ledger_def)
  with n assms(2) show ?thesis by (auto simp: drives_def)
qed

lemma drive_loop_runs: "\<exists>evs s' r'. drive_loop budget run s r = Done (s', r') \<and> drives s evs s'"
proof (induction budget arbitrary: s r)
  case 0
  obtain o1 s1 where n: "next_op s = (o1, s1)" by fastforce
  have "drives s [] s1" using next_op_frame [OF n] by (intro drives_refl) auto
  with n show ?case by (subst drive_loop.simps) (auto split: option.splits)
next
  case (Suc k)
  obtain o1 s1 where n: "next_op s = (o1, s1)" by fastforce
  have frame: "s_node s1 = s_node s" "ledger s1 = ledger s" using next_op_frame [OF n] by auto
  have from_s1: "drives s evs t" if "drives s1 evs t" for evs t
    using that frame by (simp add: drives_def)
  show ?case
  proof (cases o1)
    case None
    with n frame show ?thesis by (subst drive_loop.simps) (auto intro: drives_refl)
  next
    case (Some op1)
    obtain a r1 where a: "run op1 r = (a, r1)" by fastforce
    have fed: ?thesis if "drive_loop (Suc k) run s r = bind_exec (feed ev s1) (\<lambda>s2. drive_loop k run s2 r1)" for ev
    proof -
      obtain s2 where s2: "feed ev s1 = Done s2" using feed_done [of ev s1] by blast
      from Suc [of s2 r1] obtain evs s' r' where "drive_loop k run s2 r1 = Done (s', r')" "drives s2 evs s'"
        by blast
      with that s2 from_s1 [OF drives_feed [OF s2]] show ?thesis by auto
    qed
    show ?thesis
    proof (cases "a = None \<and> is_offer op1")
      case True
      then have "drive_loop (Suc k) run s r = drive_loop k run s1 r1"
        using n Some a by (subst drive_loop.simps) simp
      with Suc [of s1 r1] from_s1 show ?thesis by metis
    next
      case False
      then have "drive_loop (Suc k) run s r =
          bind_exec (feed (case a of Some ev \<Rightarrow> ev | None \<Rightarrow> failure_event op1) s1) (\<lambda>s2. drive_loop k run s2 r1)"
        using n Some a by (subst drive_loop.simps) (auto split: option.splits)
      then show ?thesis by (rule fed)
    qed
  qed
qed

text \<open>A carrier that counts the operations it is given.\<close>

definition counting :: "'r op_runner \<Rightarrow> ('r \<times> nat) op_runner" where
  "counting run op1 rn = (let (a, r1) = run op1 (fst rn) in (a, (r1, snd rn + 1)))"

lemma drive_loop_counts:
  assumes "drive_loop budget (counting run) s (r, k) = Done (s', (r', k'))"
  shows "k' \<le> k + budget \<and> (k' < k + budget \<longrightarrow> s_queue s' = [])"
  using assms
proof (induction budget arbitrary: s r k)
  case 0
  then show ?case by (subst (asm) drive_loop.simps) (auto split: prod.splits option.splits)
next
  case (Suc budget)
  obtain o1 s1 where n: "next_op s = (o1, s1)" by fastforce
  show ?case
  proof (cases o1)
    case None
    with n Suc.prems next_op_frame(3) [OF n] show ?thesis
      by (subst (asm) drive_loop.simps) auto
  next
    case (Some op1)
    obtain a r1 where a: "run op1 r = (a, r1)" by fastforce
    then have "counting run op1 (r, k) = (a, (r1, k + 1))" by (simp add: counting_def)
    with Suc.prems n Some obtain s2 where
      "drive_loop budget (counting run) s2 (r1, k + 1) = Done (s', (r', k'))"
      by (subst (asm) drive_loop.simps)
         (auto simp: bind_exec_eq_Done split: option.splits if_splits)
    from Suc.IH [OF this] show ?thesis by simp
  qed
qed

end
