(* ===== verification/Pullsync.thy ===== *)
theory Pullsync
  imports Adapter_Inv Session
begin

section \<open>The pull-sync shell: \<open>crates/net/src/pullsync.rs\<close>\<close>

text \<open>
  The shell that runs an operation over a stream. A stream is a script: the chunks its reads return
  in order (an empty chunk, or none left, is a stream that closed or failed), how many of the writes
  succeed, and what has been written. The network stack below it chooses the script freely.
\<close>

record stream =
  st_reads :: "bytes list"
  st_writes :: nat
  st_sent :: bytes

text \<open>\<open>write_all\<close> and \<open>read\<close> on the script.\<close>

fun stream_write :: "bytes \<Rightarrow> stream \<Rightarrow> stream option" where
  "stream_write b s = (case st_writes s of 0 \<Rightarrow> None | Suc k \<Rightarrow> Some (s\<lparr>st_writes := k, st_sent := st_sent s @ b\<rparr>))"

fun stream_read :: "stream \<Rightarrow> (bytes \<times> stream) option" where
  "stream_read s = (case st_reads s of
       [] \<Rightarrow> None
     | b # bs \<Rightarrow> if b = [] then None else Some (b, s\<lparr>st_reads := bs\<rparr>))"

text \<open>The loop of \<open>pump\<close>; every turn but the last writes or reads once.\<close>

function pump :: "(bytes \<Rightarrow> 'c \<Rightarrow> (client_out \<times> 'c) exec) \<Rightarrow> bytes \<Rightarrow> 'c \<Rightarrow> stream \<Rightarrow> (client_out option \<times> 'c \<times> stream) exec" where
  "pump poll input c s = (case poll input c of
      Panic \<Rightarrow> Panic
    | Done (CSend b, c1) \<Rightarrow> (case stream_write b s of
          None \<Rightarrow> Done (None, c1, s)
        | Some s1 \<Rightarrow> pump poll [] c1 s1)
    | Done (CNeed, c1) \<Rightarrow> (case stream_read s of
          None \<Rightarrow> Done (None, c1, s)
        | Some (b, s1) \<Rightarrow> pump poll b c1 s1)
    | Done (terminal, c1) \<Rightarrow> Done (Some terminal, c1, s))"
  by pat_completeness auto

termination
  by (relation "measure (\<lambda>(poll, input, c, s). st_writes s + length (st_reads s))")
     (auto split: nat.splits list.splits if_splits)

declare pump.simps [simp del]

text \<open>\<open>open\<close>: up to a hundred attempts.\<close>

definition open_stream :: "stream option list \<Rightarrow> stream option" where
  "open_stream attempts = (case dropWhile (\<lambda>a. a = None) (take 100 attempts) of [] \<Rightarrow> None | a # _ \<Rightarrow> a)"

definition run_cursors :: "stream \<Rightarrow> ((Bin \<times> BinId) list option) exec" where
  "run_cursors s = bind_exec (pump cursors_poll [] CursorsClient_new s) (\<lambda>(fin, c, s1).
     Done (case fin of Some (CCursors cs epoch) \<Rightarrow> Some cs | _ \<Rightarrow> None))"

definition run_offer :: "triple_codec \<Rightarrow> PeerId \<Rightarrow> Bin \<Rightarrow> BinId \<Rightarrow> stream \<Rightarrow> event option exec" where
  "run_offer codec pid bin start s =
     bind_exec (pump (offer_poll codec) [] (OfferClient_new bin start) s) (\<lambda>(fin, c, s1).
       Done (case fin of Some (COfferDone refs t) \<Rightarrow> Some (OfferResult pid bin start refs t) | _ \<Rightarrow> None))"

definition run_fetch :: "triple_codec \<Rightarrow> PeerId \<Rightarrow> Bin \<Rightarrow> BinId \<Rightarrow> triple list \<Rightarrow> stream \<Rightarrow> event option exec" where
  "run_fetch codec pid bin start ws s =
     bind_exec (pump (fetch_poll codec) [] (FetchClient_new bin start ws) s) (\<lambda>(fin, c, s1).
       (let outcomes = (case fin of
            Some (CFetchDone os) \<Rightarrow> os
          | _ \<Rightarrow> (case fst (fetch_close c) of CFetchDone os \<Rightarrow> os | _ \<Rightarrow> []))
        in Done (Some (FetchResult pid bin outcomes))))"

definition run_op :: "triple_codec \<Rightarrow> stream option list \<Rightarrow> op \<Rightarrow> event option exec" where
  "run_op codec attempts op1 = (case open_stream attempts of
      None \<Rightarrow> Done None
    | Some s \<Rightarrow> (case op1 of
          OpCursors pid \<Rightarrow>
            bind_exec (run_cursors s) (\<lambda>cs. Done (map_option (CursorsResult pid) cs))
        | OpOffer pid bin start \<Rightarrow> run_offer codec pid bin start s
        | OpFetch pid bin start ws \<Rightarrow> run_fetch codec pid bin start ws s))"

text \<open>
  \<open>pull_from\<close>: one entry of the script per operation. With the script at its end no stream opens.
\<close>

fun pull_from :: "triple_codec \<Rightarrow> stream option list list \<Rightarrow> session \<Rightarrow> session exec" where
  "pull_from codec conns s = (case next_op s of
      (None, s1) \<Rightarrow> Done s1
    | (Some op1, s1) \<Rightarrow> (case conns of
          [] \<Rightarrow> Done s1
        | attempts # rest \<Rightarrow>
            bind_exec (run_op codec attempts op1) (\<lambda>r. case r of
                Some ev \<Rightarrow> bind_exec (feed ev s1) (pull_from codec rest)
              | None \<Rightarrow> Done s1)))"

declare pull_from.simps [simp del]

definition get_cursors :: "stream option list \<Rightarrow> ((Bin \<times> BinId) list option) exec" where
  "get_cursors attempts = (case open_stream attempts of None \<Rightarrow> Done None | Some s \<Rightarrow> run_cursors s)"

subsection \<open>What a fetch reports\<close>

lemma pump_fetch:
  assumes "pump (fetch_poll codec) input cl s = Done (fin, cl', s')" and "fetch_inv cl"
  shows "(\<exists>os. fin = Some (CFetchDone os) \<and> resolved (fc_want cl) os)
    \<or> fin = None \<and> fetch_inv cl' \<and> fc_want cl' = fc_want cl"
  using assms
proof (induction "fetch_poll codec" input cl s rule: pump.induct)
  case (1 input cl s)
  from "1.prems"(1) obtain out c1 where r: "fetch_poll codec input cl = Done (out, c1)"
    by (subst (asm) pump.simps) (auto split: exec.splits)
  from fetch_poll_post [OF r "1.prems"(2)] have post: "fetch_post (fc_want cl) (out, c1)" .
  show ?case
  proof (cases out)
    case (CSend b)
    with post have inv: "fetch_inv c1" "fc_want c1 = fc_want cl" by (auto simp: fetch_post_def)
    from "1.prems"(1) r CSend consider "fin = None" "cl' = c1"
      | s1 where "stream_write b s = Some s1" "pump (fetch_poll codec) [] c1 s1 = Done (fin, cl', s')"
      by (subst (asm) pump.simps) (auto split: option.splits)
    then show ?thesis using inv "1.hyps"(1) [OF r refl CSend] by cases auto
  next
    case CNeed
    with post have inv: "fetch_inv c1" "fc_want c1 = fc_want cl" by (auto simp: fetch_post_def)
    from "1.prems"(1) r CNeed consider "fin = None" "cl' = c1"
      | b s1 where "stream_read s = Some (b, s1)" "pump (fetch_poll codec) b c1 s1 = Done (fin, cl', s')"
      by (subst (asm) pump.simps) (auto split: option.splits)
    then show ?thesis using inv "1.hyps"(2) [OF r refl CNeed] by cases auto
  next
    case (CFetchDone os)
    with "1.prems"(1) r post show ?thesis by (subst (asm) pump.simps) (auto simp: fetch_post_def)
  qed (use post in \<open>simp_all add: fetch_post_def\<close>)
qed

end
