(* ===== verification/Codec.thy ===== *)
theory Codec
  imports Adapter Crypto
begin

section \<open>The codecs: \<open>crates/wire/src/codec.rs\<close>\<close>

text \<open>
  The two implementations of \<open>TripleCodec\<close>: one that mints and serves, one that only validates what
  it pulled. \<open>to_arr\<close> copies a slice whose length the caller has compared with 32. The assertion of
  \<open>chunk_address\<close> makes \<open>validate\<close> panic on a payload over 4096 bytes.
\<close>

record minted_codec =
  mc_secret :: bytes
  mc_owner :: bytes
  mc_batch_id :: bytes
  mc_store :: "(triple, bytes \<times> bytes) fmap"

definition MintedCodec_new :: "crypto \<Rightarrow> bytes \<Rightarrow> u8 \<Rightarrow> minted_codec exec" where
  "MintedCodec_new cr owner_secret batch_seed = (case public_eth_address cr owner_secret of
      None \<Rightarrow> Panic
    | Some owner \<Rightarrow> Done \<lparr>mc_secret = owner_secret, mc_owner = owner,
        mc_batch_id = replicate 32 batch_seed, mc_store = fmempty\<rparr>)"

definition mint :: "crypto \<Rightarrow> bytes \<Rightarrow> u64 \<Rightarrow> u64 \<Rightarrow> minted_codec \<Rightarrow> (triple \<times> minted_codec) exec" where
  "mint cr payload index timestamp mc =
     bind_exec (chunk_address cr payload) (\<lambda>addr.
       (let idx = u64_be_bytes index; ts = u64_be_bytes timestamp;
            digest = to_sign_digest cr addr (mc_batch_id mc) idx ts
        in case sign cr (mc_secret mc) (eth_prefixed cr digest) of
            None \<Rightarrow> Panic
          | Some sig \<Rightarrow>
              (let st = mc_batch_id mc @ idx @ ts @ sig;
                   t = Triple_new addr (mc_batch_id mc) (keccak256 cr st)
               in Done (t, mc\<lparr>mc_store := fmupd t (payload, st) (mc_store mc)\<rparr>))))"

definition codec_triple_of :: "bytes \<Rightarrow> bytes \<Rightarrow> bytes \<Rightarrow> triple option" where
  "codec_triple_of addr bid sh =
     (if length addr \<noteq> 32 \<or> length bid \<noteq> 32 \<or> length sh \<noteq> 32 then None else Some (Triple_new addr bid sh))"

definition codec_triple_of_delivery :: "crypto \<Rightarrow> delivery_msg \<Rightarrow> triple option" where
  "codec_triple_of_delivery cr d =
     (if length (delivery_address d) \<noteq> 32 \<or> length (delivery_stamp d) \<noteq> STAMP_SIZE then None
      else Option.bind (Stamp_parse (delivery_stamp d)) (\<lambda>st.
        Some (Triple_new (delivery_address d) (Stamp_batch_id st) (keccak256 cr (delivery_stamp d)))))"

definition minted_validate :: "crypto \<Rightarrow> minted_codec \<Rightarrow> triple \<Rightarrow> delivery_msg \<Rightarrow> outcome exec" where
  "minted_validate cr mc c d =
     bind_exec (chunk_address cr (delivery_data d)) (\<lambda>a.
       if a \<noteq> address c then Done Missed
       else Done (case Stamp_parse (delivery_stamp d) of
           Some st \<Rightarrow> if valid cr (address c) st (mc_owner mc) then Delivered else Rejected
         | None \<Rightarrow> Rejected))"

definition minted :: "crypto \<Rightarrow> minted_codec \<Rightarrow> triple_codec" where
  "minted cr mc = \<lparr>
     tc_address = address, tc_batch_id = batch_id, tc_stamp_hash = stamp_hash,
     tc_stamp = (\<lambda>c. case fmlookup (mc_store mc) c of Some (_, s) \<Rightarrow> s | None \<Rightarrow> []),
     tc_data = (\<lambda>c. case fmlookup (mc_store mc) c of Some (d, _) \<Rightarrow> d | None \<Rightarrow> []),
     tc_triple_of = codec_triple_of,
     tc_triple_of_delivery = codec_triple_of_delivery cr,
     tc_validate = minted_validate cr mc\<rparr>"

definition pull_validate :: "crypto \<Rightarrow> triple \<Rightarrow> delivery_msg \<Rightarrow> outcome exec" where
  "pull_validate cr c d =
     bind_exec (chunk_address cr (delivery_data d)) (\<lambda>a.
       if a \<noteq> address c then Done Missed
       else Done (case Stamp_parse (delivery_stamp d) of
           Some st \<Rightarrow> if recover_owner cr (address c) st \<noteq> None then Delivered else Rejected
         | None \<Rightarrow> Rejected))"

definition pull_codec :: "crypto \<Rightarrow> triple_codec" where
  "pull_codec cr = \<lparr>
     tc_address = address, tc_batch_id = batch_id, tc_stamp_hash = stamp_hash,
     tc_stamp = (\<lambda>c. []), tc_data = (\<lambda>c. []),
     tc_triple_of = codec_triple_of,
     tc_triple_of_delivery = codec_triple_of_delivery cr,
     tc_validate = pull_validate cr\<rparr>"

subsection \<open>The codec interface\<close>

text \<open>
  What the streams need of an implementation: the three wire parts of an entry name it again, and have
  32 bytes each.
\<close>

locale entry_codec =
  fixes codec :: triple_codec
  assumes triple_of_parts:
      "wf_triple t \<Longrightarrow> tc_triple_of codec (tc_address codec t) (tc_batch_id codec t) (tc_stamp_hash codec t) = Some t"
    and part_lengths: "wf_triple t \<Longrightarrow> length (tc_address codec t) = 32
      \<and> length (tc_batch_id codec t) = 32 \<and> length (tc_stamp_hash codec t) = 32"
begin

lemma triple_of_chunk_of: "wf_triple t \<Longrightarrow> triple_of_chunk codec (chunk_of codec t) = Some t"
  by (simp add: triple_of_chunk_def chunk_of_def triple_of_parts)

lemma chunk_of_sized: "wf_triple t \<Longrightarrow> chunk_sized (chunk_of codec t)"
  using part_lengths [of t] by (simp add: chunk_sized_def chunk_of_def)

end

lemma codec_triple_of_parts: "wf_triple t \<Longrightarrow> codec_triple_of (address t) (batch_id t) (stamp_hash t) = Some t"
  by (cases t) (simp add: codec_triple_of_def wf_triple_def Triple_new_def)

interpretation minted: entry_codec "minted cr mc" for cr mc
  by unfold_locales (simp_all add: minted_def codec_triple_of_parts, simp add: wf_triple_def)

interpretation pulled: entry_codec "pull_codec cr" for cr
  by unfold_locales (simp_all add: pull_codec_def codec_triple_of_parts, simp add: wf_triple_def)

subsection \<open>What a minted entry delivers\<close>

lemma stamp_parts:
  assumes "length bid = 32" "length idx = 8" "length ts = 8" "length sig = 65"
  shows "Stamp_parse (bid @ idx @ ts @ sig) = Some (Stamp (bid @ idx @ ts @ sig))"
    and "Stamp_batch_id (Stamp (bid @ idx @ ts @ sig)) = bid"
    and "Stamp_index (Stamp (bid @ idx @ ts @ sig)) = idx"
    and "Stamp_timestamp (Stamp (bid @ idx @ ts @ sig)) = ts"
    and "Stamp_sig (Stamp (bid @ idx @ ts @ sig)) = sig"
  using assms by (simp_all add: Stamp_parse_def stamp_layout Stamp_batch_id_def Stamp_index_def
      Stamp_timestamp_def Stamp_sig_def)

lemma chunk_address_ok: "length p \<le> CHUNK_SIZE \<Longrightarrow> \<exists>a. chunk_address cr p = Done a"
  by (simp add: chunk_address_def Let_def)

lemma length_chunk_address: "lawful cr \<Longrightarrow> chunk_address cr p = Done a \<Longrightarrow> length a = 32"
  by (auto simp: chunk_address_def Let_def lawfulD split: if_splits)

definition mint_ready :: "crypto \<Rightarrow> minted_codec \<Rightarrow> bool" where
  "mint_ready cr mc \<longleftrightarrow> lawful cr \<and> public_eth_address cr (mc_secret mc) = Some (mc_owner mc)
     \<and> length (mc_batch_id mc) = 32"

lemma mint_ready_new: "lawful cr \<Longrightarrow> MintedCodec_new cr secret seed = Done mc \<Longrightarrow> mint_ready cr mc"
  by (auto simp: MintedCodec_new_def mint_ready_def split: option.splits)

definition honest_delivery :: "triple_codec \<Rightarrow> triple \<Rightarrow> delivery_msg" where
  "honest_delivery codec t =
     \<lparr>delivery_address = tc_address codec t, delivery_data = tc_data codec t, delivery_stamp = tc_stamp codec t\<rparr>"

text \<open>A minted entry: well formed, found again from the delivery, and accepted by both codecs.\<close>

lemma mint_delivers:
  assumes "mint_ready cr mc" and "length payload \<le> CHUNK_SIZE"
  obtains t mc' where "mint cr payload index timestamp mc = Done (t, mc')" and "wf_triple t"
    and "mint_ready cr mc'" and "chunk_address cr payload = Done (address t)"
    and "tc_data (minted cr mc') t = payload" and "length (tc_stamp (minted cr mc') t) = STAMP_SIZE"
    and "tc_triple_of_delivery (minted cr mc') (honest_delivery (minted cr mc') t) = Some t"
    and "tc_validate (minted cr mc') t (honest_delivery (minted cr mc') t) = Done Delivered"
    and "tc_validate (pull_codec cr) t (honest_delivery (minted cr mc') t) = Done Delivered"
proof -
  from assms(1) have cr: "lawful cr" and own: "public_eth_address cr (mc_secret mc) = Some (mc_owner mc)"
    and bid: "length (mc_batch_id mc) = 32" by (auto simp: mint_ready_def)
  obtain a where a: "chunk_address cr payload = Done a" using chunk_address_ok [OF assms(2)] by blast
  let ?idx = "u64_be_bytes index" and ?ts = "u64_be_bytes timestamp"
  let ?h = "eth_prefixed cr (to_sign_digest cr a (mc_batch_id mc) ?idx ?ts)"
  obtain sig where sig: "sign cr (mc_secret mc) ?h = Some sig" "length sig = 65" "recover cr ?h sig = Some (mc_owner mc)"
    using recover_sign [OF cr own] by metis
  let ?st = "mc_batch_id mc @ ?idx @ ?ts @ sig"
  let ?t = "Triple_new a (mc_batch_id mc) (keccak256 cr ?st)"
  let ?mc = "mc\<lparr>mc_store := fmupd ?t (payload, ?st) (mc_store mc)\<rparr>"
  note parts = stamp_parts [OF bid _ _ sig(2), of ?idx ?ts, simplified]
  have len: "length a = 32" using length_chunk_address [OF cr a] .
  have deliv: "honest_delivery (minted cr ?mc) ?t =
      \<lparr>delivery_address = a, delivery_data = payload, delivery_stamp = ?st\<rparr>"
    by (simp add: honest_delivery_def minted_def Triple_new_def)
  have size: "length ?st = STAMP_SIZE" using bid sig(2) by (simp add: stamp_layout)
  have own': "recover_owner cr a (Stamp ?st) = Some (mc_owner mc)" by (simp add: recover_owner_def parts sig(3))
  show ?thesis
  proof (rule that [of ?t ?mc])
    show "mint cr payload index timestamp mc = Done (?t, ?mc)" using a sig(1) by (simp add: mint_def Let_def)
    show "wf_triple ?t" using len bid cr by (simp add: wf_triple_def Triple_new_def lawfulD)
    show "chunk_address cr payload = Done (address ?t)" using a by (simp add: Triple_new_def)
    show "tc_data (minted cr ?mc) ?t = payload" "length (tc_stamp (minted cr ?mc) ?t) = STAMP_SIZE"
      using size by (simp_all add: minted_def)
    show "mint_ready cr ?mc" using assms(1) by (simp add: mint_ready_def)
    show "tc_triple_of_delivery (minted cr ?mc) (honest_delivery (minted cr ?mc) ?t) = Some ?t"
      unfolding deliv using len size parts(1,2) by (simp add: minted_def codec_triple_of_delivery_def del: length_append)
    show "tc_validate (minted cr ?mc) ?t (honest_delivery (minted cr ?mc) ?t) = Done Delivered"
      unfolding deliv using a parts(1) own' by (simp add: minted_def minted_validate_def Triple_new_def valid_def)
    show "tc_validate (pull_codec cr) ?t (honest_delivery (minted cr ?mc) ?t) = Done Delivered"
      unfolding deliv using a parts(1) own' by (simp add: pull_codec_def pull_validate_def Triple_new_def)
  qed
qed

lemma same_identity: "tc_triple_of_delivery (pull_codec cr) = tc_triple_of_delivery (minted cr mc)"
  by (simp add: minted_def pull_codec_def)

subsection \<open>The verdict belongs to the entry\<close>

text \<open>Two deliveries that name the same entry carry the same stamp, or Keccak has a collision.\<close>

lemma delivery_stamp_unique:
  assumes "codec_triple_of_delivery cr d = Some c" and "codec_triple_of_delivery cr d' = Some c"
  shows "delivery_stamp d = delivery_stamp d' \<or> collision cr" and "delivery_address d = address c"
proof -
  have "stamp_hash c = keccak256 cr (delivery_stamp d)" "stamp_hash c = keccak256 cr (delivery_stamp d')"
    using assms by (auto simp: codec_triple_of_delivery_def Triple_new_def Stamp_parse_def split: if_splits)
  then show "delivery_stamp d = delivery_stamp d' \<or> collision cr" using keccak_eqE by metis
  show "delivery_address d = address c"
    using assms by (auto simp: codec_triple_of_delivery_def Triple_new_def Stamp_parse_def split: if_splits)
qed

lemma pull_validate_content:
  "pull_validate cr c d = Done out \<Longrightarrow> out \<noteq> Missed \<Longrightarrow> chunk_address cr (delivery_data d) = Done (address c)"
  by (auto simp: pull_validate_def bind_exec_eq_Done split: if_splits)

lemma delivered_bytes_lemma:
  assumes "lawful cr"
    and "codec_triple_of_delivery cr d = Some c" "codec_triple_of_delivery cr d' = Some c"
    and "pull_validate cr c d = Done out" "pull_validate cr c d' = Done out'"
    and "out \<noteq> Missed" "out' \<noteq> Missed"
  shows "d = d' \<or> collision cr"
proof -
  have "delivery_data d = delivery_data d' \<or> collision cr"
    using chunk_address_binding_lemma [OF assms(1)] pull_validate_content assms(4-7) by metis
  with delivery_stamp_unique [OF assms(2,3)] delivery_stamp_unique(2) [OF assms(3,2)] show ?thesis
    by (cases d; cases d') auto
qed

end
