(* ===== verification/Exchange.thy ===== *)
theory Exchange
  imports Pullsync Codec
begin

section \<open>Client and server over one stream\<close>

text \<open>
  The client pollers of \<open>adapter.rs\<close> joined to its \<open>ServerStream\<close>, without a network in between: what one
  side sends the other is polled with. The lemmas lead to what the two legs return for an honest server.
\<close>

fun loopback ::
  "nat \<Rightarrow> (bytes \<Rightarrow> 'c \<Rightarrow> (client_out \<times> 'c) exec) \<Rightarrow> triple_codec \<Rightarrow> serve_reserve \<Rightarrow> bytes \<Rightarrow> 'c \<Rightarrow> server_stream
     \<Rightarrow> client_out option exec" where
  "loopback 0 poll scodec reserve input c s = Done None"
| "loopback (Suc k) poll scodec reserve input c s =
     bind_exec (poll input c) (\<lambda>(out, c1). case out of
         CSend b \<Rightarrow>
           bind_exec (server_poll scodec reserve b s) (\<lambda>(sout, s1). case sout of
               SSend f \<Rightarrow> loopback k poll scodec reserve f c1 s1
             | SBlocked b st \<Rightarrow> Done None
             | _ \<Rightarrow> loopback k poll scodec reserve [] c1 s1)
       | CNeed \<Rightarrow> Done None
       | fin \<Rightarrow> Done (Some fin))"

subsection \<open>Sizes\<close>

lemma length_Chunk_encode:
  "length (Chunk_encode c) \<le> 60 + length (chunkmsg_address c) + length (chunk_batch_id c) + length (chunk_stamp_hash c)"
  using length_put_bytes_field [of 1 "chunkmsg_address c"] length_put_bytes_field [of 2 "chunk_batch_id c"]
    length_put_bytes_field [of 3 "chunk_stamp_hash c"]
  by (simp add: Chunk_encode_def put_fields_append)

lemma length_Delivery_encode:
  "length (Delivery_encode d) \<le> 60 + length (delivery_address d) + length (delivery_data d) + length (delivery_stamp d)"
  using length_put_bytes_field [of 1 "delivery_address d"] length_put_bytes_field [of 2 "delivery_data d"]
    length_put_bytes_field [of 3 "delivery_stamp d"]
  by (simp add: Delivery_encode_def put_fields_append)

lemma length_concat_le: "\<forall>x \<in> set xs. length (f x) \<le> k \<Longrightarrow> length (concat (map f xs)) \<le> k * length xs"
  by (induction xs) auto

text \<open>A page of at most 250 entries fits a frame, and so do a bitvector over it and a chunk with its stamp.\<close>

definition page_chunks :: "triple_codec \<Rightarrow> (BinId \<times> triple) list \<Rightarrow> chunk_msg list" where
  "page_chunks codec es = map (\<lambda>(_, c). chunk_of codec c) es"

definition page_ok :: "(BinId \<times> triple) list \<Rightarrow> bool" where
  "page_ok es \<longleftrightarrow> length es \<le> MAX_PAGE \<and> (\<forall>(_, t) \<in> set es. wf_triple t)"

context entry_codec
begin

lemma length_chunk_of: "wf_triple t \<Longrightarrow> length (Chunk_encode (chunk_of codec t)) \<le> 156"
  using length_Chunk_encode [of "chunk_of codec t"] part_lengths [of t] by (simp add: chunk_of_def)

lemma chunk_of_encoded: "wf_triple t \<Longrightarrow> Chunk_encode (chunk_of codec t) \<noteq> []"
  using part_lengths [of t] by (auto simp: Chunk_encode_def chunk_of_def put_bytes_field_def put_uvarint_append [of "uvarint x" for x] put_fields_append)

lemma page_offer_sized:
  assumes "page_ok es"
  shows "offer_sized \<lparr>offer_topmost = t, offer_chunks = page_chunks codec es\<rparr>"
    and "length (Offer_encode \<lparr>offer_topmost = t, offer_chunks = page_chunks codec es\<rparr>) \<le> MAX_FRAME"
proof -
  have wf: "\<forall>c \<in> snd ` set es. wf_triple c" and n: "length es \<le> 250"
    using assms by (auto simp: page_ok_def MAX_PAGE_def)
  have "chunk_sized (chunk_of codec c) \<and> Chunk_encode (chunk_of codec c) \<noteq> []
      \<and> length (Chunk_encode (chunk_of codec c)) < 2 ^ 32" if "c \<in> snd ` set es" for c
    using that wf chunk_of_sized chunk_of_encoded length_chunk_of [of c] by force
  then show "offer_sized \<lparr>offer_topmost = t, offer_chunks = page_chunks codec es\<rparr>"
    by (force simp: offer_sized_def page_chunks_def list_all_iff)
  have "length (put_bytes_field [] 2 (Chunk_encode (chunk_of codec c))) \<le> 176" if "c \<in> snd ` set es" for c
    using that wf length_chunk_of [of c] length_put_bytes_field [of 2 "Chunk_encode (chunk_of codec c)"] by force
  then have "length (concat (map (\<lambda>c. put_bytes_field [] 2 (Chunk_encode c)) (page_chunks codec es))) \<le> 176 * length es"
    using length_concat_le [of "page_chunks codec es" "\<lambda>c. put_bytes_field [] 2 (Chunk_encode c)" 176]
    by (force simp: page_chunks_def)
  with n length_put_varint_field [of 1 t] show
    "length (Offer_encode \<lparr>offer_topmost = t, offer_chunks = page_chunks codec es\<rparr>) \<le> MAX_FRAME"
    by (simp add: Offer_encode_def fold_put_bytes MAX_FRAME_def)
qed

end


subsection \<open>The advertisement leg\<close>

locale codec_pair = client: entry_codec ccodec + server: entry_codec scodec
  for ccodec :: triple_codec and scodec :: triple_codec +
  assumes same_parts: "chunk_of ccodec t = chunk_of scodec t"
begin

lemma client_names: "wf_triple t \<Longrightarrow> triple_of_chunk ccodec (chunk_of scodec t) = Some t"
  using client.triple_of_chunk_of same_parts by simp

lemma page_refs_from:
  assumes "\<forall>(_, t) \<in> set es. wf_triple t"
  shows "List.map_filter (\<lambda>(i, ch). map_option (\<lambda>t. (start + of_nat i, t)) (triple_of_chunk ccodec ch))
      (enumerate k (page_chunks scodec es)) = map (\<lambda>(i, (_, t)). (start + of_nat i, t)) (enumerate k es)"
  using assms by (induction es arbitrary: k) (auto simp: page_chunks_def client_names)

lemma page_refs:
  "page_ok es \<Longrightarrow> offer_refs ccodec start (page_chunks scodec es) =
     map (\<lambda>(i, (_, t)). (start + of_nat i, t)) (enumerate 0 es)"
  by (simp add: offer_refs_def page_ok_def page_refs_from)

end

interpretation pull_pair: codec_pair "pull_codec cr" "minted cr' mc" for cr cr' mc
  by unfold_locales (simp add: chunk_of_def pull_codec_def minted_def)

lemma bin_narrow [simp]: "(ucast (ucast (b :: u8) :: u32) :: u8) = b"
  by (rule bit_word_eqI) (simp add: bit_simps)

lemma length_Get_encode: "length (Get_encode g) \<le> 40"
  using length_put_varint_field [of 1 "ucast (get_bin g)"] length_put_varint_field [of 2 "get_start g"]
  by (simp add: Get_encode_def put_fields_append)

text \<open>An honest server answers a \<open>Get\<close> with its page.\<close>

lemma serve_page:
  assumes "sr_collect reserve bin start MAX_PAGE = (es, t)" and "es \<noteq> [] \<or> start \<le> t"
  shows "server_poll codec reserve (frame (Get_encode \<lparr>get_bin = ucast bin, get_start = start\<rparr>)) ServerStream_new =
     Done (SSend (frame (Offer_encode \<lparr>offer_topmost = t, offer_chunks = page_chunks codec es\<rparr>)),
           \<lparr>ss_buf = [], ss_state = (if es = [] then AwaitGet else AwaitWant es)\<rparr>)"
proof -
  let ?g = "\<lparr>get_bin = ucast bin, get_start = start\<rparr>"
  have "deframe (frame (Get_encode ?g)) = Done (Some (Get_encode ?g, length (frame (Get_encode ?g))))"
    using deframe_frame [of "Get_encode ?g" "[]"] length_Get_encode [of ?g] by (simp add: MAX_FRAME_def)
  with assms show ?thesis
    by (auto simp: server_poll_def ServerStream_new_def Let_def get_wire.dec_enc expect_def serve_get_def
        page_chunks_def not_less)
qed

lemma deframe_whole: "length msg \<le> MAX_FRAME \<Longrightarrow> deframe (frame msg) = Done (Some (msg, length (frame msg)))"
  using deframe_frame [of msg "[]"] by simp

context codec_pair
begin

lemma page_arrives:
  assumes "page_ok es"
  shows "deframe (frame (Offer_encode \<lparr>offer_topmost = t, offer_chunks = page_chunks scodec es\<rparr>)) =
      Done (Some (Offer_encode \<lparr>offer_topmost = t, offer_chunks = page_chunks scodec es\<rparr>,
        length (frame (Offer_encode \<lparr>offer_topmost = t, offer_chunks = page_chunks scodec es\<rparr>))))"
    and "expect (Offer_decode (Offer_encode \<lparr>offer_topmost = t, offer_chunks = page_chunks scodec es\<rparr>)) =
      Done \<lparr>offer_topmost = t, offer_chunks = page_chunks scodec es\<rparr>"
  using deframe_whole server.page_offer_sized [OF assms, of t] by (simp_all add: offer_wire.dec_enc expect_def)

lemma offer_leg:
  assumes "sr_collect reserve bin start MAX_PAGE = (es, t)" and "es \<noteq> [] \<or> start \<le> t" and "page_ok es"
  shows "loopback 2 (offer_poll ccodec) scodec reserve [] (OfferClient_new bin start) ServerStream_new =
    Done (Some (COfferDone (map (\<lambda>(i, (_, c)). (start + of_nat i, c)) (enumerate 0 es)) t))"
  using serve_page [OF assms(1,2), of scodec] page_arrives [OF assms(3), of t]
  by (simp add: numeral_2_eq_2 offer_poll_def OfferClient_new_def Let_def page_refs [OF assms(3)])

end

subsection \<open>The delivery leg\<close>

text \<open>The wanted entries of a page, in the page's order: what the bitvector asks for.\<close>

definition hits :: "triple list \<Rightarrow> (BinId \<times> triple) list \<Rightarrow> triple list" where
  "hits ws es = filter (\<lambda>t. t \<in> set ws) (map snd es)"

context codec_pair
begin

lemma match_page:
  assumes "\<forall>(_, t) \<in> set es. wf_triple t" and "distinct (map snd es)" and "fset pending \<inter> snd ` set es = {}"
    and "k + length es \<le> 8 * length bv"
  shows "\<exists>bv' pending'. match_wants ccodec ws (enumerate k (page_chunks scodec es)) (bv, pending) = Done (bv', pending')
    \<and> length bv' = length bv \<and> fset pending' = fset pending \<union> set (hits ws es)
    \<and> (\<forall>j. bitvector_get bv' j \<longleftrightarrow> bitvector_get bv j \<or> (k \<le> j \<and> j < k + length es \<and> snd (es ! (j - k)) \<in> set ws))"
  using assms
proof (induction es arbitrary: k bv pending)
  case (Cons e es)
  obtain b t where e: "e = (b, t)" by (cases e)
  have name: "triple_of_chunk ccodec (chunk_of scodec t) = Some t" using Cons.prems(1) e client_names by simp
  have prems: "\<forall>(_, t) \<in> set es. wf_triple t" "distinct (map snd es)" "t \<notin> snd ` set es" "t |\<notin>| pending"
    "fset pending \<inter> snd ` set es = {}" "Suc k + length es \<le> 8 * length bv"
    using Cons.prems e by auto
  have shift: "(k \<le> j \<and> j < k + length (e # es) \<and> snd ((e # es) ! (j - k)) \<in> set ws) \<longleftrightarrow>
      (j = k \<and> t \<in> set ws) \<or> (Suc k \<le> j \<and> j < Suc k + length es \<and> snd (es ! (j - Suc k)) \<in> set ws)" for j
    using e by (cases "j = k") (auto simp: nth_Cons' Suc_diff_Suc)
  show ?case
  proof (cases "t \<in> set ws")
    case True
    have i: "k div 8 < length bv" using prems(6) by (simp add: less_mult_imp_div_less)
    obtain bv1 where bv1: "bitvector_set k bv = Done bv1" "length bv1 = length bv"
      "\<forall>j. bitvector_get bv1 j \<longleftrightarrow> j = k \<or> bitvector_get bv j" using bitvector_set_ok [OF i] by blast
    have "fset (finsert t pending) \<inter> snd ` set es = {}" using prems by auto
    from Cons.IH [OF prems(1,2) this, of "Suc k" bv1] prems(6) bv1(2) obtain bv' pending' where
      r: "match_wants ccodec ws (enumerate (Suc k) (page_chunks scodec es)) (bv1, finsert t pending) = Done (bv', pending')"
      "length bv' = length bv1" "fset pending' = fset (finsert t pending) \<union> set (hits ws es)"
      "\<forall>j. bitvector_get bv' j \<longleftrightarrow> bitvector_get bv1 j \<or> (Suc k \<le> j \<and> j < Suc k + length es \<and> snd (es ! (j - Suc k)) \<in> set ws)"
      by auto
    have "match_wants ccodec ws (enumerate k (page_chunks scodec (e # es))) (bv, pending) = Done (bv', pending')"
      using True prems(4) name bv1(1) r(1) e by (simp add: page_chunks_def match_wants_step)
    with r bv1 True e show ?thesis unfolding shift by (auto simp: hits_def)
  next
    case False
    have "match_wants ccodec ws (enumerate k (page_chunks scodec (e # es))) (bv, pending) =
        match_wants ccodec ws (enumerate (Suc k) (page_chunks scodec es)) (bv, pending)"
      using False name e by (simp add: page_chunks_def match_wants_step)
    with Cons.IH [OF prems(1,2,5,6)] False e show ?thesis unfolding shift by (auto simp: hits_def)
  qed
qed (auto simp: page_chunks_def hits_def)

end

text \<open>The deliveries a server sends for a bitvector, and how the client takes them one after the other.\<close>

lemma serve_want_frames:
  assumes "\<forall>j < length es. bitvector_get bv (k + j) \<longleftrightarrow> snd (es ! j) \<in> set ws"
  shows "concat (map (\<lambda>(i, (_, t)). if \<not> bitvector_get bv i then []
        else frame (Delivery_encode (delivery_of codec reserve t))) (enumerate k es)) =
     concat (map (\<lambda>t. frame (Delivery_encode (delivery_of codec reserve t))) (hits ws es))"
  using assms
proof (induction es arbitrary: k)
  case (Cons e es)
  have "\<forall>j < length es. bitvector_get bv (Suc k + j) \<longleftrightarrow> snd (es ! j) \<in> set ws"
    using Cons.prems by (metis Suc_less_eq add_Suc_shift length_Cons nth_Cons_Suc)
  moreover have "bitvector_get bv k \<longleftrightarrow> snd e \<in> set ws" using Cons.prems by force
  ultimately show ?case using Cons.IH [of "Suc k"] by (cases e) (simp add: hits_def)
qed (simp add: hits_def)

fun take_all :: "triple_codec \<Rightarrow> delivery_msg list \<Rightarrow> triple fset \<times> (triple \<times> outcome) list
    \<Rightarrow> (triple fset \<times> (triple \<times> outcome) list) exec" where
  "take_all codec [] acc = Done acc"
| "take_all codec (d # ds) acc = bind_exec (take_delivery codec d acc) (take_all codec ds)"

lemma deliveries_loop_frames:
  assumes "\<forall>d \<in> set ds. delivery_sized d \<and> length (Delivery_encode d) \<le> MAX_FRAME"
    and "fc_buf cl = concat (map (\<lambda>d. frame (Delivery_encode d)) ds)"
  shows "deliveries_loop codec cl pending (length ds) =
     bind_exec (take_all codec ds (pending, fc_outcomes cl)) (\<lambda>(P, os).
       Done (fetch_close (cl\<lparr>fc_buf := [], fc_outcomes := os, fc_state := AwaitDeliveries P 0\<rparr>)))"
  using assms
proof (induction ds arbitrary: cl pending)
  case Nil
  then show ?case by (cases cl) simp
next
  case (Cons d ds)
  let ?buf = "concat (map (\<lambda>d. frame (Delivery_encode d)) ds)"
  have fr: "deframe (fc_buf cl) = Done (Some (Delivery_encode d, length (frame (Delivery_encode d))))"
    using Cons.prems deframe_frame [of "Delivery_encode d" ?buf] by simp
  have dec: "expect (Delivery_decode (Delivery_encode d)) = Done d"
    using Cons.prems by (simp add: expect_def delivery_wire.dec_enc)
  show ?case
  proof (cases "take_delivery codec d (pending, fc_outcomes cl)")
    case (Done acc)
    obtain P os where acc: "acc = (P, os)" by (cases acc)
    have "deliveries_loop codec (cl\<lparr>fc_buf := ?buf, fc_outcomes := os\<rparr>) P (length ds) =
       bind_exec (take_all codec ds (P, os)) (\<lambda>(P, os).
         Done (fetch_close (cl\<lparr>fc_buf := [], fc_outcomes := os, fc_state := AwaitDeliveries P 0\<rparr>)))"
      using Cons.IH [of "cl\<lparr>fc_buf := ?buf, fc_outcomes := os\<rparr>" P] Cons.prems(1) by simp
    with fr dec Done acc Cons.prems(2) show ?thesis by simp
  qed (use fr dec in simp)
qed

text \<open>What a server holds of an entry is what the client's codec accepts for it.\<close>

definition serves :: "triple_codec \<Rightarrow> triple_codec \<Rightarrow> serve_reserve \<Rightarrow> triple \<Rightarrow> bool" where
  "serves ccodec scodec reserve t \<longleftrightarrow> (sr_has reserve t \<longrightarrow>
     (let d = delivery_of scodec reserve t in
        \<not> zero_address d \<and> tc_triple_of_delivery ccodec d = Some t \<and> tc_validate ccodec t d = Done Delivered
      \<and> length (delivery_address d) = 32 \<and> length (delivery_data d) \<le> CHUNK_SIZE \<and> length (delivery_stamp d) = STAMP_SIZE))"

lemma delivery_fits:
  assumes "serves ccodec scodec reserve t"
  shows "delivery_sized (delivery_of scodec reserve t)"
    and "length (Delivery_encode (delivery_of scodec reserve t)) \<le> MAX_FRAME"
proof -
  let ?d = "delivery_of scodec reserve t"
  have "length (delivery_address ?d) \<le> 32" "length (delivery_data ?d) \<le> 4096" "length (delivery_stamp ?d) \<le> 113"
    using assms by (auto simp: serves_def Let_def delivery_of_def CHUNK_SIZE_def STAMP_SIZE_def split: if_splits)
  with length_Delivery_encode [of ?d] show "delivery_sized ?d" "length (Delivery_encode ?d) \<le> MAX_FRAME"
    by (simp_all add: delivery_sized_def MAX_FRAME_def)
qed

lemma take_all_served:
  assumes "distinct ts" and "set ts \<subseteq> fset P" and "\<forall>t \<in> set ts. serves ccodec scodec reserve t"
  shows "take_all ccodec (map (delivery_of scodec reserve) ts) (P, os) =
     Done (P |-| fset_of_list (filter (sr_has reserve) ts), os @ map (\<lambda>t. (t, Delivered)) (filter (sr_has reserve) ts))"
  using assms
proof (induction ts arbitrary: P os)
  case (Cons t ts)
  show ?case
  proof (cases "sr_has reserve t")
    case True
    then have "take_delivery ccodec (delivery_of scodec reserve t) (P, os) = Done (P |-| {|t|}, os @ [(t, Delivered)])"
      using Cons.prems by (auto simp: take_delivery_def serves_def Let_def)
    moreover have "P |-| {|t|} |-| X = P |-| finsert t X" for X by auto
    moreover have "set ts \<subseteq> fset (P |-| {|t|})" "distinct ts" "\<forall>t \<in> set ts. serves ccodec scodec reserve t"
      using Cons.prems by auto
    ultimately show ?thesis using Cons.IH [of "P |-| {|t|}" "os @ [(t, Delivered)]"] True by simp
  next
    case False
    then have "take_delivery ccodec (delivery_of scodec reserve t) (P, os) = Done (P, os)"
      by (simp add: take_delivery_def zero_address_def delivery_of_def list_all_iff)
    with Cons.IH [of P] Cons.prems False show ?thesis by simp
  qed
qed simp

lemma le_eight_div: "(m :: nat) \<le> n \<Longrightarrow> m \<le> 8 * (n div 8 + 1)"
  by presburger

definition answers :: "triple list \<Rightarrow> (triple \<Rightarrow> bool) \<Rightarrow> (triple \<times> outcome) list \<Rightarrow> bool" where
  "answers ws held os \<longleftrightarrow> distinct (map fst os) \<and> set os = (\<lambda>t. (t, if held t then Delivered else Missed)) ` set ws"

lemma answers_parts:
  assumes "distinct hs" and "distinct ws" and "set hs = {t \<in> set ws. off t}" and "fset P = set hs"
  shows "answers ws (\<lambda>t. off t \<and> held t)
    (map (\<lambda>t. (t, Missed)) (filter (\<lambda>t. t |\<notin>| P) ws) @ map (\<lambda>t. (t, Delivered)) (filter held hs)
      @ map (\<lambda>t. (t, Missed)) (sorted_list_of_fset (P |-| fset_of_list (filter held hs))))"
    (is "answers ws _ ?os")
  unfolding answers_def
proof
  show "distinct (map fst ?os)" using assms by (auto simp: comp_def fset_of_list.rep_eq)
  show "set ?os = (\<lambda>t. (t, if off t \<and> held t then Delivered else Missed)) ` set ws"
    using assms by (auto simp: fset_of_list.rep_eq image_iff)
qed

context codec_pair
begin

lemma match_whole_page:
  assumes "page_ok es" and "distinct (map snd es)"
  shows "\<exists>bv pending. match_wants ccodec ws (enumerate 0 (page_chunks scodec es))
      (bitvector_new (max (length (page_chunks scodec es)) 1), {||}) = Done (bv, pending)
    \<and> length bv \<le> 32 \<and> fset pending = set (hits ws es)
    \<and> (\<forall>j < length es. bitvector_get bv (0 + j) \<longleftrightarrow> snd (es ! j) \<in> set ws)"
proof -
  let ?n = "max (length (page_chunks scodec es)) 1"
  have n: "length es \<le> ?n" "?n \<le> 250" using assms(1) by (auto simp: page_chunks_def page_ok_def MAX_PAGE_def)
  have "?n div 8 \<le> 31" using div_le_mono [OF n(2), of 8] by simp
  moreover have "0 + length es \<le> 8 * length (bitvector_new ?n)"
    using le_eight_div [OF n(1)] by simp
  ultimately show ?thesis
    using match_page [of es "{||}" 0 "bitvector_new ?n" ws] assms by (fastforce simp: page_ok_def)
qed

lemma want_arrives:
  assumes "length bv \<le> 32" and "\<forall>j < length es. bitvector_get bv (0 + j) \<longleftrightarrow> snd (es ! j) \<in> set ws"
  shows "server_poll scodec reserve (frame (Want_encode \<lparr>want_bitvector = bv\<rparr>)) \<lparr>ss_buf = [], ss_state = AwaitWant es\<rparr> =
    Done (if concat (map (\<lambda>t. frame (Delivery_encode (delivery_of scodec reserve t))) (hits ws es)) = [] then SDone
          else SSend (concat (map (\<lambda>t. frame (Delivery_encode (delivery_of scodec reserve t))) (hits ws es))),
          \<lparr>ss_buf = [], ss_state = AwaitWant es\<rparr>)"
proof -
  have "length (Want_encode \<lparr>want_bitvector = bv\<rparr>) \<le> MAX_FRAME"
    using assms(1) length_put_bytes_field [of 1 bv] by (simp add: Want_encode_def MAX_FRAME_def)
  from deframe_whole [OF this] assms(1) show ?thesis
    by (simp add: server_poll_def Let_def want_wire.dec_enc expect_def serve_want_def serve_want_frames [OF assms(2)] del: concat_eq_Nil_conv)
qed

lemma fetch_leg:
  assumes "sr_collect reserve bin start MAX_PAGE = (es, t)" and "es \<noteq> [] \<or> start \<le> t" and "page_ok es"
    and "distinct (map snd es)" and "distinct ws" and "\<forall>t \<in> set (hits ws es). serves ccodec scodec reserve t"
  shows "\<exists>os. loopback 3 (fetch_poll ccodec) scodec reserve [] (FetchClient_new bin start ws) ServerStream_new =
      Done (Some (CFetchDone os)) \<and> answers ws (\<lambda>t. t \<in> snd ` set es \<and> sr_has reserve t) os"
proof -
  obtain bv pending where m: "match_wants ccodec ws (enumerate 0 (page_chunks scodec es))
      (bitvector_new (max (length (page_chunks scodec es)) 1), {||}) = Done (bv, pending)"
    and bv: "length bv \<le> 32" "\<forall>j < length es. bitvector_get bv (0 + j) \<longleftrightarrow> snd (es ! j) \<in> set ws"
    and pending: "fset pending = set (hits ws es)" using match_whole_page [OF assms(3,4)] by metis
  let ?missing = "map (\<lambda>t. (t, Missed)) (filter (\<lambda>t. t |\<notin>| pending) ws)"
  let ?frames = "concat (map (\<lambda>t. frame (Delivery_encode (delivery_of scodec reserve t))) (hits ws es))"
  let ?cl = "\<lparr>fc_bin = bin, fc_start = start, fc_want = ws, fc_buf = [], fc_state = AwaitDeliveries pending (fcard pending),
      fc_outcomes = ?missing\<rparr>"
  note page = serve_page [OF assms(1,2), of scodec] page_arrives [OF assms(3), of t]
  show ?thesis
  proof (cases "es = []")
    case True
    then have "fset pending = {}" using pending by (simp add: hits_def)
    with True m page assms(5) show ?thesis
      by (simp add: numeral_3_eq_3 fetch_poll_def FetchClient_new_def Let_def take_offer_def fetch_close_def
          page_chunks_def answers_def comp_def)
  next
    case False
    let ?P = "pending |-| fset_of_list (filter (sr_has reserve) (hits ws es))"
    let ?os = "?missing @ map (\<lambda>t. (t, Delivered)) (filter (sr_has reserve) (hits ws es))"
    have dist: "distinct (hits ws es)" using assms(4) by (simp add: hits_def)
    then have card: "fcard pending = length (hits ws es)"
      using pending by (simp add: fcard.rep_eq distinct_card)
    have fits: "\<forall>t \<in> set (hits ws es). delivery_sized (delivery_of scodec reserve t)
        \<and> length (Delivery_encode (delivery_of scodec reserve t)) \<le> MAX_FRAME"
      using assms(6) delivery_fits by blast
    have "take_all ccodec (map (delivery_of scodec reserve) (hits ws es)) (pending, ?missing) = Done (?P, ?os)"
      using take_all_served [OF dist _ assms(6), of pending ?missing] pending by simp
    then have loop: "deliveries_loop ccodec (?cl\<lparr>fc_buf := ?frames\<rparr>) pending (fcard pending) =
        Done (fetch_close (?cl\<lparr>fc_buf := [], fc_outcomes := ?os, fc_state := AwaitDeliveries ?P 0\<rparr>))"
      using deliveries_loop_frames [of "map (delivery_of scodec reserve) (hits ws es)" "?cl\<lparr>fc_buf := ?frames\<rparr>" ccodec pending]
        fits card by (simp add: comp_def)
    have "answers ws (\<lambda>t. t \<in> snd ` set es \<and> sr_has reserve t) (?os @ map (\<lambda>t. (t, Missed)) (sorted_list_of_fset ?P))"
      unfolding append_assoc by (rule answers_parts [OF dist assms(5) _ pending]) (auto simp: hits_def)
    moreover have "loopback 3 (fetch_poll ccodec) scodec reserve [] (FetchClient_new bin start ws) ServerStream_new =
        Done (Some (CFetchDone (?os @ map (\<lambda>t. (t, Missed)) (sorted_list_of_fset ?P))))"
      using False m page want_arrives [OF bv, where reserve = reserve] loop
      by (cases "?frames = []") (simp_all add: numeral_3_eq_3 fetch_poll_def FetchClient_new_def Let_def take_offer_def fetch_close_def
          page_chunks_def comp_def del: concat_eq_Nil_conv)
    ultimately show ?thesis by blast
  qed
qed

end

end
