(* ===== verification/Wire_Props.thy ===== *)
theory Wire_Props
  imports Exchange
begin

section \<open>Properties of the wire: messages, streams, codecs, sessions\<close>

text \<open>
  The properties of \<open>crates/protobuf\<close>, \<open>crates/crypto\<close>, \<open>crates/wire\<close> and \<open>crates/net/src/pullsync.rs\<close>,
  over the lemmas of the component theories, with the concrete cases that satisfy their hypotheses.
\<close>

subsection \<open>A concrete set of primitives\<close>

text \<open>
  Not cryptography, but functions with the laws the code relies on: the digest is the first 32 bytes,
  a signature carries its key.
\<close>

definition plain :: crypto where
  "plain = \<lparr>keccak256 = (\<lambda>x. take 32 (x @ replicate 32 0)),
     public_key = (\<lambda>s. if length s = 32 then Some (4 # s @ s) else None),
     sign_prehash = (\<lambda>s h. if length s = 32 then Some (s @ s, 0) else None),
     recover_from_prehash = (\<lambda>h sig r. if length sig = 64 \<and> r = 0 then Some (4 # sig) else None)\<rparr>"

lemma plain_lawful: "lawful plain"
  by (auto simp: plain_def lawful_def split: if_splits)

lemma plain_keccak [simp]: "keccak256 plain x = take 32 (x @ replicate 32 0)"
  by (simp add: plain_def)

lemma plain_root: "32 \<le> length x \<Longrightarrow> bmt_root plain x = take 32 x"
proof (induction "length x" arbitrary: x rule: less_induct)
  case less
  show ?case
  proof (cases "length x \<le> 2 * SECTION")
    case False
    then have "32 \<le> length x div 2" "length x div 2 < length x" by (auto simp: SECTION_def)
    with less.hyps [of "take (length x div 2) x"] False show ?thesis
      by (simp add: bmt_root.simps [of plain x] hash_pair_def Let_def min_absorb1)
  qed (use less.prems in \<open>simp add: bmt_root.simps\<close>)
qed

lemma deframe_Nil [simp]: "deframe [] = Done None"
  by (simp add: deframe_def get_uvarint_def)

subsection \<open>Messages\<close>



text \<open>
  A frame is taken whole off the front of the buffer whatever follows it, and while any byte of it
  is missing the reader waits: it neither decodes nor refuses a prefix.
\<close>

theorem frame_reassembly:
  assumes "length msg \<le> MAX_FRAME"
  shows "deframe (frame msg @ rest) = Done (Some (msg, length (frame msg)))
    \<and> drop (length (frame msg)) (frame msg @ rest) = rest
    \<and> (\<forall>k < length (frame msg). deframe (take k (frame msg)) = Done None)"
  using deframe_frame [OF assms] deframe_prefix [OF assms] by simp

theorem frame_reassembly_witness:
  "deframe (frame [1, 2, 3] @ [9]) = Done (Some ([1, 2, 3], 4)) \<and> deframe (take 2 (frame [1, 2, 3])) = Done None"
proof -
  have "length (frame [1, 2, 3]) = 4" by (simp add: frame_def put_uvarint.simps)
  then show ?thesis using frame_reassembly [of "[1, 2, 3]" "[9]"] by (simp add: MAX_FRAME_def)
qed

text \<open>
  C39: A frame header above the cap panics in the reader, and so does a field whose length wraps the
  end of the slice below its start: a peer stops the process with one message, whichever poller reads it.
\<close>

theorem hostile_length_panics:
  assumes "MAX_FRAME < unat len"
  shows "deframe (uvarint len @ rest) = Panic
    \<and> offer_poll codec (uvarint len @ rest) ((OfferClient_new bin start)\<lparr>oc_sent := True\<rparr>) = Panic
    \<and> pb_fields (uvarint 10 @ uvarint (- 1) @ tail) f s = Panic"
proof -
  have d: "deframe (uvarint len @ rest) = Panic" using assms by (simp add: deframe_def)
  let ?n = "length (uvarint (- 1))"
  have n: "0 < ?n" "?n \<le> 10" using length_uvarint by (simp_all add: length_greater_0_conv)
  obtain m where "?n = Suc m" using n(1) by (cases ?n) auto
  then have "(of_nat ?n + (- 1) :: u64) = of_nat (?n - 1)" by simp
  moreover have "unat (of_nat (?n - 1) :: u64) = ?n - 1" using n by (simp only: unat_of_nat) simp
  ultimately have "unat (of_nat ?n + (- 1) :: u64) = ?n - 1" by (simp only:)
  moreover have "\<not> ?n \<le> ?n - Suc 0" using n(1) by linarith
  ultimately have "next_field (uvarint 10 @ uvarint (- 1) @ tail) = Panic"
    by (simp add: next_field_def Let_def slice_def)
  then have "pb_fields (uvarint 10 @ uvarint (- 1) @ tail) f s = Panic"
    by (subst pb_fields.simps) simp
  with d show ?thesis by (simp add: offer_poll_def OfferClient_new_def)
qed

theorem hostile_length_panics_witness:
  "deframe (uvarint 131073 @ []) = Panic"
  by (rule hostile_length_panics [THEN conjunct1]) (simp add: MAX_FRAME_def)

subsection \<open>The delivery leg\<close>





text \<open>
  C14: With an honest server the delivery leg ends, and its outcomes are: delivered for the wants the
  page names and the server still has, missed for the others, one per want. The client is the pulling
  codec, the server a minting one, the server's entries are what the client's codec accepts.
\<close>

theorem honest_fetch_delivers:
  assumes "sr_collect reserve bin start MAX_PAGE = (es, t)" and "es \<noteq> [] \<or> start \<le> t" and "page_ok es"
    and "distinct (map snd es)" and "distinct ws"
    and "\<forall>c \<in> set (hits ws es). serves (pull_codec cr) (minted cr mc) reserve c"
  shows "\<exists>os. loopback 3 (fetch_poll (pull_codec cr)) (minted cr mc) reserve [] (FetchClient_new bin start ws) ServerStream_new =
      Done (Some (CFetchDone os)) \<and> answers ws (\<lambda>c. c \<in> snd ` set es \<and> sr_has reserve c) os"
  using assms by (rule pull_pair.fetch_leg)

text \<open>
  With an honest server the advertisement leg ends with the server's page: every entry, in order,
  filed from \<open>start\<close> upwards, and the server's topmost id.
\<close>

theorem honest_offer_complete:
  assumes "sr_collect reserve bin start MAX_PAGE = (es, t)" and "es \<noteq> [] \<or> start \<le> t" and "page_ok es"
  shows "loopback 2 (offer_poll (pull_codec cr)) (minted cr mc) reserve [] (OfferClient_new bin start) ServerStream_new =
    Done (Some (COfferDone (map (\<lambda>(i, (_, c)). (start + of_nat i, c)) (enumerate 0 es)) t))"
  using assms by (rule pull_pair.offer_leg)

text \<open>
  The position a client files an entry at is at most the id the server has for it, when the server's
  page is in strictly increasing order from \<open>start\<close>: what is settled is never past what was offered.
\<close>

theorem synthetic_positions_conservative:
  assumes "page_ok es" and "sorted_wrt (<) (map fst es)" and "\<forall>b \<in> set (map fst es). start \<le> b"
  shows "\<forall>(pos, c) \<in> set (offer_refs (pull_codec cr) start (page_chunks (minted cr mc) es)). \<exists>b. (b, c) \<in> set es \<and> pos \<le> b"
proof -
  have below: "unat start + i \<le> unat (fst (es ! i))" if "i < length es" for i
    using that
  proof (induction i)
    case 0
    then have "fst (es ! 0) \<in> set (map fst es)" by simp
    with assms(3) show ?case by (simp add: word_le_nat_alt del: set_map)
  next
    case (Suc i)
    then have "fst (es ! i) < fst (es ! Suc i)" using assms(2) by (simp add: sorted_wrt_iff_nth_less)
    with Suc show ?case by (simp add: word_less_nat_alt)
  qed
  have "start + of_nat i \<le> fst (es ! i)" if "i < length es" for i
  proof -
    have "unat (fst (es ! i)) < 2 ^ LENGTH(64)" by (rule unsigned_less)
    then have "unat (start + of_nat i :: BinId) = unat start + i"
      using below [OF that] by (simp add: unat_word_ariths unat_of_nat)
    with below [OF that] show ?thesis by (simp add: word_le_nat_alt)
  qed
  then have "\<exists>b. (b, c) \<in> set es \<and> pos \<le> b"
    if "(pos, c) \<in> set (map (\<lambda>(i, (_, c)). (start + of_nat i, c)) (enumerate 0 es))" for pos c
  proof -
    from that obtain i where "i < length es" "pos = start + of_nat i" "c = snd (es ! i)"
      by (auto simp: in_set_enumerate_eq)
    with \<open>\<And>i. i < length es \<Longrightarrow> start + of_nat i \<le> fst (es ! i)\<close> show ?thesis
      by (metis nth_mem prod.collapse)
  qed
  then show ?thesis unfolding pull_pair.page_refs [OF assms(1)] by blast
qed

definition page_of_two :: "(BinId \<times> triple) list" where
  "page_of_two = [(5, mock 1), (9, mock 2)]"

lemma page_of_two_ok: "page_ok page_of_two"
  by (simp add: page_ok_def page_of_two_def MAX_PAGE_def)

theorem synthetic_positions_conservative_witness:
  "(5, mock 2) \<in> set (offer_refs (pull_codec plain) 4 (page_chunks (minted plain (minted_codec.make [] [] [] fmempty)) page_of_two))
   \<and> (\<exists>b. (b, mock 2) \<in> set page_of_two \<and> 5 \<le> b)"
proof
  let ?mc = "minted_codec.make [] [] [] fmempty"
  show refs: "(5, mock 2) \<in> set (offer_refs (pull_codec plain) 4 (page_chunks (minted plain ?mc) page_of_two))"
    unfolding pull_pair.page_refs [OF page_of_two_ok] by (simp add: page_of_two_def)
  have "\<forall>(pos, c) \<in> set (offer_refs (pull_codec plain) 4 (page_chunks (minted plain ?mc) page_of_two)).
      \<exists>b. (b, c) \<in> set page_of_two \<and> pos \<le> b"
    by (rule synthetic_positions_conservative [OF page_of_two_ok]) (simp_all add: page_of_two_def)
  with refs show "\<exists>b. (b, mock 2) \<in> set page_of_two \<and> 5 \<le> b" by blast
qed

theorem honest_offer_complete_witness:
  "loopback 2 (offer_poll (pull_codec plain)) (minted plain (minted_codec.make [] [] [] fmempty))
      \<lparr>sr_collect = (\<lambda>_ _ _. (page_of_two, 9)), sr_has = (\<lambda>_. True), sr_cursors = [], sr_epoch = 1\<rparr> []
      (OfferClient_new 3 4) ServerStream_new = Done (Some (COfferDone [(4, mock 1), (5, mock 2)] 9))"
proof -
  let ?r = "\<lparr>sr_collect = (\<lambda>_ _ _. (page_of_two, 9)), sr_has = (\<lambda>_. True), sr_cursors = [], sr_epoch = 1\<rparr> :: serve_reserve"
  have "sr_collect ?r 3 4 MAX_PAGE = (page_of_two, 9)" by simp
  from honest_offer_complete [OF this _ page_of_two_ok, of plain "minted_codec.make [] [] [] fmempty"]
  show ?thesis by (simp add: page_of_two_def)
qed

subsection \<open>Codecs\<close>

text \<open>
  C33: What a codec mints, both codecs accept: a fresh codec is ready to mint and stays so, the minted
  entry is well formed and stored, its delivery names it again, and validates as delivered for the
  minting owner and for a puller that knows no owner.
\<close>

theorem minted_entry_accepted:
  assumes "lawful cr" and "MintedCodec_new cr secret seed = Done mc \<or> mint_ready cr mc" and "length payload \<le> CHUNK_SIZE"
  shows "\<exists>t mc'. mint cr payload index timestamp mc = Done (t, mc') \<and> wf_triple t \<and> mint_ready cr mc'
    \<and> tc_data (minted cr mc') t = payload
    \<and> tc_triple_of_delivery (pull_codec cr) (honest_delivery (minted cr mc') t) = Some t
    \<and> tc_validate (minted cr mc') t (honest_delivery (minted cr mc') t) = Done Delivered
    \<and> tc_validate (pull_codec cr) t (honest_delivery (minted cr mc') t) = Done Delivered"
proof -
  have "mint_ready cr mc" using assms(1,2) mint_ready_new by blast
  then show ?thesis
    using assms(3) by (rule mint_delivers [where index = index and timestamp = timestamp])
       (metis same_identity)
qed

definition owner_secret :: bytes where
  "owner_secret = replicate 32 7"

lemma owner_secret_ok: "\<exists>mc. MintedCodec_new plain owner_secret 1 = Done mc"
  by (simp add: MintedCodec_new_def public_eth_address_def plain_def owner_secret_def)

theorem minted_entry_accepted_witness:
  "\<exists>mc t mc'. MintedCodec_new plain owner_secret 1 = Done mc \<and> mint plain [1, 2, 3] 0 0 mc = Done (t, mc')
     \<and> tc_validate (pull_codec plain) t (honest_delivery (minted plain mc') t) = Done Delivered"
proof -
  obtain mc where mc: "MintedCodec_new plain owner_secret 1 = Done mc" using owner_secret_ok by blast
  with minted_entry_accepted [OF plain_lawful disjI1 [OF mc], of "[1, 2, 3]" 0 0] show ?thesis
    by (auto simp: CHUNK_SIZE_def)
qed


text \<open>
  The chunk address binds the payload: two different payloads of at most 4096 bytes with one
  address exhibit two inputs on which Keccak agrees. Padding and span leave no second preimage.
\<close>

theorem chunk_address_binding:
  assumes "lawful cr" and "chunk_address cr p = Done a" and "chunk_address cr q = Done a" and "p \<noteq> q"
  shows "collision cr"
  using chunk_address_binding_lemma [OF assms(1-3)] assms(4) by simp

text \<open>
  A delivery of more than 4096 bytes of data panics the validation of both codecs, whatever entry it
  names; every shorter one gets a verdict.
\<close>

theorem oversize_delivery_panics:
  "(tc_validate (pull_codec cr) c d = Panic \<longleftrightarrow> CHUNK_SIZE < length (delivery_data d))
   \<and> (tc_validate (minted cr mc) c d = Panic \<longleftrightarrow> CHUNK_SIZE < length (delivery_data d))"
  by (simp add: pull_codec_def minted_def pull_validate_def minted_validate_def chunk_address_def Let_def)

text \<open>Minted under the concrete primitives: an entry a server can serve, with an address that is not zero.\<close>

lemma plain_served:
  obtains t mc where "wf_triple t" and "serves (pull_codec plain) (minted plain mc) reserve t"
proof -
  obtain mc0 where mc0: "MintedCodec_new plain owner_secret 1 = Done mc0" using owner_secret_ok by blast
  have ready: "mint_ready plain mc0" by (rule mint_ready_new [OF plain_lawful mc0])
  obtain t mc where t: "wf_triple t" "chunk_address plain [1, 2, 3] = Done (address t)"
    "tc_data (minted plain mc) t = [1, 2, 3]" "length (tc_stamp (minted plain mc) t) = STAMP_SIZE"
    "tc_triple_of_delivery (minted plain mc) (honest_delivery (minted plain mc) t) = Some t"
    "tc_validate (pull_codec plain) t (honest_delivery (minted plain mc) t) = Done Delivered"
    by (rule mint_delivers [OF ready, of "[1, 2, 3]" 0 0]) (simp add: CHUNK_SIZE_def)
  have d: "delivery_of (minted plain mc) reserve t = honest_delivery (minted plain mc) t" if "sr_has reserve t"
    using that by (simp add: delivery_of_def honest_delivery_def)
  have "u64_le_bytes 3 = [3, 0, 0, 0, 0, 0, 0, 0]" by code_simp
  then have "3 \<in> set (address t)"
    using t(2) by (simp add: chunk_address_def Let_def CHUNK_SIZE_def) (metis list.set_intros(1))
  then have "\<not> zero_address (honest_delivery (minted plain mc) t)"
    by (auto simp: zero_address_def honest_delivery_def minted_def list_all_iff intro!: bexI [of _ 3])
  moreover have "tc_triple_of_delivery (pull_codec plain) (honest_delivery (minted plain mc) t) = Some t"
    using t(5) by (simp add: same_identity [of plain mc])
  moreover have "length (address t) = 32" using t(1) by (simp add: wf_triple_def)
  ultimately have "serves (pull_codec plain) (minted plain mc) reserve t"
    using t d by (auto simp: serves_def Let_def CHUNK_SIZE_def) (auto simp: honest_delivery_def minted_def)
  with t(1) show ?thesis by (rule that)
qed

theorem honest_fetch_delivers_witness:
  "\<exists>mc t. loopback 3 (fetch_poll (pull_codec plain)) (minted plain mc)
      \<lparr>sr_collect = (\<lambda>_ _ _. ([(5, t)], 5)), sr_has = (\<lambda>_. True), sr_cursors = [], sr_epoch = 1\<rparr> []
      (FetchClient_new 3 4 [t]) ServerStream_new = Done (Some (CFetchDone [(t, Delivered)]))"
proof -
  let ?r = "\<lambda>t. \<lparr>sr_collect = (\<lambda>_ _ _. ([(5, t)], 5)), sr_has = (\<lambda>_. True), sr_cursors = [], sr_epoch = 1\<rparr> :: serve_reserve"
  obtain t mc where t: "wf_triple t" "serves (pull_codec plain) (minted plain mc) (?r (mock 9)) t"
    by (rule plain_served)
  then have served: "serves (pull_codec plain) (minted plain mc) (?r t) t"
    by (simp add: serves_def delivery_of_def)
  have page: "page_ok [(5, t)]" using t(1) by (simp add: page_ok_def MAX_PAGE_def)
  have "sr_collect (?r t) 3 4 MAX_PAGE = ([(5, t)], 5)" by simp
  from honest_fetch_delivers [OF this _ page, of "[t]" plain mc] served obtain os where
    os: "loopback 3 (fetch_poll (pull_codec plain)) (minted plain mc) (?r t) [] (FetchClient_new 3 4 [t]) ServerStream_new =
      Done (Some (CFetchDone os))" "answers [t] (\<lambda>_. True) os"
    by (auto simp: hits_def answers_def)
  from os(2) have "os = [(t, Delivered)]"
    by (cases os; cases "tl os") (auto simp: answers_def)
  with os(1) show ?thesis by blast
qed


text \<open>The concrete digest keeps 32 bytes, so it has collisions, and payloads that differ late show one.\<close>

theorem chunk_address_binding_witness: "collision plain"
proof -
  let ?p = "\<lambda>b :: u8. replicate 32 0 @ [b]"
  have root: "bmt_root plain (?p b @ replicate 4063 0) = replicate 32 0" for b
    by (simp add: plain_root)
  have "chunk_address plain (?p b) = Done (take 32 (u64_le_bytes 33 @ replicate 32 0))" for b
    using root [of b] by (simp add: chunk_address_def Let_def CHUNK_SIZE_def)
  from chunk_address_binding [OF plain_lawful this [of 1] this [of 2]] show ?thesis by simp
qed

subsection \<open>Sessions\<close>



end
