(* ===== verification/Net_Props.thy ===== *)
theory Net_Props
  imports Hive Wire_Props
begin

section \<open>Properties of overlay, identity, handshake and discovery\<close>

text \<open>
  The properties of \<open>crates/overlay\<close> and of \<open>crates/net\<close> (\<open>lib.rs\<close>, \<open>pb.rs\<close>, \<open>handshake.rs\<close>, \<open>hive.rs\<close>),
  over the lemmas of the component theories, with concrete cases.
\<close>

subsection \<open>Proximity\<close>

text \<open>
  C32: Proximity is the number of common leading bits of the two addresses, counted to 255, is symmetric,
  and obeys the strong triangle inequality; bee's bin is that number cut at 31.
\<close>

theorem proximity_counts_common_bits:
  assumes "length a = 32" and "length b = 32" and "length c = 32"
  shows "unat (proximity a b) = min 255 (common_prefix (addr_bits a) (addr_bits b))
    \<and> proximity a b = proximity b a
    \<and> min (proximity a b) (proximity b c) \<le> proximity a c
    \<and> unat (bee_wire_bin (proximity a b)) = min 31 (common_prefix (addr_bits a) (addr_bits b))"
proof -
  note counts = proximity_counts [OF assms(1,2)] proximity_counts [OF assms(2,3)] proximity_counts [OF assms(1,3)]
  have "proximity a b = proximity b a"
    using counts(1) proximity_counts [OF assms(2,1)] by (simp add: word_unat_eq_iff common_prefix_sym)
  moreover have "min (proximity a b) (proximity b c) \<le> proximity a c"
    using common_prefix_ultrametric [of "addr_bits a" "addr_bits b" "addr_bits c"] assms counts
    by (auto simp: min_def word_le_nat_alt split: if_splits)
  ultimately show ?thesis
    using counts(1) by (auto simp: bee_wire_bin_def BEE_MAX_BIN_def min_def word_le_nat_alt split: if_splits)
qed

theorem proximity_counts_common_bits_witness:
  "unat (proximity (replicate 32 0) (replicate 31 0 @ [1])) =
     min 255 (common_prefix (addr_bits (replicate 32 0)) (addr_bits (replicate 31 0 @ [1])))"
  by (rule proximity_counts_common_bits [of _ _ "replicate 32 0", THEN conjunct1]) simp_all

text \<open>
  C31: A chunk is in a node's reserve exactly when it agrees with the overlay on the first \<open>radius\<close> bits,
  and two neighbours of one radius have the same reserve: what a node must hold, its neighbours hold.
\<close>

theorem reserve_is_shared_prefix:
  assumes "length (nb_overlay n) = 32" and "length chunk = 32" and "length peer = 32"
  shows "(in_reserve n chunk \<longleftrightarrow>
      take (unat (nb_radius n)) (addr_bits chunk) = take (unat (nb_radius n)) (addr_bits (nb_overlay n)))
    \<and> (is_neighbour n peer \<longrightarrow> (in_reserve n chunk \<longleftrightarrow> in_reserve \<lparr>nb_overlay = peer, nb_radius = nb_radius n\<rparr> chunk))"
proof -
  have r: "unat (nb_radius n) \<le> 255"
  proof -
    have "unat (nb_radius n) < 2 ^ LENGTH(8)" by (rule unsigned_less)
    then show ?thesis by simp
  qed
  have near: "nb_radius n \<le> proximity x y \<longleftrightarrow> take (unat (nb_radius n)) (addr_bits x) = take (unat (nb_radius n)) (addr_bits y)"
    if "length x = 32" "length y = 32" for x y
    using that r common_prefix_ge [of "unat (nb_radius n)" "addr_bits x" "addr_bits y"]
    by (simp add: word_le_nat_alt proximity_counts)
  show ?thesis using assms near by (auto simp: in_reserve_def depth_of_def is_neighbour_def)
qed

theorem reserve_is_shared_prefix_witness:
  "in_reserve \<lparr>nb_overlay = replicate 32 0, nb_radius = 8\<rparr> (replicate 32 0)"
  using reserve_is_shared_prefix [of "\<lparr>nb_overlay = replicate 32 0, nb_radius = 8\<rparr>" "replicate 32 0" "replicate 32 0"]
  by simp

subsection \<open>Identity\<close>





definition some_identity :: "u8 \<Rightarrow> bzz_address option" where
  "some_identity k = BzzAddress_new plain (replicate 32 k) [4, 127, 0, 0, 1] 1 (replicate 32 9) 1700000000 (replicate 20 0)"

lemma some_identity_ok:
  obtains a e where "some_identity k = Some a" and "small_bzz a" and "bzz_verify plain a 1 = Some e"
proof -
  obtain a where a: "some_identity k = Some a"
    by (simp add: some_identity_def BzzAddress_new_def public_eth_address_def sign_def plain_def Let_def)
  have "bzz_verify plain a 1 = public_eth_address plain (replicate 32 k)" "wf_bzz a"
    using BzzAddress_new_verifies [OF plain_lawful a [unfolded some_identity_def]] by simp_all
  moreover have "bz_underlay a = [4, 127, 0, 0, 1]"
    using a by (auto simp: some_identity_def BzzAddress_new_def bind_eq_Some_conv Let_def)
  moreover obtain e where "public_eth_address plain (replicate 32 k) = Some e"
    by (simp add: public_eth_address_def plain_def)
  ultimately show ?thesis using a by (intro that [of a e]) (auto simp: small_bzz_def)
qed


subsection \<open>Handshake\<close>

text \<open>
  Two honest drivers of one network complete: the three messages pass, each side ends with the
  other's verified address and overlay. Each message is what the other side's poll returned.
\<close>

theorem handshake_completes:
  assumes "small_bzz a" and "small_bzz b" and "bzz_verify cr a net = Some ea" and "bzz_verify cr b net = Some eb"
    and "length obs \<le> 1024" and "length obs' \<le> 1024" and "obs' \<noteq> []"
  shows "\<exists>syn synack ack i1 i2 r1 r2.
      hs_poll cr [] (Handshake_new Initiator a net full obs) = Done (HsSend syn, i1)
    \<and> hs_poll cr syn (Handshake_new Responder b net full' obs') = Done (HsSend synack, r1)
    \<and> hs_poll cr synack i1 = Done (HsSend ack, i2)
    \<and> hs_poll cr [] i2 = Done (HsDone eb, i2) \<and> hs_peer_overlay i2 = Some (bz_overlay b)
    \<and> hs_poll cr ack r1 = Done (HsDone ea, r2) \<and> hs_peer_overlay r2 = Some (bz_overlay a)"
proof -
  let ?i2 = "(Handshake_new Initiator a net full obs)\<lparr>hs_step := Finish eb, hs_peer_overlay := Some (bz_overlay b)\<rparr>"
  have "hs_poll cr [] ?i2 = Done (HsDone eb, ?i2)" by (simp add: hs_poll_def Handshake_new_def)
  with initiator_opens responder_replies [OF assms(5)] initiator_accepts [OF assms(2,4,7,6)]
    responder_accepts [OF assms(1,3)] show ?thesis by fastforce
qed

theorem handshake_completes_witness:
  "\<exists>a b ea eb syn synack ack i1 i2 r1 r2. some_identity 7 = Some a \<and> some_identity 8 = Some b
    \<and> hs_poll plain [] (Handshake_new Initiator a 1 True [1]) = Done (HsSend syn, i1)
    \<and> hs_poll plain syn (Handshake_new Responder b 1 True [2]) = Done (HsSend synack, r1)
    \<and> hs_poll plain synack i1 = Done (HsSend ack, i2)
    \<and> hs_poll plain [] i2 = Done (HsDone eb, i2)
    \<and> hs_poll plain ack r1 = Done (HsDone ea, r2)"
proof -
  obtain a ea where a: "some_identity 7 = Some a" "small_bzz a" "bzz_verify plain a 1 = Some ea" by (rule some_identity_ok)
  obtain b eb where b: "some_identity 8 = Some b" "small_bzz b" "bzz_verify plain b 1 = Some eb" by (rule some_identity_ok)
  from handshake_completes [OF a(2) b(2) a(3) b(3), of "[1]" "[2]" True True] a(1) b(1) show ?thesis by fastforce
qed

text \<open>
  C16: Whatever a peer sends, in whatever pieces, a driver reports success only for an address it has
  verified a binding of, on its own network, and keeps the overlay of that binding; once it has
  reported success or failure it keeps reporting it.
\<close>

theorem handshake_authenticates:
  assumes "(hs_polled cr)\<^sup>*\<^sup>* (Handshake_new role mine net full obs) h" and "hs_poll cr input h = Done (out, h')"
  shows "(out = HsDone eth \<longrightarrow> (\<exists>a. bzz_verify cr a net = Some eth \<and> hs_peer_overlay h' = Some (bz_overlay a))
        \<and> (\<forall>more. \<exists>h''. hs_poll cr more h' = Done (HsDone eth, h'')))
    \<and> (out = HsFailed \<longrightarrow> (\<forall>more. \<exists>h''. hs_poll cr more h' = Done (HsFailed, h'')))"
proof -
  let ?h0 = "Handshake_new role mine net full obs"
  have start: "hs_start ?h0" by (simp add: hs_start_def Handshake_new_def)
  have inv: "hs_inv cr h" by (rule hs.inv_run [OF start assms(1)])
  have net: "hs_network_id h = net"
    using hs_polled_keeps [OF assms(1) hs.inv_start [OF start]] by (simp add: Handshake_new_def)
  from hs_poll_post [OF assms(2) inv] net show ?thesis
    by (auto simp: hs_post_def hs_inv_def vouched_def hs_poll_def Let_def)
qed

theorem handshake_authenticates_witness:
  "\<exists>a b eb h h'. some_identity 7 = Some a \<and> some_identity 8 = Some b
     \<and> (hs_polled plain)\<^sup>*\<^sup>* (Handshake_new Initiator a 1 True [1]) h \<and> hs_poll plain [] h = Done (HsDone eb, h')
     \<and> (\<exists>c. bzz_verify plain c 1 = Some eb \<and> hs_peer_overlay h' = Some (bz_overlay c))"
proof -
  obtain a ea where a: "some_identity 7 = Some a" by (rule some_identity_ok)
  obtain b eb where b: "some_identity 8 = Some b" "small_bzz b" "bzz_verify plain b 1 = Some eb" by (rule some_identity_ok)
  let ?i = "Handshake_new Initiator a 1 True [1]"
  let ?h = "?i\<lparr>hs_step := Finish eb, hs_peer_overlay := Some (bz_overlay b)\<rparr>"
  have s1: "hs_polled plain ?i (?i\<lparr>hs_step := AwaitSynAck\<rparr>)" by (rule hs_polled.polled [OF initiator_opens])
  have s2: "hs_polled plain (?i\<lparr>hs_step := AwaitSynAck\<rparr>) ?h"
    by (rule hs_polled.polled [OF initiator_accepts [OF b(2,3), of "[2]"]]) simp_all
  have run: "(hs_polled plain)\<^sup>*\<^sup>* ?i ?h" using s1 s2
    by (auto intro: converse_rtranclp_into_rtranclp [where r = "hs_polled plain"] r_into_rtranclp [where r = "hs_polled plain"]
        simp del: handshake.update_convs)
  have p: "hs_poll plain [] ?h = Done (HsDone eb, ?h)" by (simp add: hs_poll_def Handshake_new_def)
  from handshake_authenticates [OF run p, of eb] have "\<exists>c. bzz_verify plain c 1 = Some eb \<and> hs_peer_overlay ?h = Some (bz_overlay c)"
    by blast
  with a b(1) run p show ?thesis by blast
qed

text \<open>
  A responder that carries no observed underlay answers with a message that the initiator of this
  code does not decode: the empty \<open>Syn\<close> inside is left out, and the handshake of two honest peers fails.
\<close>

theorem empty_observed_fails_handshake:
  assumes "small_bzz b" and "length obs \<le> 1024"
  shows "\<exists>syn synack i1 r1 h.
      hs_poll cr [] (Handshake_new Initiator a net full obs) = Done (HsSend syn, i1)
    \<and> hs_poll cr syn (Handshake_new Responder b net full' []) = Done (HsSend synack, r1)
    \<and> hs_poll cr synack i1 = Done (HsFailed, h)"
  using initiator_opens responder_replies [OF assms(2)] initiator_refuses_empty_observed [OF assms(1)] by fastforce

theorem empty_observed_fails_handshake_witness:
  "\<exists>a b syn synack i1 r1 h. some_identity 7 = Some a \<and> some_identity 8 = Some b
    \<and> hs_poll plain [] (Handshake_new Initiator a 1 True [1]) = Done (HsSend syn, i1)
    \<and> hs_poll plain syn (Handshake_new Responder b 1 True []) = Done (HsSend synack, r1)
    \<and> hs_poll plain synack i1 = Done (HsFailed, h)"
proof -
  obtain a ea where a: "some_identity 7 = Some a" by (rule some_identity_ok)
  obtain b eb where b: "some_identity 8 = Some b" "small_bzz b" by (rule some_identity_ok)
  from empty_observed_fails_handshake [OF b(2), of "[1]"] a b(1) show ?thesis by fastforce
qed

subsection \<open>Discovery\<close>

text \<open>
  C21: A push of any length, cut into any pieces, arrives as the addresses that verify, in order, batch
  limits notwithstanding; and whatever bytes arrive instead, every peer held has verified.
\<close>

theorem hive_push_arrives:
  "(concat frags = broadcast_frames addrs \<longrightarrow> (\<forall>a \<in> set addrs. small_bzz a) \<longrightarrow> [] \<notin> set frags \<longrightarrow> frags \<noteq> [] \<longrightarrow>
      receive_peers cr frags net = Done (verified_peers cr net addrs))
   \<and> (hive_feed cr bytes rx = Done rx' \<longrightarrow> hive_sound cr rx \<longrightarrow> hive_sound cr rx')"
proof (intro conjI impI)
  assume "concat frags = broadcast_frames addrs" "\<forall>a \<in> set addrs. small_bzz a" "[] \<notin> set frags" "frags \<noteq> []"
  then show "receive_peers cr frags net = Done (verified_peers cr net addrs)"
    by (simp add: receive_peers_def receive_fragments hive_feed_def HiveReceiver_new_def hive_loop_batches)
next
  assume "hive_feed cr bytes rx = Done rx'" "hive_sound cr rx"
  then show "hive_sound cr rx'"
    using hive_loop_sound [of cr "rx\<lparr>hv_buf := hv_buf rx @ bytes\<rparr>" rx'] by (auto simp: hive_feed_def hive_sound_def)
qed

theorem hive_push_arrives_witness:
  "\<exists>a. some_identity 7 = Some a \<and>
     receive_peers plain [take 1 (broadcast_frames [a]), drop 1 (broadcast_frames [a])] 1 = Done (verified_peers plain 1 [a])"
proof -
  obtain a e where a: "some_identity 7 = Some a" "small_bzz a" "bzz_verify plain a 1 = Some e" by (rule some_identity_ok)
  have "BzzAddress_encode a \<noteq> []" using a(2) by (intro BzzAddress_encode_not_Nil) (simp add: small_bzz_def)
  then have "encode_peers [a] \<noteq> []" by (simp add: encode_peers_concat put_bytes_field_def)
  then have "length (frame (encode_peers [a])) > 1"
    by (cases "uvarint (of_nat (length (encode_peers [a])))") (auto simp: frame_def)
  then have "length (broadcast_frames [a]) > 1"
    by (simp add: broadcast_frames_def peer_batches.simps MAX_BATCH_def)
  then have "take 1 (broadcast_frames [a]) \<noteq> []" "drop 1 (broadcast_frames [a]) \<noteq> []" by auto
  with hive_push_arrives [of "[take 1 (broadcast_frames [a]), drop 1 (broadcast_frames [a])]" "[a]" plain 1] a show ?thesis
    by auto
qed

end
