(* ===== verification/Neighbourhood.thy ===== *)
theory Neighbourhood
  imports Transition
begin

section \<open>Assembling the supply: \<open>crates/neighbourhood\<close>\<close>

text \<open>
  The discovery and connection machine of one tile, its three actions, and the explorer that enumerates
  its states. The counters are \<open>u32\<close>; each increment is guarded by a bound of the same width.
\<close>

subsection \<open>The machine: \<open>lib.rs\<close>\<close>

record nh_policy =
  gossip :: bool
  connect_all :: bool

definition NH_SHIPPED :: nh_policy where
  "NH_SHIPPED = \<lparr>gossip = True, connect_all = True\<rparr>"

record neighbourhood =
  known_w :: u32
  known_u :: u32
  nh_conn :: u32
  willing :: u32
  declining :: u32
  nh_policy :: nh_policy

definition Neighbourhood_new :: "u32 \<Rightarrow> u32 \<Rightarrow> nh_policy \<Rightarrow> neighbourhood exec" where
  "Neighbourhood_new w d pol =
     (if 1 \<le> w then Done \<lparr>known_w = 1, known_u = 0, nh_conn = 0, willing = w, declining = d, nh_policy = pol\<rparr>
      else Panic)"

definition nh_state :: "neighbourhood \<Rightarrow> u32 \<times> u32 \<times> u32" where
  "nh_state n = (known_w n, known_u n, nh_conn n)"

definition set_state :: "u32 \<times> u32 \<times> u32 \<Rightarrow> neighbourhood \<Rightarrow> neighbourhood" where
  "set_state s n = (case s of (kw, ku, c) \<Rightarrow> n\<lparr>known_w := kw, known_u := ku, nh_conn := c\<rparr>)"

definition bootstrapped :: "neighbourhood \<Rightarrow> bool" where
  "bootstrapped n \<longleftrightarrow> 0 < nh_conn n"

definition discover_w :: "neighbourhood \<Rightarrow> bool \<times> neighbourhood" where
  "discover_w n =
     (if gossip (nh_policy n) \<and> bootstrapped n \<and> known_w n < willing n then (True, n\<lparr>known_w := known_w n + 1\<rparr>)
      else (False, n))"

definition discover_u :: "neighbourhood \<Rightarrow> bool \<times> neighbourhood" where
  "discover_u n =
     (if gossip (nh_policy n) \<and> bootstrapped n \<and> known_u n < declining n then (True, n\<lparr>known_u := known_u n + 1\<rparr>)
      else (False, n))"

definition connect :: "neighbourhood \<Rightarrow> bool \<times> neighbourhood" where
  "connect n =
     (if nh_conn n < known_w n \<and> (connect_all (nh_policy n) \<or> \<not> bootstrapped n) then (True, n\<lparr>nh_conn := nh_conn n + 1\<rparr>)
      else (False, n))"

text \<open>The short-circuit conjunction of \<open>terminal\<close> runs the later actions on a state no earlier one changed.\<close>

definition terminal :: "neighbourhood \<Rightarrow> bool" where
  "terminal n \<longleftrightarrow> (case discover_w n of (a, n1) \<Rightarrow> \<not> a \<and> (case discover_u n1 of (b, n2) \<Rightarrow> \<not> b \<and> \<not> fst (connect n2)))"

definition conn_le_known :: "neighbourhood \<Rightarrow> bool" where
  "conn_le_known n \<longleftrightarrow> nh_conn n \<le> known_w n \<and> known_w n \<le> willing n"

definition discovery_finds :: "neighbourhood \<Rightarrow> bool" where
  "discovery_finds n \<longleftrightarrow> known_w n = willing n \<and> known_u n = declining n"

definition supply_complete :: "neighbourhood \<Rightarrow> bool" where
  "supply_complete n \<longleftrightarrow> nh_conn n = willing n"

subsection \<open>The explorer: \<open>explore.rs\<close>\<close>

record nh_report =
  distinct_states :: nat
  safe :: bool
  terminals :: nat
  bad_terminals :: nat

definition actions :: "(neighbourhood \<Rightarrow> bool \<times> neighbourhood) list" where
  "actions = [discover_w, discover_u, connect]"

text \<open>The states the actions lead to, in their order; the loop over \<open>actions\<close> inserts and enqueues the new ones.\<close>

definition nexts :: "neighbourhood \<Rightarrow> (u32 \<times> u32 \<times> u32) list" where
  "nexts n = map (\<lambda>act. nh_state (snd (act n))) (filter (\<lambda>act. fst (act n)) actions)"

fun enqueue :: "'k list \<Rightarrow> 'k set \<Rightarrow> 'k list \<Rightarrow> 'k set \<times> 'k list" where
  "enqueue [] seen queue = (seen, queue)"
| "enqueue (k # ks) seen queue =
     (if k \<in> seen then enqueue ks seen queue else enqueue ks (insert k seen) (queue @ [k]))"

definition visit :: "(neighbourhood \<Rightarrow> bool) \<Rightarrow> neighbourhood \<Rightarrow> nh_report \<Rightarrow> nh_report" where
  "visit liveness here r = (let quiet = (nexts here = []) in r\<lparr>
     distinct_states := distinct_states r + 1,
     safe := (safe r \<and> conn_le_known here),
     terminals := terminals r + (if quiet then 1 else 0),
     bad_terminals := bad_terminals r + (if quiet \<and> \<not> liveness here then 1 else 0)\<rparr>)"

lemma enqueue_seen: "fst (enqueue ks seen queue) = seen \<union> set ks"
  by (induction ks seen queue rule: enqueue.induct) auto

lemma enqueue_queue:
  "\<exists>news. snd (enqueue ks seen queue) = queue @ news \<and> set news = set ks - seen \<and> distinct news"
proof (induction ks arbitrary: seen queue)
  case (Cons k ks)
  show ?case
  proof (cases "k \<in> seen")
    case False
    obtain news where "snd (enqueue ks (insert k seen) (queue @ [k])) = (queue @ [k]) @ news"
      "set news = set ks - insert k seen" "distinct news" using Cons.IH by blast
    with False show ?thesis by (intro exI [of _ "k # news"]) auto
  qed (use Cons in auto)
qed simp

text \<open>
  The \<open>while\<close> over the queue. Every state enters the queue when it enters \<open>seen\<close>, so each turn either
  shortens the queue or puts a state into \<open>seen\<close>, of which there are finitely many.
\<close>

function explore_loop ::
  "(neighbourhood \<Rightarrow> bool) \<Rightarrow> neighbourhood \<Rightarrow> (u32 \<times> u32 \<times> u32) set \<Rightarrow> (u32 \<times> u32 \<times> u32) list \<Rightarrow> nh_report \<Rightarrow> nh_report" where
  "explore_loop liveness base seen [] r = r"
| "explore_loop liveness base seen (s # queue) r =
     (let here = set_state s base; (seen1, queue1) = enqueue (nexts here) seen queue
      in explore_loop liveness base seen1 queue1 (visit liveness here r))"
  by pat_completeness auto
termination
proof (relation "measures [\<lambda>(l, b, seen, q, r). card (UNIV - seen), \<lambda>(l, b, seen, q, r). length q]", goal_cases)
  case (2 liveness base seen s queue r here p seen1 queue1)
  have seen1: "seen1 = seen \<union> set (nexts here)" using enqueue_seen 2 by (metis fst_conv)
  obtain news where news: "queue1 = queue @ news" "set news = set (nexts here) - seen" "distinct news"
    using enqueue_queue [of "nexts here" seen queue] 2 by (metis snd_conv)
  show ?case
  proof (cases "news = []")
    case True
    with news seen1 have "seen1 = seen" by auto
    with True news show ?thesis by simp
  next
    case False
    then obtain x where "x \<in> set (nexts here)" "x \<notin> seen" using news by (metis DiffE list.set_intros(1) neq_Nil_conv)
    then have "UNIV - seen1 \<subset> UNIV - seen" using seen1 by auto
    then have "card (UNIV - seen1) < card (UNIV - seen)" by (rule psubset_card_mono [rotated]) simp
    then show ?thesis by simp
  qed
qed simp

definition nh_explore :: "u32 \<Rightarrow> u32 \<Rightarrow> nh_policy \<Rightarrow> (neighbourhood \<Rightarrow> bool) \<Rightarrow> nh_report exec" where
  "nh_explore w d pol liveness =
     bind_exec (Neighbourhood_new w d pol) (\<lambda>start.
       Done (explore_loop liveness start {nh_state start} [nh_state start]
         \<lparr>distinct_states = 0, safe = True, terminals = 0, bad_terminals = 0\<rparr>))"

subsection \<open>Runs\<close>

inductive nh_step :: "neighbourhood \<Rightarrow> neighbourhood \<Rightarrow> bool" where
  "act \<in> set actions \<Longrightarrow> act n = (True, n') \<Longrightarrow> nh_step n n'"

inductive_cases nh_stepE: "nh_step n n'"

definition nh_start :: "u32 \<Rightarrow> u32 \<Rightarrow> nh_policy \<Rightarrow> neighbourhood \<Rightarrow> bool" where
  "nh_start w d pol n \<longleftrightarrow> Neighbourhood_new w d pol = Done n"

text \<open>What a run keeps: the populations, the policy, and the order of the counters.\<close>

definition nh_inv :: "u32 \<Rightarrow> u32 \<Rightarrow> nh_policy \<Rightarrow> neighbourhood \<Rightarrow> bool" where
  "nh_inv w d pol n \<longleftrightarrow> willing n = w \<and> declining n = d \<and> nh_policy n = pol
     \<and> 1 \<le> known_w n \<and> nh_conn n \<le> known_w n \<and> known_w n \<le> w \<and> known_u n \<le> d"

lemma nh_step_cases:
  assumes "nh_step n n'"
  shows "(gossip (nh_policy n) \<and> bootstrapped n \<and> known_w n < willing n \<and> n' = n\<lparr>known_w := known_w n + 1\<rparr>)
    \<or> (gossip (nh_policy n) \<and> bootstrapped n \<and> known_u n < declining n \<and> n' = n\<lparr>known_u := known_u n + 1\<rparr>)
    \<or> (nh_conn n < known_w n \<and> (connect_all (nh_policy n) \<or> \<not> bootstrapped n) \<and> n' = n\<lparr>nh_conn := nh_conn n + 1\<rparr>)"
  using assms
  by (auto elim!: nh_stepE simp: actions_def discover_w_def discover_u_def connect_def split: if_splits)

lemma u32_incr: "(x :: u32) < y \<Longrightarrow> x + 1 \<le> y \<and> unat (x + 1) = unat x + 1 \<and> x \<le> x + 1"
proof -
  assume "x < y"
  have "unat y < 2 ^ LENGTH(32)" by (rule unsigned_less)
  with \<open>x < y\<close> have "unat (x + 1) = unat x + 1" by (simp add: word_less_nat_alt unat_word_ariths)
  with \<open>x < y\<close> show ?thesis by (simp add: word_less_nat_alt word_le_nat_alt)
qed

interpretation nh: safety "nh_start w d pol" nh_step "nh_inv w d pol" for w d pol
proof unfold_locales
  show "nh_inv w d pol n" if "nh_start w d pol n" for w d pol n
    using that by (auto simp: nh_start_def Neighbourhood_new_def nh_inv_def split: if_splits)
  show "nh_inv w d pol n'" if "nh_inv w d pol n" "nh_step n n'" for w d pol n n'
    using nh_step_cases [OF that(2)] that(1)
    by (auto simp: nh_inv_def dest!: u32_incr intro: order_trans)
qed

text \<open>Every step raises one counter towards its bound.\<close>

definition nh_left :: "neighbourhood \<Rightarrow> nat" where
  "nh_left n = (unat (willing n) - unat (known_w n)) + (unat (declining n) - unat (known_u n))
     + (unat (willing n) - unat (nh_conn n))"

lemma nh_step_left:
  assumes "nh_step n n'" and "nh_inv w d pol n"
  shows "nh_left n' < nh_left n"
  using nh_step_cases [OF assms(1)] assms(2)
  by (auto simp: nh_left_def nh_inv_def word_less_nat_alt word_le_nat_alt dest!: u32_incr [unfolded word_less_nat_alt])

lemma terminal_iff: "terminal n \<longleftrightarrow> (\<forall>n'. \<not> nh_step n n')"
proof
  assume "terminal n"
  then show "\<forall>n'. \<not> nh_step n n'"
    by (auto simp: terminal_def actions_def discover_w_def discover_u_def connect_def bootstrapped_def
        elim!: nh_stepE split: if_splits)
next
  assume none: "\<forall>n'. \<not> nh_step n n'"
  have "\<not> fst (act n)" if "act \<in> set actions" for act
    using none nh_step.intros [OF that, of n "snd (act n)"] by (metis prod.collapse)
  then have "\<not> fst (discover_w n)" "\<not> fst (discover_u n)" "\<not> fst (connect n)" by (simp_all add: actions_def)
  then show "terminal n"
    by (auto simp: terminal_def discover_w_def discover_u_def connect_def split: if_splits)
qed

text \<open>Under the shipped policy a state is terminal exactly when the whole tile is known and connected.\<close>

lemma shipped_terminal:
  assumes "nh_inv w d NH_SHIPPED n" and "1 \<le> w"
  shows "terminal n \<longleftrightarrow> discovery_finds n \<and> supply_complete n"
proof -
  from assms have b: "willing n = w" "declining n = d" "nh_policy n = NH_SHIPPED" "1 \<le> known_w n"
    "nh_conn n \<le> known_w n" "known_w n \<le> w" "known_u n \<le> d" by (auto simp: nh_inv_def)
  have pos: "0 < known_w n" "0 < w" using b(4) assms(2) by (auto simp: word_less_nat_alt word_le_nat_alt)
  show ?thesis
  proof
    assume "terminal n"
    then have "\<not> fst (discover_w n)" "\<not> fst (discover_u n)" "\<not> fst (connect n)"
      by (auto simp: terminal_def discover_w_def discover_u_def connect_def split: if_splits)
    then have c: "nh_conn n = known_w n" using b by (auto simp: connect_def NH_SHIPPED_def not_less split: if_splits)
    with pos b \<open>\<not> fst (discover_w n)\<close> \<open>\<not> fst (discover_u n)\<close> show "discovery_finds n \<and> supply_complete n"
      by (auto simp: discover_w_def discover_u_def NH_SHIPPED_def bootstrapped_def discovery_finds_def supply_complete_def
          not_less split: if_splits)
  next
    assume "discovery_finds n \<and> supply_complete n"
    with b show "terminal n"
      by (auto simp: terminal_def discover_w_def discover_u_def connect_def discovery_finds_def supply_complete_def)
  qed
qed

subsection \<open>What the explorer counts\<close>

text \<open>A run stays within the states of its populations, which the triple of counters names uniquely.\<close>

definition like :: "neighbourhood \<Rightarrow> neighbourhood \<Rightarrow> bool" where
  "like base n \<longleftrightarrow> willing n = willing base \<and> declining n = declining base \<and> nh_policy n = nh_policy base"

lemma like_state: "like base n \<Longrightarrow> set_state (nh_state n) base = n"
  by (cases n; cases base) (simp add: like_def set_state_def nh_state_def)

lemma like_set_state [simp]: "like base (set_state k base)" "nh_state (set_state k base) = k"
  by (simp_all add: like_def set_state_def nh_state_def split: prod.splits)

lemma like_step: "nh_step n n' \<Longrightarrow> like base n \<Longrightarrow> like base n'"
  by (auto dest!: nh_step_cases simp: like_def)

lemma nexts_step: "k' \<in> set (nexts n) \<longleftrightarrow> (\<exists>n'. nh_step n n' \<and> nh_state n' = k')"
proof
  assume "k' \<in> set (nexts n)"
  then obtain act where "act \<in> set actions" "fst (act n)" "k' = nh_state (snd (act n))" by (auto simp: nexts_def)
  then show "\<exists>n'. nh_step n n' \<and> nh_state n' = k'" by (metis nh_step.intros prod.collapse)
next
  assume "\<exists>n'. nh_step n n' \<and> nh_state n' = k'"
  then show "k' \<in> set (nexts n)" by (force elim!: nh_stepE simp: nexts_def)
qed

lemma nexts_Nil: "nexts n = [] \<longleftrightarrow> terminal n"
  using nexts_step [of _ n] unfolding terminal_iff by (metis list.set_intros(1) neq_Nil_conv empty_iff list.set(1))

definition reach :: "neighbourhood \<Rightarrow> neighbourhood set" where
  "reach base = {n. nh_step\<^sup>*\<^sup>* base n}"

lemma reach_like: "n \<in> reach base \<Longrightarrow> like base n"
proof -
  assume "n \<in> reach base"
  then have "nh_step\<^sup>*\<^sup>* base n" by (simp add: reach_def)
  then show ?thesis by (induction rule: rtranclp_induct) (simp add: like_def, rule like_step)
qed

definition tally :: "(neighbourhood \<Rightarrow> bool) \<Rightarrow> neighbourhood set \<Rightarrow> nh_report \<Rightarrow> bool" where
  "tally liveness V r \<longleftrightarrow> distinct_states r = card V \<and> (safe r \<longleftrightarrow> (\<forall>n \<in> V. conn_le_known n))
     \<and> terminals r = card {n \<in> V. terminal n} \<and> bad_terminals r = card {n \<in> V. terminal n \<and> \<not> liveness n}"

lemma tally_visit:
  assumes "tally liveness V r" and "n \<notin> V" and "finite V"
  shows "tally liveness (insert n V) (visit liveness n r)"
proof -
  have "{m \<in> insert n V. P m} = (if P n then insert n {m \<in> V. P m} else {m \<in> V. P m})" for P by auto
  with assms show ?thesis by (auto simp: tally_def visit_def Let_def nexts_Nil)
qed

text \<open>The loop with \<open>V\<close> visited: what is seen is visited or queued, and visited states have their successors seen.\<close>

definition frontier :: "neighbourhood \<Rightarrow> neighbourhood set \<Rightarrow> (u32 \<times> u32 \<times> u32) set \<Rightarrow> (u32 \<times> u32 \<times> u32) list \<Rightarrow> bool" where
  "frontier base V seen queue \<longleftrightarrow> finite V \<and> V \<subseteq> reach base \<and> seen = nh_state ` V \<union> set queue
     \<and> nh_state ` V \<inter> set queue = {} \<and> distinct queue \<and> (\<forall>k \<in> set queue. set_state k base \<in> reach base)
     \<and> (\<forall>n \<in> V. set (nexts n) \<subseteq> seen) \<and> nh_state base \<in> seen"

lemma frontier_done: "frontier base V seen [] \<Longrightarrow> V = reach base"
proof -
  assume f: "frontier base V seen []"
  have inj: "n \<in> V" if "nh_state n \<in> nh_state ` V" "like base n" for n
  proof -
    from that(1) obtain m where "m \<in> V" "nh_state m = nh_state n" by auto
    moreover from this f have "like base m" using reach_like by (auto simp: frontier_def)
    ultimately show ?thesis using that(2) by (metis like_state)
  qed
  have "n \<in> V" if "nh_step\<^sup>*\<^sup>* base n" for n
    using that
  proof (induction rule: rtranclp_induct)
    case base
    show ?case using f by (intro inj) (auto simp: frontier_def like_def)
  next
    case (step m n)
    then have "nh_state n \<in> set (nexts m)" using nexts_step by blast
    with step f have "nh_state n \<in> nh_state ` V" by (auto simp: frontier_def)
    moreover have "like base n" using step f reach_like like_step by (auto simp: frontier_def)
    ultimately show ?case by (rule inj)
  qed
  with f show ?thesis by (auto simp: frontier_def reach_def)
qed

lemma frontier_next:
  assumes f: "frontier base V seen (k # queue)" and e: "enqueue (nexts (set_state k base)) seen queue = (seen1, queue1)"
  shows "frontier base (insert (set_state k base) V) seen1 queue1" and "set_state k base \<notin> V"
proof -
  let ?n = "set_state k base"
  have seen1: "seen1 = seen \<union> set (nexts ?n)" using enqueue_seen [of "nexts ?n" seen queue] e by simp
  obtain news where news: "queue1 = queue @ news" "set news = set (nexts ?n) - seen" "distinct news"
    using enqueue_queue [of "nexts ?n" seen queue] e by auto
  have n: "?n \<in> reach base" using f by (simp add: frontier_def)
  have "set_state k' base \<in> reach base" if "k' \<in> set (nexts ?n)" for k'
  proof -
    from that obtain n' where n': "nh_step ?n n'" "nh_state n' = k'" using nexts_step by blast
    then have "n' \<in> reach base" using n by (auto simp: reach_def)
    with n' reach_like like_state show ?thesis by metis
  qed
  note succ = this
  have k: "k \<notin> nh_state ` V" "k \<notin> set queue" "k \<in> seen" using f by (auto simp: frontier_def)
  then show "?n \<notin> V" by (metis image_eqI like_set_state(2))
  have q: "finite V" "V \<subseteq> reach base" "seen = nh_state ` V \<union> set (k # queue)" "nh_state ` V \<inter> set queue = {}"
    "distinct queue" "\<forall>k \<in> set queue. set_state k base \<in> reach base" "\<forall>n \<in> V. set (nexts n) \<subseteq> seen" "nh_state base \<in> seen"
    using f by (auto simp: frontier_def)
  have img: "nh_state ` insert ?n V = insert k (nh_state ` V)" by simp
  show "frontier base (insert ?n V) seen1 queue1"
    unfolding frontier_def img
  proof (intro conjI)
    show "finite (insert ?n V)" "insert ?n V \<subseteq> reach base" using q n by auto
    show "seen1 = insert k (nh_state ` V) \<union> set queue1" using q(3) seen1 news by auto
    show "insert k (nh_state ` V) \<inter> set queue1 = {}" using q(3,4) k news by auto
    show "distinct queue1" using q(3,5) news by auto
    show "\<forall>k \<in> set queue1. set_state k base \<in> reach base" using q(6) news succ by auto
    show "\<forall>m \<in> insert ?n V. set (nexts m) \<subseteq> seen1" using q(7) seen1 by auto
    show "nh_state base \<in> seen1" using q(8) seen1 by simp
  qed
qed

lemma explore_loop_tally:
  "frontier base V seen queue \<Longrightarrow> tally liveness V r \<Longrightarrow> tally liveness (reach base) (explore_loop liveness base seen queue r)"
proof (induction liveness base seen queue r arbitrary: V rule: explore_loop.induct)
  case (1 liveness base seen r)
  then show ?case using frontier_done by auto
next
  case (2 liveness base seen k queue r)
  let ?n = "set_state k base"
  obtain seen1 queue1 where e: "enqueue (nexts ?n) seen queue = (seen1, queue1)" by fastforce
  have fin: "finite V" using "2.prems"(1) by (simp add: frontier_def)
  have "tally liveness (insert ?n V) (visit liveness ?n r)"
    by (rule tally_visit [OF "2.prems"(2) frontier_next(2) [OF "2.prems"(1) e] fin])
  with "2.IH" [OF refl e [symmetric] refl frontier_next(1) [OF "2.prems"(1) e]] e show ?case by simp
qed

lemma explore_tally:
  assumes "nh_explore w d pol liveness = Done r"
  obtains base where "nh_start w d pol base" and "tally liveness (reach base) r"
proof -
  from assms obtain base where b: "Neighbourhood_new w d pol = Done base"
    and r: "r = explore_loop liveness base {nh_state base} [nh_state base]
      \<lparr>distinct_states = 0, safe = True, terminals = 0, bad_terminals = 0\<rparr>"
    by (auto simp: nh_explore_def bind_exec_eq_Done)
  have "set_state (nh_state base) base = base" by (rule like_state) (simp add: like_def)
  then have "frontier base {} {nh_state base} [nh_state base]" by (simp add: frontier_def reach_def)
  then have "tally liveness (reach base) r" unfolding r by (rule explore_loop_tally) (simp add: tally_def)
  with b show ?thesis by (intro that) (simp_all add: nh_start_def)
qed

subsection \<open>Properties\<close>

text \<open>
  C29: Under the shipped policy every run stays safe and is finite, and it can stop only with the whole
  tile discovered and every willing neighbour connected: each step lowers a bound that starts at the
  number of peers left to discover and connect.
\<close>

theorem supply_assembled:
  assumes "Neighbourhood_new w d NH_SHIPPED = Done base" and "nh_step\<^sup>*\<^sup>* base n"
  shows "conn_le_known n \<and> (terminal n \<longleftrightarrow> discovery_finds n \<and> supply_complete n)
    \<and> (\<not> terminal n \<longrightarrow> (\<exists>n'. nh_step n n')) \<and> (\<forall>n'. nh_step n n' \<longrightarrow> nh_left n' < nh_left n)"
proof -
  have w: "1 \<le> w" using assms(1) by (simp add: Neighbourhood_new_def split: if_splits)
  have inv: "nh_inv w d NH_SHIPPED n"
    by (rule nh.inv_run [OF _ assms(2)]) (simp add: nh_start_def assms(1))
  then show ?thesis
    using shipped_terminal [OF inv w] nh_step_left [OF _ inv] terminal_iff by (auto simp: conn_le_known_def nh_inv_def)
qed

theorem supply_assembled_witness:
  "\<exists>base. Neighbourhood_new 3 1 NH_SHIPPED = Done base \<and> conn_le_known base \<and> \<not> terminal base \<and> (\<exists>n'. nh_step base n')"
proof -
  obtain base where b: "Neighbourhood_new 3 1 NH_SHIPPED = Done base" by (simp add: Neighbourhood_new_def)
  then have "\<not> discovery_finds base" by (auto simp: Neighbourhood_new_def discovery_finds_def)
  with supply_assembled [OF b rtranclp.rtrancl_refl] b show ?thesis by blast
qed

text \<open>
  C28: The explorer ends and its report is exact: it counts the reachable states, the terminal ones and
  the terminal ones that violate the given predicate, and calls the machine safe when every reachable
  state is; for the shipped policy it finds the machine safe and no terminal without complete supply.
\<close>

theorem explorer_report_exact:
  assumes "Neighbourhood_new w d pol = Done base"
  shows "\<exists>r. nh_explore w d pol liveness = Done r
    \<and> distinct_states r = card {n. nh_step\<^sup>*\<^sup>* base n}
    \<and> (safe r \<longleftrightarrow> (\<forall>n. nh_step\<^sup>*\<^sup>* base n \<longrightarrow> conn_le_known n))
    \<and> terminals r = card {n. nh_step\<^sup>*\<^sup>* base n \<and> terminal n}
    \<and> bad_terminals r = card {n. nh_step\<^sup>*\<^sup>* base n \<and> terminal n \<and> \<not> liveness n}
    \<and> (pol = NH_SHIPPED \<and> liveness = supply_complete \<longrightarrow> safe r \<and> bad_terminals r = 0)"
proof -
  obtain r where r: "nh_explore w d pol liveness = Done r" using assms by (simp add: nh_explore_def)
  obtain b where "nh_start w d pol b" and t: "tally liveness (reach b) r" by (rule explore_tally [OF r])
  then have b: "b = base" using assms by (simp add: nh_start_def)
  have shipped: "conn_le_known n \<and> (terminal n \<longrightarrow> supply_complete n)" if "pol = NH_SHIPPED" "nh_step\<^sup>*\<^sup>* base n" for n
  proof -
    have "1 \<le> w" using assms by (simp add: Neighbourhood_new_def split: if_splits)
    moreover have inv: "nh_inv w d NH_SHIPPED n"
      by (rule nh.inv_run [OF _ that(2)]) (simp add: nh_start_def assms that(1) [symmetric])
    ultimately show ?thesis using shipped_terminal [OF inv] by (auto simp: conn_le_known_def nh_inv_def)
  qed
  from t have counts: "distinct_states r = card {n. nh_step\<^sup>*\<^sup>* base n}"
    "safe r \<longleftrightarrow> (\<forall>n. nh_step\<^sup>*\<^sup>* base n \<longrightarrow> conn_le_known n)"
    "terminals r = card {n. nh_step\<^sup>*\<^sup>* base n \<and> terminal n}"
    "bad_terminals r = card {n. nh_step\<^sup>*\<^sup>* base n \<and> terminal n \<and> \<not> liveness n}"
    by (simp_all add: tally_def reach_def b)
  moreover have "safe r \<and> bad_terminals r = 0" if "pol = NH_SHIPPED" "liveness = supply_complete"
  proof -
    have none: "{n. nh_step\<^sup>*\<^sup>* base n \<and> terminal n \<and> \<not> supply_complete n} = {}" using shipped [OF that(1)] by blast
    show ?thesis unfolding counts that(2) none using shipped [OF that(1)] by simp
  qed
  ultimately show ?thesis using r by blast
qed

theorem explorer_report_exact_witness:
  "\<exists>r. nh_explore 3 1 NH_SHIPPED supply_complete = Done r \<and> safe r \<and> bad_terminals r = 0"
proof -
  obtain base where "Neighbourhood_new 3 1 NH_SHIPPED = Done base" by (simp add: Neighbourhood_new_def)
  from explorer_report_exact [OF this, of supply_complete] show ?thesis by blast
qed

end
