(* ===== verification/Cycle.thy ===== *)
theory Cycle
  imports Prelude
begin

section \<open>Cycle detection: \<open>has_cycle\<close> of \<open>crates/machine/src/explore.rs\<close>\<close>

text \<open>
  The iterative three-colour search over an adjacency list, and that it finds a cycle exactly when the
  graph has one. A colour is 0 (white), 1 (on the stack) or 2 (done). The \<open>Vec\<close> that serves as the stack
  is a list with its top first; an index out of range panics.
\<close>

subsection \<open>The search\<close>

lemma whites_update:
  "i < length colour \<Longrightarrow> k \<noteq> 0 \<Longrightarrow> length (filter ((=) 0) (colour[i := k])) \<le> length (filter ((=) (0 :: u8)) colour)"
  by (induction colour arbitrary: i) (auto split: nat.splits)

lemma whites_update_white:
  "i < length colour \<Longrightarrow> colour ! i = 0 \<Longrightarrow> k \<noteq> 0 \<Longrightarrow>
     length (filter ((=) 0) (colour[i := k])) < length (filter ((=) (0 :: u8)) colour)"
  by (induction colour arbitrary: i) (auto split: nat.splits)

lemma whites_update_same:
  "i < length colour \<Longrightarrow> k \<noteq> 0 \<Longrightarrow> \<not> length (filter ((=) 0) (colour[i := k])) < length (filter ((=) (0 :: u8)) colour) \<Longrightarrow>
     length (filter ((=) 0) (colour[i := k])) = length (filter ((=) 0) colour)"
  by (metis whites_update le_neq_implies_less)

function (sequential) cycle_loop :: "u32 list list \<Rightarrow> u8 list \<Rightarrow> (u32 \<times> nat) list \<Rightarrow> (bool \<times> u8 list) exec" where
  "cycle_loop adj colour [] = Done (False, colour)"
| "cycle_loop adj colour ((node, edge) # stack) =
     (if length adj \<le> unat node then Panic
      else if edge < length (adj ! unat node) then
        (let nxt = adj ! unat node ! edge
         in if length colour \<le> unat nxt then Panic
            else if colour ! unat nxt = 0
              then cycle_loop adj (colour[unat nxt := 1]) ((nxt, 0) # (node, edge + 1) # stack)
            else if colour ! unat nxt = 1 then Done (True, colour)
            else cycle_loop adj colour ((node, edge + 1) # stack))
      else if length colour \<le> unat node then Panic
      else cycle_loop adj (colour[unat node := 2]) stack)"
  by pat_completeness auto
termination
  by (relation "measures [\<lambda>(adj, colour, stack). length (filter ((=) 0) colour),
        \<lambda>(adj, colour, stack). sum_list (map (\<lambda>(n, e). Suc (length (adj ! unat n) - e)) stack)]")
     (auto simp: not_le intro: whites_update_white whites_update_same)

fun cycle_starts :: "u32 list list \<Rightarrow> u8 list \<Rightarrow> u32 list \<Rightarrow> bool exec" where
  "cycle_starts adj colour [] = Done False"
| "cycle_starts adj colour (start # starts) =
     (if length colour \<le> unat start then Panic
      else if colour ! unat start \<noteq> 0 then cycle_starts adj colour starts
      else bind_exec (cycle_loop adj (colour[unat start := 1]) [(start, 0)]) (\<lambda>(found, colour1).
        if found then Done True else cycle_starts adj colour1 starts))"

text \<open>\<open>for start in 0..adj.len() as u32\<close>: the length is cut to the width of the index.\<close>

definition has_cycle :: "u32 list list \<Rightarrow> bool exec" where
  "has_cycle adj = cycle_starts adj (replicate (length adj) 0)
     (map of_nat [0..<unat (of_nat (length adj) :: u32)])"

subsection \<open>The invariant of the search\<close>

definition edges :: "u32 list list \<Rightarrow> (nat \<times> nat) set" where
  "edges adj = {(u, v). u < length adj \<and> (\<exists>x \<in> set (adj ! u). v = unat x)}"

definition in_range :: "u32 list list \<Rightarrow> bool" where
  "in_range adj \<longleftrightarrow> (\<forall>row \<in> set adj. \<forall>x \<in> set row. unat x < length adj)"

text \<open>
  The entries of the stack from the top: the edges taken so far lead to done nodes, but for the one to the
  node above (\<open>ups\<close>), and there is such an edge.
\<close>

fun scanned :: "u32 list list \<Rightarrow> u8 list \<Rightarrow> nat set \<Rightarrow> (u32 \<times> nat) list \<Rightarrow> bool" where
  "scanned adj colour ups [] \<longleftrightarrow> True"
| "scanned adj colour ups ((n, e) # stack) \<longleftrightarrow>
     unat n < length adj \<and> e \<le> length (adj ! unat n)
     \<and> (\<forall>i < e. colour ! unat (adj ! unat n ! i) = 2 \<or> unat (adj ! unat n ! i) \<in> ups)
     \<and> (\<forall>u \<in> ups. (unat n, u) \<in> edges adj) \<and> scanned adj colour {unat n} stack"

definition nodes :: "(u32 \<times> nat) list \<Rightarrow> nat list" where
  "nodes stack = map (\<lambda>(n, e). unat n) stack"

lemma nodes_simps [simp]: "nodes [] = []" "nodes ((n, e) # stack) = unat n # nodes stack"
  by (simp_all add: nodes_def)

text \<open>Done nodes lead to done nodes only.\<close>

definition closed :: "u32 list list \<Rightarrow> u8 list \<Rightarrow> bool" where
  "closed adj colour \<longleftrightarrow> (\<forall>u v. (u, v) \<in> edges adj \<longrightarrow> colour ! u = 2 \<longrightarrow> colour ! v = 2)"

definition dfs_inv :: "u32 list list \<Rightarrow> u8 list \<Rightarrow> (u32 \<times> nat) list \<Rightarrow> bool" where
  "dfs_inv adj colour stack \<longleftrightarrow> length colour = length adj
     \<and> (\<forall>i < length adj. colour ! i \<in> {0, 1, 2})
     \<and> distinct (nodes stack)
     \<and> (\<forall>i < length adj. colour ! i = 1 \<longleftrightarrow> i \<in> set (nodes stack))
     \<and> scanned adj colour {} stack
     \<and> closed adj colour
     \<and> (\<forall>u < length adj. colour ! u = 2 \<longrightarrow> (u, u) \<notin> (edges adj)\<^sup>+)"

lemma edges_bound: "in_range adj \<Longrightarrow> (u, v) \<in> edges adj \<Longrightarrow> u < length adj \<and> v < length adj"
  by (auto simp: edges_def in_range_def)

lemma in_rangeD: "in_range adj \<Longrightarrow> n < length adj \<Longrightarrow> e < length (adj ! n) \<Longrightarrow> unat (adj ! n ! e) < length adj"
  by (metis in_range_def nth_mem)

lemma edges_nth: "unat n < length adj \<Longrightarrow> e < length (adj ! unat n) \<Longrightarrow> (unat n, unat (adj ! unat n ! e)) \<in> edges adj"
  by (auto simp: edges_def)

lemma scanned_nodes: "scanned adj colour ups stack \<Longrightarrow> x \<in> set (nodes stack) \<Longrightarrow> x < length adj"
  by (induction adj colour ups stack rule: scanned.induct) auto

text \<open>The stack is a walk to its top.\<close>

lemma scanned_walk:
  "scanned adj colour {u} stack \<Longrightarrow> x \<in> set (nodes stack) \<Longrightarrow> (x, u) \<in> (edges adj)\<^sup>+"
proof (induction stack arbitrary: u)
  case (Cons p stack)
  obtain n e where p: "p = (n, e)" by (cases p)
  from Cons.prems p have edge: "(unat n, u) \<in> edges adj" "scanned adj colour {unat n} stack" by auto
  from Cons.prems(2) p consider "x = unat n" | "x \<in> set (nodes stack)" by auto
  then show ?case
  proof cases
    case 2
    from Cons.IH [OF edge(2) this] edge(1) show ?thesis by (rule trancl_into_trancl)
  qed (use edge in blast)
qed simp

text \<open>Turning a node that is off the stack from white to grey, or one from grey to done, keeps the entries below.\<close>

lemma scanned_mono:
  "scanned adj colour ups stack \<Longrightarrow> (\<And>i. i < length adj \<Longrightarrow> colour ! i = 2 \<Longrightarrow> colour' ! i = 2) \<Longrightarrow> in_range adj \<Longrightarrow>
     scanned adj colour' ups stack"
proof (induction adj colour ups stack rule: scanned.induct)
  case (2 adj colour ups n e stack)
  have "unat (adj ! unat n ! i) < length adj" if "i < e" for i
    using that 2 by (auto intro!: in_rangeD [of adj])
  with 2 show ?case by auto
qed simp

lemma scanned_done:
  assumes "scanned adj colour {x} stack" and "colour ! x = 2"
  shows "scanned adj colour {} stack"
  using assms by (cases stack) auto

lemma done_closed:
  assumes "(u, v) \<in> (edges adj)\<^sup>+" and "colour ! u = (2 :: u8)"
    and "closed adj colour"
  shows "colour ! v = 2"
  using assms(1,2) by (induction rule: trancl_induct) (use assms(3) in \<open>auto simp: closed_def\<close>)

lemma nth_update_if: "(xs[i := x]) ! j = (if j = i \<and> i < length xs then x else xs ! j)"
  by (cases "i < length xs") (auto simp: nth_list_update list_update_beyond)

lemma closed_grey: "closed adj colour \<Longrightarrow> colour ! x = 0 \<Longrightarrow> closed adj (colour[x := 1])"
  by (auto simp: closed_def nth_update_if)

lemma closed_done:
  "closed adj colour \<Longrightarrow> x < length colour \<Longrightarrow> (\<And>v. (x, v) \<in> edges adj \<Longrightarrow> colour ! v = 2) \<Longrightarrow> closed adj (colour[x := 2])"
  by (auto simp: closed_def nth_update_if)

lemma scanned_grey: "scanned adj colour ups stack \<Longrightarrow> in_range adj \<Longrightarrow> colour ! x = 0 \<Longrightarrow> scanned adj (colour[x := 1]) ups stack"
  by (erule scanned_mono) (auto simp: nth_update_if)

subsection \<open>The search is right\<close>

lemma dfs_inv_push:
  assumes inv: "dfs_inv adj colour ((n, e) # stack)" and r: "in_range adj" and e: "e < length (adj ! unat n)"
    and x: "x = adj ! unat n ! e" "colour ! unat x = 0"
  shows "dfs_inv adj (colour[unat x := 1]) ((x, 0) # (n, e + 1) # stack)"
proof -
  from inv have n: "unat n < length adj" by (simp add: dfs_inv_def)
  then have xb: "unat x < length adj" using in_rangeD [OF r n e] x by simp
  from inv xb x(2) have fresh: "unat x \<notin> set (nodes ((n, e) # stack))" by (auto simp: dfs_inv_def)
  have "(unat n, unat x) \<in> edges adj" using edges_nth [OF n e] x by simp
  moreover have "scanned adj (colour[unat x := 1]) {} ((n, e) # stack)"
    using inv r x(2) by (intro scanned_grey) (auto simp: dfs_inv_def)
  ultimately have "scanned adj (colour[unat x := 1]) {} ((x, 0) # (n, e + 1) # stack)"
    using e x(1) xb by (auto simp: less_Suc_eq)
  moreover have "closed adj (colour[unat x := 1])"
    using inv x(2) by (intro closed_grey) (auto simp: dfs_inv_def)
  ultimately show ?thesis
    using inv fresh xb by (auto simp: dfs_inv_def nth_list_update split: if_splits)
qed

lemma dfs_inv_skip:
  assumes "dfs_inv adj colour ((n, e) # stack)" and "e < length (adj ! unat n)" and "colour ! unat (adj ! unat n ! e) = 2"
  shows "dfs_inv adj colour ((n, e + 1) # stack)"
  using assms by (auto simp: dfs_inv_def less_Suc_eq)

lemma dfs_inv_pop:
  assumes inv: "dfs_inv adj colour ((n, e) # stack)" and r: "in_range adj" and e: "\<not> e < length (adj ! unat n)"
  shows "dfs_inv adj (colour[unat n := 2]) stack"
proof -
  let ?c = "colour[unat n := 2]"
  from inv e have n: "unat n < length adj" "length colour = length adj" "e = length (adj ! unat n)"
    by (auto simp: dfs_inv_def)
  from inv n have out: "\<forall>v. (unat n, v) \<in> edges adj \<longrightarrow> colour ! v = 2"
    by (auto simp: dfs_inv_def edges_def in_set_conv_nth)
  from inv n have grey: "colour ! unat n = 1" by (auto simp: dfs_inv_def)
  from inv have closed: "closed adj colour" by (simp add: dfs_inv_def)
  have acyclic: "(unat n, unat n) \<notin> (edges adj)\<^sup>+"
  proof
    assume "(unat n, unat n) \<in> (edges adj)\<^sup>+"
    then obtain v where v: "(unat n, v) \<in> edges adj" "v = unat n \<or> (v, unat n) \<in> (edges adj)\<^sup>+"
      by (meson converse_tranclE)
    with out have "colour ! v = 2" by blast
    with v(2) done_closed [OF _ _ closed] grey show False by auto
  qed
  have "scanned adj ?c {unat n} stack"
  proof (rule scanned_mono [OF _ _ r])
    show "scanned adj colour {unat n} stack" using inv by (simp add: dfs_inv_def)
  qed (simp add: nth_update_if)
  then have "scanned adj ?c {} stack" using n by (auto intro: scanned_done)
  moreover have "closed adj ?c" using out n by (intro closed_done [OF closed]) auto
  moreover have "\<forall>i < length adj. ?c ! i = 1 \<longleftrightarrow> i \<in> set (nodes stack)"
    using inv n by (auto simp: dfs_inv_def nth_list_update)
  ultimately show ?thesis
    using inv n acyclic by (auto simp: dfs_inv_def nth_list_update)
qed

lemma dfs_inv_back_edge:
  assumes inv: "dfs_inv adj colour ((n, e) # stack)" and r: "in_range adj" and e: "e < length (adj ! unat n)"
    and grey: "colour ! unat (adj ! unat n ! e) = 1"
  shows "\<exists>v. (v, v) \<in> (edges adj)\<^sup>+"
proof -
  let ?x = "unat (adj ! unat n ! e)"
  from inv have n: "unat n < length adj" by (simp add: dfs_inv_def)
  have edge: "(unat n, ?x) \<in> edges adj" by (rule edges_nth [OF n e])
  with inv grey edges_bound [OF r] have "?x = unat n \<or> ?x \<in> set (nodes stack)" by (auto simp: dfs_inv_def)
  moreover have "scanned adj colour {unat n} stack" using inv by (simp add: dfs_inv_def)
  ultimately have "?x = unat n \<or> (?x, unat n) \<in> (edges adj)\<^sup>+" using scanned_walk by blast
  with edge show ?thesis by (metis r_into_trancl trancl_into_trancl)
qed

lemma cycle_loop_correct:
  assumes "dfs_inv adj colour stack" and "in_range adj"
  shows "\<exists>b colour'. cycle_loop adj colour stack = Done (b, colour')
    \<and> (b \<longrightarrow> (\<exists>v. (v, v) \<in> (edges adj)\<^sup>+))
    \<and> (\<not> b \<longrightarrow> dfs_inv adj colour' [] \<and> (\<forall>i < length adj. colour ! i \<noteq> 0 \<longrightarrow> colour' ! i \<noteq> 0))"
  using assms
proof (induction adj colour stack rule: cycle_loop.induct)
  case (2 adj colour n e stack)
  let ?x = "adj ! unat n ! e"
  note inv = 2(4) and r = 2(5)
  from inv have n: "unat n < length adj" "length colour = length adj" by (simp_all add: dfs_inv_def)
  show ?case
  proof (cases "e < length (adj ! unat n)")
    case e: True
    have xb: "unat ?x < length adj" by (rule in_rangeD [OF r n(1) e])
    with inv consider "colour ! unat ?x = 0" | "colour ! unat ?x = 1" | "colour ! unat ?x = 2"
      by (auto simp: dfs_inv_def)
    then show ?thesis
    proof cases
      case 1
      obtain b c where "cycle_loop adj (colour[unat ?x := 1]) ((?x, 0) # (n, e + 1) # stack) = Done (b, c)"
        and "b \<longrightarrow> (\<exists>v. (v, v) \<in> (edges adj)\<^sup>+)"
        and "\<not> b \<longrightarrow> dfs_inv adj c [] \<and> (\<forall>i < length adj. colour[unat ?x := 1] ! i \<noteq> 0 \<longrightarrow> c ! i \<noteq> 0)"
        using 2(1) [OF _ e refl _ 1 dfs_inv_push [OF inv r e refl 1] r] n xb by auto
      with n e xb 1 show ?thesis by (auto simp: Let_def nth_list_update split: if_splits)
    next
      case grey: 2
      with dfs_inv_back_edge [OF inv r e] n e xb show ?thesis by (auto simp: Let_def)
    next
      case 3
      with 2(2) [OF _ e refl _ _ _ dfs_inv_skip [OF inv e 3] r] n e xb show ?thesis by (auto simp: Let_def)
    qed
  next
    case e: False
    obtain b c where "cycle_loop adj (colour[unat n := 2]) stack = Done (b, c)"
      and "b \<longrightarrow> (\<exists>v. (v, v) \<in> (edges adj)\<^sup>+)"
      and "\<not> b \<longrightarrow> dfs_inv adj c [] \<and> (\<forall>i < length adj. colour[unat n := 2] ! i \<noteq> 0 \<longrightarrow> c ! i \<noteq> 0)"
      using 2(3) [OF _ e _ dfs_inv_pop [OF inv r e] r] n by auto
    with n e show ?thesis by (auto simp: nth_list_update split: if_splits)
  qed
qed auto

lemma dfs_inv_root:
  assumes "dfs_inv adj colour []" and "unat x < length adj" and "colour ! unat x = 0" and "in_range adj"
  shows "dfs_inv adj (colour[unat x := 1]) [(x, 0)]"
proof -
  have "closed adj (colour[unat x := 1])" using assms(1,3) by (intro closed_grey) (auto simp: dfs_inv_def)
  with assms show ?thesis by (auto simp: dfs_inv_def nth_list_update split: if_splits)
qed

lemma cycle_starts_correct:
  assumes "dfs_inv adj colour []" and "in_range adj" and "\<forall>x \<in> set starts. unat x < length adj"
  shows "\<exists>b. cycle_starts adj colour starts = Done b \<and> (b \<longrightarrow> (\<exists>v. (v, v) \<in> (edges adj)\<^sup>+))
    \<and> (\<not> b \<longrightarrow> (\<forall>i < length adj. colour ! i \<noteq> 0 \<or> i \<in> unat ` set starts \<longrightarrow> (i, i) \<notin> (edges adj)\<^sup>+))"
  using assms(1,3)
proof (induction starts arbitrary: colour)
  case Nil
  have "colour ! i = 0 \<or> (i, i) \<notin> (edges adj)\<^sup>+" if "i < length adj" for i
    using Nil(1) that unfolding dfs_inv_def by (metis empty_iff insert_iff list.set(1) nodes_simps(1))
  then show ?case by auto
next
  case (Cons x starts)
  from Cons.prems have x: "unat x < length adj" "length colour = length adj" by (auto simp: dfs_inv_def)
  show ?case
  proof (cases "colour ! unat x = 0")
    case False
    with Cons.IH [OF Cons.prems(1)] Cons.prems(2) x show ?thesis by auto
  next
    case True
    obtain b c where step: "cycle_loop adj (colour[unat x := 1]) [(x, 0)] = Done (b, c)"
      and cyc: "b \<longrightarrow> (\<exists>v. (v, v) \<in> (edges adj)\<^sup>+)"
      and inv: "\<not> b \<longrightarrow> dfs_inv adj c [] \<and> (\<forall>i < length adj. colour[unat x := 1] ! i \<noteq> 0 \<longrightarrow> c ! i \<noteq> 0)"
      using cycle_loop_correct [OF dfs_inv_root [OF Cons.prems(1) x(1) True assms(2)] assms(2)] by auto
    show ?thesis
    proof (cases b)
      case True
      with step cyc x \<open>colour ! unat x = 0\<close> show ?thesis by auto
    next
      case False
      with inv have inv': "dfs_inv adj c []" and kept: "\<And>i. i < length adj \<Longrightarrow> colour ! i \<noteq> 0 \<or> i = unat x \<Longrightarrow> c ! i \<noteq> 0"
        using x by (auto simp: nth_list_update split: if_splits)
      obtain b' where "cycle_starts adj c starts = Done b'" "b' \<longrightarrow> (\<exists>v. (v, v) \<in> (edges adj)\<^sup>+)"
        "\<not> b' \<longrightarrow> (\<forall>i < length adj. c ! i \<noteq> 0 \<or> i \<in> unat ` set starts \<longrightarrow> (i, i) \<notin> (edges adj)\<^sup>+)"
        using Cons.IH [OF inv'] Cons.prems(2) by auto
      with step False x \<open>colour ! unat x = 0\<close> kept show ?thesis by auto
    qed
  qed
qed

lemma unat_of_nat_u32: "n < 2 ^ 32 \<Longrightarrow> unat (of_nat n :: u32) = n"
  by (simp add: unat_of_nat take_bit_eq_mod)

lemma has_cycle_correct:
  assumes "in_range adj" and "length adj < 2 ^ 32"
  shows "has_cycle adj = Done (\<exists>v. (v, v) \<in> (edges adj)\<^sup>+)"
proof -
  let ?starts = "map of_nat [0..<length adj] :: u32 list"
  have all: "unat ` set ?starts = {0..<length adj}"
    using assms(2) by (auto simp: unat_of_nat_u32 image_image)
  have "dfs_inv adj (replicate (length adj) 0) []"
    using edges_bound [OF assms(1)] by (auto simp: dfs_inv_def closed_def)
  moreover have "\<forall>x \<in> set ?starts. unat x < length adj"
    using all by (metis atLeastLessThan_iff imageI)
  ultimately obtain b where b: "cycle_starts adj (replicate (length adj) 0) ?starts = Done b"
    "b \<longrightarrow> (\<exists>v. (v, v) \<in> (edges adj)\<^sup>+)" "\<not> b \<longrightarrow> (\<forall>i < length adj. (i, i) \<notin> (edges adj)\<^sup>+)"
    using cycle_starts_correct [of adj "replicate (length adj) 0" ?starts] assms(1) all by auto
  have "v < length adj" if "(v, v) \<in> (edges adj)\<^sup>+" for v
    using that edges_bound [OF assms(1)] by (meson tranclD)
  with b have "b \<longleftrightarrow> (\<exists>v. (v, v) \<in> (edges adj)\<^sup>+)" by blast
  with b(1) show ?thesis using assms(2) by (simp add: has_cycle_def unat_of_nat_u32)
qed

end
