(* ===== verification/Explore.thy ===== *)
theory Explore
  imports Machine_Inv Cycle
begin

section \<open>The exhaustive explorer: \<open>crates/machine/src/explore.rs\<close>\<close>

text \<open>
  The environment of the scheduling machine (honest deliveries, stalls and churn within budgets, live
  arrivals, resets) and the breadth-first search over all its interleavings. A world's number is its
  index in \<open>worlds\<close>, a \<open>u32\<close> as in the source; \<open>HashMap\<close> is a finite map. The parent chain of a
  world could loop only if numbers wrapped: a trace that is never returned is \<open>None\<close>.
\<close>

subsection \<open>Scenarios and worlds\<close>

record scenario =
  sc_name :: string
  sc_cfg :: config
  sc_chunks :: "u32 list"
  sc_peers :: "PeerId list"
  sc_holds :: "(PeerId \<times> u32 list) list"
  sc_byzantine :: "PeerId list"
  sc_live :: "u32 list"
  sc_prio :: "(u32 \<times> u8) list"
  sc_assign :: "(u32 \<times> PeerId) list"
  timeout_budget :: u8
  churn_budget :: u8

definition honest :: "scenario \<Rightarrow> PeerId \<Rightarrow> bool" where
  "honest sc p \<longleftrightarrow> p \<notin> set (sc_byzantine sc)"

record world =
  mach :: "u32 pull_state"
  tmo :: u8
  chn :: u8

datatype act =
    Act_Want u32 PeerId | Act_Deliver u32 PeerId | Act_Stall u32 PeerId
  | Act_Lose u32 PeerId | Act_Gain u32 PeerId | Act_New u32 | Act_Reset u32

record report =
  rep_name :: string
  rep_states :: nat
  rep_violation :: "(string \<times> act list) option"
  rep_terminals :: nat
  rep_incomplete :: nat
  rep_unfresh :: nat
  rep_cycle :: bool

definition init_world :: "scenario \<Rightarrow> world" where
  "init_world sc =
     (let m0 = PullState_new (sc_cfg sc);
          m1 = fold (\<lambda>(p, cs). fold (\<lambda>c m. snd (observe_holder c p m)) cs) (sc_holds sc) m0;
          m2 = fold (\<lambda>(c, d). set_prio c d) (sc_prio sc) m1;
          m3 = fold (\<lambda>(c, p). set_assign c p) (sc_assign sc) m2;
          m4 = fold (\<lambda>c m. if c \<in> set (sc_live sc) then m else snd (arrive_hist c m)) (sc_chunks sc) m3
      in \<lparr>mach = m4, tmo = timeout_budget sc, chn = churn_budget sc\<rparr>)"

subsection \<open>The environment\<close>

definition claim_acts :: "scenario \<Rightarrow> world \<Rightarrow> act list" where
  "claim_acts sc w = concat (map (\<lambda>(c, ps). concat (map (\<lambda>p.
       (if honest sc p then [Act_Deliver c p] else [])
       @ (if failover (cfg (mach w)) \<and> (\<not> honest sc p \<or> 0 < tmo w) then [Act_Stall c p] else []))
     (sorted_list_of_fset ps))) (sorted_list_of_fmap (want (mach w))))"

definition churn_acts :: "scenario \<Rightarrow> world \<Rightarrow> act list" where
  "churn_acts sc w = concat (map (\<lambda>c.
     if has (mach w) c then []
     else (let hs = sorted_list_of_fset (get_or {||} (holders (mach w)) c) in
       map (Act_Lose c) (filter (\<lambda>p. list_ex (\<lambda>q. q \<noteq> p \<and> honest sc q) hs) hs)
       @ map (Act_Gain c) (filter (\<lambda>p. p \<notin> set hs) (sc_peers sc)))) (sc_chunks sc))"

definition enabled :: "scenario \<Rightarrow> world \<Rightarrow> act list" where
  "enabled sc w =
     map (\<lambda>(c, p). Act_Want c p) (enabled_wants (mach w))
     @ claim_acts sc w
     @ map Act_New (filter (\<lambda>c. \<not> has (mach w) c \<and> \<not> is_rejected (mach w) c \<and> c |\<notin>| arrived (mach w)) (sc_live sc))
     @ (if 0 < chn w then churn_acts sc w else [])
     @ map Act_Reset (filter (can_reset_excluded (mach w)) (sc_chunks sc))"

text \<open>\<open>apply\<close> with the \<open>ok\<close> that its debug assertion reads.\<close>

definition on_mach :: "(u32 pull_state \<Rightarrow> bool \<times> u32 pull_state) \<Rightarrow> world \<Rightarrow> bool \<times> world" where
  "on_mach f w = (case f (mach w) of (ok, m) \<Rightarrow> (ok, w\<lparr>mach := m\<rparr>))"

fun apply_act :: "scenario \<Rightarrow> world \<Rightarrow> act \<Rightarrow> bool \<times> world" where
  "apply_act sc w (Act_Want c p) = on_mach (want_act c p) w"
| "apply_act sc w (Act_Deliver c p) = on_mach (deliver c p) w"
| "apply_act sc w (Act_Stall c p) = on_mach (stall c p) (if honest sc p then w\<lparr>tmo := tmo w - 1\<rparr> else w)"
| "apply_act sc w (Act_Lose c p) = on_mach (lose_holder c p) (w\<lparr>chn := chn w - 1\<rparr>)"
| "apply_act sc w (Act_Gain c p) = on_mach (observe_holder c p) (w\<lparr>chn := chn w - 1\<rparr>)"
| "apply_act sc w (Act_New c) = on_mach (arrive_live c) w"
| "apply_act sc w (Act_Reset c) = on_mach (reset_excluded c) w"

definition apply_world :: "scenario \<Rightarrow> world \<Rightarrow> act \<Rightarrow> world" where
  "apply_world sc w a = snd (apply_act sc w a)"

definition supplied :: "scenario \<Rightarrow> world \<Rightarrow> u32 \<Rightarrow> bool" where
  "supplied sc w c \<longleftrightarrow> (case fmlookup (holders (mach w)) c of Some hs \<Rightarrow> fBex hs (honest sc) | None \<Rightarrow> False)"

definition check_env_invariants :: "scenario \<Rightarrow> world \<Rightarrow> string + unit" where
  "check_env_invariants sc w = (case check_invariants (mach w) of
      Inl e \<Rightarrow> Inl e
    | Inr _ \<Rightarrow>
        if \<not> list_all (supplied sc w) (sc_chunks sc) then Inl ''SupplyInv''
        else if timeout_budget sc = 0
          \<and> fBex (fmdom (excluded (mach w))) (\<lambda>c. fBex (get_or {||} (excluded (mach w)) c) (honest sc))
          then Inl ''NoFalseExclusion''
        else Inr ())"

subsection \<open>The search\<close>

record search =
  ids :: "(world, u32) fmap"
  links :: "u32 list list"
  parents :: "(u32 \<times> act) option list"
  pending :: "u32 list"
  worlds :: "world list"
  rep :: report

definition search_init :: "scenario \<Rightarrow> search" where
  "search_init sc = \<lparr>ids = fmupd (init_world sc) 0 fmempty, links = [[]], parents = [None], pending = [0],
     worlds = [init_world sc],
     rep = \<lparr>rep_name = sc_name sc, rep_states = 0, rep_violation = None, rep_terminals = 0, rep_incomplete = 0,
       rep_unfresh = 0, rep_cycle = False\<rparr>\<rparr>"

text \<open>The closure \<open>trace_to\<close>: the acts from the start to a world, gathered backwards.\<close>

partial_function (option) trace_to :: "(u32 \<times> act) option list \<Rightarrow> u32 \<Rightarrow> act list \<Rightarrow> act list exec option" where
  "trace_to ps i acts =
     (if length ps \<le> unat i then Some Panic
      else (case ps ! unat i of
          None \<Rightarrow> Some (Done acts)
        | Some (prev, a) \<Rightarrow> trace_to ps prev (a # acts)))"

text \<open>\<open>ids.entry(next).or_insert_with(..)\<close>: the number of a world, which is numbered and queued when it is new.\<close>

definition number :: "u32 \<Rightarrow> act \<Rightarrow> world \<Rightarrow> search \<Rightarrow> u32 \<times> search" where
  "number i a w st = (case fmlookup (ids st) w of
      Some nid \<Rightarrow> (nid, st)
    | None \<Rightarrow> (let nid = of_nat (length (worlds st)) in
        (nid, st\<lparr>ids := fmupd w nid (ids st), worlds := worlds st @ [w], links := links st @ [[]],
                 parents := parents st @ [Some (i, a)], pending := pending st @ [nid]\<rparr>)))"

fun expand :: "scenario \<Rightarrow> u32 \<Rightarrow> world \<Rightarrow> act list \<Rightarrow> search \<Rightarrow> search exec" where
  "expand sc i w [] st = Done st"
| "expand sc i w (a # as) st =
     (case number i a (apply_world sc w a) st of (nid, st1) \<Rightarrow>
        if length (links st1) \<le> unat i then Panic
        else expand sc i w as (st1\<lparr>links := (links st1)[unat i := links st1 ! unat i @ [nid]]\<rparr>))"

definition count_terminal :: "scenario \<Rightarrow> world \<Rightarrow> report \<Rightarrow> report" where
  "count_terminal sc w r = r\<lparr>
     rep_terminals := rep_terminals r + 1,
     rep_incomplete := rep_incomplete r + (if list_all (has (mach w)) (sc_chunks sc) then 0 else 1),
     rep_unfresh := rep_unfresh r + (if list_all (has (mach w)) (sc_live sc) then 0 else 1)\<rparr>"

fun map_exec :: "('a \<Rightarrow> 'b) \<Rightarrow> 'a exec \<Rightarrow> 'b exec" where
  "map_exec f Panic = Panic"
| "map_exec f (Done a) = Done (f a)"

subsection \<open>There are finitely many worlds\<close>

instance config_ext :: (finite) finite
proof
  let ?f = "\<lambda>r :: 'a config_scheme. (dedup r, failover r, exclude r, reset_on_exhaust r, single_source r, priority r, enable_live r, config.more r)"
  have "inj ?f" by (rule injI) simp
  then show "finite (UNIV :: 'a config_scheme set)" by (rule finite_imageD [rotated]) simp
qed

instance pull_state_ext :: (finite, finite) finite
proof
  let ?f = "\<lambda>r :: ('a, 'b) pull_state_scheme. (cfg r, want r, holders r, excluded r, arrived r, live r, rejected r, got r,
    prio r, assign r, conflict r, ndeliv r, npre r, pull_state.more r)"
  have "inj ?f" by (rule injI) simp
  then show "finite (UNIV :: ('a, 'b) pull_state_scheme set)" by (rule finite_imageD [rotated]) simp
qed

instance world_ext :: (finite) finite
proof
  let ?f = "\<lambda>r :: 'a world_scheme. (mach r, tmo r, chn r, world.more r)"
  have "inj ?f" by (rule injI) simp
  then show "finite (UNIV :: 'a world_scheme set)" by (rule finite_imageD [rotated]) simp
qed

subsection \<open>The loop\<close>

text \<open>
  Every world enters the queue when it enters \<open>ids\<close>, so each turn either shortens the queue or numbers a
  world, of which there are finitely many.
\<close>

definition unnumbered :: "search \<Rightarrow> nat" where
  "unnumbered st = card (UNIV - fset (fmdom (ids st)))"

lemma number_progress:
  assumes "number i a w st = (nid, st')"
  shows "unnumbered st' < unnumbered st \<or> ids st' = ids st \<and> pending st' = pending st"
proof (cases "fmlookup (ids st) w")
  case None
  with assms have "fset (fmdom (ids st')) = insert w (fset (fmdom (ids st)))" "w \<notin> fset (fmdom (ids st))"
    by (auto simp: number_def Let_def fmlookup_dom_iff)
  then have "UNIV - fset (fmdom (ids st')) \<subset> UNIV - fset (fmdom (ids st))" by auto
  then have "card (UNIV - fset (fmdom (ids st'))) < card (UNIV - fset (fmdom (ids st)))"
    by (rule psubset_card_mono [rotated]) simp
  then show ?thesis by (simp add: unnumbered_def)
qed (use assms in \<open>auto simp: number_def\<close>)

lemma expand_progress:
  "expand sc i w as st = Done st' \<Longrightarrow> unnumbered st' < unnumbered st \<or> ids st' = ids st \<and> pending st' = pending st"
proof (induction sc i w as st rule: expand.induct)
  case (2 sc i w a as st)
  obtain nid st1 where n: "number i a (apply_world sc w a) st = (nid, st1)" by (cases "number i a (apply_world sc w a) st")
  let ?st2 = "st1\<lparr>links := (links st1)[unat i := links st1 ! unat i @ [nid]]\<rparr>"
  from 2 n have "unnumbered st' < unnumbered ?st2 \<or> ids st' = ids ?st2 \<and> pending st' = pending ?st2"
    by (auto split: if_splits)
  with number_progress [OF n] show ?case by (auto simp: unnumbered_def)
qed simp

function search_loop :: "scenario \<Rightarrow> search \<Rightarrow> report exec option" where
  "search_loop sc st = (case pending st of
      [] \<Rightarrow> Some (map_exec (\<lambda>b. (rep st)\<lparr>rep_states := fcard (fmdom (ids st)), rep_cycle := b\<rparr>) (has_cycle (links st)))
    | i # queue \<Rightarrow>
        if length (worlds st) \<le> unat i then Some Panic
        else (let w = worlds st ! unat i in
          case check_env_invariants sc w of
            Inl e \<Rightarrow> map_option (map_exec (\<lambda>acts.
                (rep st)\<lparr>rep_states := fcard (fmdom (ids st)), rep_violation := Some (e, acts)\<rparr>))
              (trace_to (parents st) i [])
          | Inr _ \<Rightarrow>
              if enabled sc w = [] then search_loop sc (st\<lparr>pending := queue, rep := count_terminal sc w (rep st)\<rparr>)
              else (case expand sc i w (enabled sc w) (st\<lparr>pending := queue\<rparr>) of
                  Panic \<Rightarrow> Some Panic
                | Done st' \<Rightarrow> search_loop sc st')))"
  by pat_completeness auto
termination
  by (relation "measures [\<lambda>(sc, st). unnumbered st, \<lambda>(sc, st). length (pending st)]")
     (auto dest!: expand_progress simp: unnumbered_def)

declare search_loop.simps [simp del]

definition explore :: "scenario \<Rightarrow> report exec option" where
  "explore sc = search_loop sc (search_init sc)"

text \<open>\<open>full_replication\<close>: every peer holds every chunk.\<close>

definition full_replication :: "PeerId list \<Rightarrow> u32 list \<Rightarrow> (PeerId, u32 list) fmap" where
  "full_replication peers chunks = fmap_of_list (rev (map (\<lambda>p. (p, chunks)) peers))"

end
