(* ===== verification/Explore_Search.thy ===== *)
theory Explore_Search
  imports Explore Transition
begin

section \<open>The explorer is exact\<close>

text \<open>
  The loop invariant of the search, and what its report says: below \<open>2^32\<close> reachable worlds, where a number
  still fits \<open>u32\<close>, it counts the reachable worlds and the terminal ones, reports a cycle exactly when the
  worlds have one, and a violation exactly when a reachable world has one, with acts that lead there.
\<close>

subsection \<open>Runs of the environment\<close>

inductive env_step :: "scenario \<Rightarrow> world \<Rightarrow> world \<Rightarrow> bool" for sc where
  "a \<in> set (enabled sc w) \<Longrightarrow> env_step sc w (apply_world sc w a)"

inductive_cases env_stepE: "env_step sc w v"

definition reachable :: "scenario \<Rightarrow> world set" where
  "reachable sc = {w. (env_step sc)\<^sup>*\<^sup>* (init_world sc) w}"

lemma reachable_init [simp]: "init_world sc \<in> reachable sc"
  by (simp add: reachable_def)

lemma reachable_step: "w \<in> reachable sc \<Longrightarrow> env_step sc w v \<Longrightarrow> v \<in> reachable sc"
  by (simp add: reachable_def)

lemma reachable_closed:
  assumes "init_world sc \<in> W" and "\<And>w v. w \<in> W \<Longrightarrow> env_step sc w v \<Longrightarrow> v \<in> W"
  shows "reachable sc \<subseteq> W"
proof
  fix w assume "w \<in> reachable sc"
  then have "(env_step sc)\<^sup>*\<^sup>* (init_world sc) w" by (simp add: reachable_def)
  then show "w \<in> W" by (induction rule: rtranclp_induct) (use assms in blast)+
qed

subsection \<open>The tables\<close>

definition numbered :: "search \<Rightarrow> bool" where
  "numbered st \<longleftrightarrow> distinct (worlds st) \<and> length (links st) = length (worlds st) \<and> length (parents st) = length (worlds st)
     \<and> fset (fmdom (ids st)) = set (worlds st)
     \<and> (\<forall>i < length (worlds st). fmlookup (ids st) (worlds st ! i) = Some (of_nat i))"

lemma numbered_init: "numbered (search_init sc)"
  by (simp add: numbered_def search_init_def)

lemma fcard_ids: "numbered st \<Longrightarrow> fcard (fmdom (ids st)) = length (worlds st)"
  by (simp add: numbered_def fcard.rep_eq distinct_card)

text \<open>The entries of a row name the worlds that the acts lead to.\<close>

definition points :: "scenario \<Rightarrow> world list \<Rightarrow> world \<Rightarrow> act list \<Rightarrow> u32 list \<Rightarrow> bool" where
  "points sc ws w = list_all2 (\<lambda>a i. unat i < length ws \<and> ws ! unat i = apply_world sc w a)"

lemma points_append: "points sc ws w as row \<Longrightarrow> points sc (ws @ news) w as row"
  unfolding points_def by (erule list_all2_mono) (auto simp: nth_append)

definition born :: "scenario \<Rightarrow> u32 \<Rightarrow> world \<Rightarrow> act list \<Rightarrow> world list \<Rightarrow> (u32 \<times> act) option list \<Rightarrow> bool" where
  "born sc i w as = list_all2 (\<lambda>v p. \<exists>a \<in> set as. p = Some (i, a) \<and> v = apply_world sc w a)"

definition index_range :: "nat \<Rightarrow> nat \<Rightarrow> u32 list" where
  "index_range m n = map of_nat [m..<n]"

lemma index_range_append: "l \<le> m \<Longrightarrow> m \<le> n \<Longrightarrow> index_range l m @ index_range m n = index_range l n"
  using upt_add_eq_append [of l m "n - m"] by (simp add: index_range_def flip: map_append)

lemma index_range_same [simp]: "index_range n n = []" and index_range_Suc: "index_range n (Suc n) = [of_nat n]"
  by (simp_all add: index_range_def)

lemma index_range_Cons: "m < n \<Longrightarrow> index_range m n = of_nat m # index_range (Suc m) n"
  by (simp add: index_range_def upt_rec)

lemma worlds_length:
  "numbered st \<Longrightarrow> set (worlds st) \<subseteq> R \<Longrightarrow> length (worlds st) \<le> card (R :: world set)"
  by (metis card_mono distinct_card finite numbered_def)

lemma number_spec:
  assumes n: "numbered st" and R: "set (worlds st) \<subseteq> R" "v \<in> R" "card R < 2 ^ 32"
  obtains nid st' news where "number i a v st = (nid, st')" and "numbered st'"
    and "worlds st' = worlds st @ news" and "set news \<subseteq> {v}"
    and "links st' = links st @ replicate (length news) []"
    and "parents st' = parents st @ replicate (length news) (Some (i, a))"
    and "pending st' = pending st @ index_range (length (worlds st)) (length (worlds st'))"
    and "rep st' = rep st" and "unat nid < length (worlds st')" and "worlds st' ! unat nid = v"
proof (cases "fmlookup (ids st) v")
  case None
  let ?st = "snd (number i a v st)"
  from None n have new: "v \<notin> set (worlds st)" by (simp add: numbered_def fmlookup_dom_iff [symmetric]) (metis None fmdom_notI)
  then have "card (insert v (set (worlds st))) = Suc (length (worlds st))"
    using n by (simp add: numbered_def distinct_card)
  moreover have "card (insert v (set (worlds st))) \<le> card R" using R by (intro card_mono) auto
  ultimately have len: "length (worlds st) < 2 ^ 32" using R(3) by simp
  have "numbered ?st" using n new None by (auto simp: numbered_def number_def Let_def nth_append less_Suc_eq)
  with None len show thesis
    by (intro that [of "of_nat (length (worlds st))" ?st "[v]"])
       (auto simp: number_def Let_def index_range_Suc unat_of_nat_u32)
next
  case (Some nid)
  with n have "v \<in> set (worlds st)" by (metis fmdomI numbered_def)
  then obtain j where j: "j < length (worlds st)" "worlds st ! j = v" by (meson in_set_conv_nth)
  with Some n have "nid = of_nat j" by (simp add: numbered_def) (metis option.inject)
  moreover have "j < 2 ^ 32" using j(1) worlds_length [OF n R(1)] R(3) by linarith
  ultimately have "unat nid = j" by (simp add: unat_of_nat_u32)
  with Some n j show thesis by (intro that [of nid st "[]"]) (auto simp: number_def)
qed

lemma expand_spec:
  assumes "numbered st" and "set (worlds st) \<subseteq> R" and "card R < 2 ^ 32"
    and "\<And>a. a \<in> set as \<Longrightarrow> apply_world sc w a \<in> R" and "unat i < length (worlds st)"
  shows "\<exists>st' news row ps. expand sc i w as st = Done st' \<and> numbered st' \<and> set (worlds st') \<subseteq> R
    \<and> worlds st' = worlds st @ news \<and> points sc (worlds st') w as row
    \<and> links st' = (links st)[unat i := links st ! unat i @ row] @ replicate (length news) []
    \<and> parents st' = parents st @ ps \<and> born sc i w as news ps
    \<and> pending st' = pending st @ index_range (length (worlds st)) (length (worlds st'))
    \<and> rep st' = rep st"
  using assms
proof (induction as arbitrary: st)
  case Nil
  then show ?case by (intro exI [of _ st] exI [of _ "[]"]) (auto simp: points_def born_def)
next
  case (Cons a as)
  from Cons.prems(4) have v: "apply_world sc w a \<in> R" by simp
  obtain nid st1 news1 where 1: "number i a (apply_world sc w a) st = (nid, st1)" "numbered st1"
    "worlds st1 = worlds st @ news1" "set news1 \<subseteq> {apply_world sc w a}"
    "links st1 = links st @ replicate (length news1) []"
    "parents st1 = parents st @ replicate (length news1) (Some (i, a))"
    "pending st1 = pending st @ index_range (length (worlds st)) (length (worlds st1))"
    "rep st1 = rep st" "unat nid < length (worlds st1)" "worlds st1 ! unat nid = apply_world sc w a"
    using number_spec [OF Cons.prems(1,2) v Cons.prems(3)] by blast
  let ?st2 = "st1\<lparr>links := (links st1)[unat i := links st1 ! unat i @ [nid]]\<rparr>"
  have i: "unat i < length (links st)" "length (links st1) = length (worlds st1)"
    using Cons.prems 1(2) by (auto simp: numbered_def)
  have i1: "unat i < length (links st1)" using i 1(5) by simp
  have 2: "numbered ?st2" "set (worlds ?st2) \<subseteq> R" "unat i < length (worlds ?st2)"
    using 1 v Cons.prems by (auto simp: numbered_def)
  obtain st' news row ps where 3: "expand sc i w as ?st2 = Done st'" "numbered st'" "set (worlds st') \<subseteq> R"
    "worlds st' = worlds ?st2 @ news" "points sc (worlds st') w as row"
    "links st' = (links ?st2)[unat i := links ?st2 ! unat i @ row] @ replicate (length news) []"
    "parents st' = parents ?st2 @ ps" "born sc i w as news ps"
    "pending st' = pending ?st2 @ index_range (length (worlds ?st2)) (length (worlds st'))" "rep st' = rep ?st2"
    using Cons.IH [OF 2(1,2) Cons.prems(3) _ 2(3)] Cons.prems(4) by auto
  have "points sc (worlds st') w (a # as) (nid # row)"
    using 1(9,10) 3(4,5) by (auto simp: points_def nth_append)
  moreover have "born sc i w (a # as) (news1 @ news) (replicate (length news1) (Some (i, a)) @ ps)"
  proof -
    have "list_all2 (\<lambda>v p. \<exists>b \<in> set (a # as). p = Some (i, b) \<and> v = apply_world sc w b) news1 (replicate (length news1) (Some (i, a)))"
      using 1(4) by (auto simp: list_all2_conv_all_nth dest: nth_mem)
    moreover have "list_all2 (\<lambda>v p. \<exists>b \<in> set (a # as). p = Some (i, b) \<and> v = apply_world sc w b) news ps"
      using 3(8) unfolding born_def by (rule list_all2_mono) auto
    ultimately show ?thesis unfolding born_def by (rule list_all2_appendI)
  qed
  moreover have "links st' = (links st)[unat i := links st ! unat i @ nid # row] @ replicate (length (news1 @ news)) []"
    using 3(6) 1(5) i by (simp add: nth_append list_update_append replicate_add)
  moreover have "pending st' = pending st @ index_range (length (worlds st)) (length (worlds st'))"
    using 3(4,9) 1(3,7) by (simp add: index_range_append flip: append_assoc) (simp add: index_range_append)
  ultimately show ?case
    using 1(1,3,6,8) 3(1,2,3,4,7,10) i1 by (auto simp: not_le)
qed

subsection \<open>The invariant of the loop\<close>

definition quiet :: "scenario \<Rightarrow> world \<Rightarrow> bool" where
  "quiet sc w \<longleftrightarrow> enabled sc w = []"

definition incomplete :: "scenario \<Rightarrow> world \<Rightarrow> bool" where
  "incomplete sc w \<longleftrightarrow> quiet sc w \<and> \<not> list_all (has (mach w)) (sc_chunks sc)"

definition unfresh :: "scenario \<Rightarrow> world \<Rightarrow> bool" where
  "unfresh sc w \<longleftrightarrow> quiet sc w \<and> \<not> list_all (has (mach w)) (sc_live sc)"

definition counts :: "scenario \<Rightarrow> world list \<Rightarrow> report \<Rightarrow> bool" where
  "counts sc ws r \<longleftrightarrow> rep_violation r = None
     \<and> rep_terminals r = length (filter (quiet sc) ws)
     \<and> rep_incomplete r = length (filter (incomplete sc) ws)
     \<and> rep_unfresh r = length (filter (unfresh sc) ws)"

definition begotten :: "scenario \<Rightarrow> search \<Rightarrow> bool" where
  "begotten sc st \<longleftrightarrow> parents st ! 0 = None \<and> (\<forall>i. 0 < i \<longrightarrow> i < length (worlds st) \<longrightarrow>
     (\<exists>p < i. \<exists>a \<in> set (enabled sc (worlds st ! p)).
        parents st ! i = Some (of_nat p, a) \<and> worlds st ! i = apply_world sc (worlds st ! p) a))"

definition search_inv :: "scenario \<Rightarrow> nat \<Rightarrow> search \<Rightarrow> bool" where
  "search_inv sc k st \<longleftrightarrow> numbered st \<and> set (worlds st) \<subseteq> reachable sc
     \<and> worlds st \<noteq> [] \<and> worlds st ! 0 = init_world sc
     \<and> k \<le> length (worlds st) \<and> pending st = index_range k (length (worlds st))
     \<and> (\<forall>i < k. check_env_invariants sc (worlds st ! i) = Inr ()
          \<and> points sc (worlds st) (worlds st ! i) (enabled sc (worlds st ! i)) (links st ! i))
     \<and> (\<forall>i. k \<le> i \<longrightarrow> i < length (worlds st) \<longrightarrow> links st ! i = [])
     \<and> begotten sc st \<and> counts sc (take k (worlds st)) (rep st)"

lemma search_inv_init: "search_inv sc 0 (search_init sc)"
  by (simp add: search_inv_def numbered_init [unfolded search_init_def] search_init_def begotten_def counts_def index_range_Suc [where n = 0, simplified])

lemma begotten_grow:
  assumes "begotten sc st" and "numbered st" and "worlds st \<noteq> []" and k: "k < length (worlds st)"
    and "worlds st' = worlds st @ news" and "parents st' = parents st @ ps"
    and "born sc (of_nat k) (worlds st ! k) (enabled sc (worlds st ! k)) news ps"
  shows "begotten sc st'"
proof -
  have len: "length (parents st) = length (worlds st)" using assms(2) by (simp add: numbered_def)
  have "\<exists>p < i. \<exists>a \<in> set (enabled sc (worlds st' ! p)).
      parents st' ! i = Some (of_nat p, a) \<and> worlds st' ! i = apply_world sc (worlds st' ! p) a"
    if i: "0 < i" "i < length (worlds st')" for i
  proof (cases "i < length (worlds st)")
    case True
    then obtain p a where "p < i" "a \<in> set (enabled sc (worlds st ! p))" "parents st ! i = Some (of_nat p, a)"
      "worlds st ! i = apply_world sc (worlds st ! p) a" using assms(1) i(1) unfolding begotten_def by blast
    with True len assms(5,6) show ?thesis by (intro exI [of _ p]) (auto simp: nth_append)
  next
    case False
    with i assms(5) have "i - length (worlds st) < length news" by auto
    with assms(7) obtain a where "a \<in> set (enabled sc (worlds st ! k))" "ps ! (i - length (worlds st)) = Some (of_nat k, a)"
      "news ! (i - length (worlds st)) = apply_world sc (worlds st ! k) a"
      unfolding born_def by (auto dest: list_all2_nthD)
    with False k len assms(5,6) show ?thesis by (intro exI [of _ k]) (auto simp: nth_append)
  qed
  moreover have "parents st' ! 0 = None" using assms(1,3,6) len by (auto simp: begotten_def nth_append)
  ultimately show ?thesis by (auto simp: begotten_def)
qed

lemma counts_step:
  assumes "counts sc (take k ws) r" and "k < length ws"
  shows "quiet sc (ws ! k) \<Longrightarrow> counts sc (take (Suc k) ws) (count_terminal sc (ws ! k) r)"
    and "\<not> quiet sc (ws ! k) \<Longrightarrow> counts sc (take (Suc k) ws) r"
  using assms by (simp_all add: counts_def count_terminal_def take_Suc_conv_app_nth incomplete_def unfresh_def)

lemma search_inv_quiet:
  assumes inv: "search_inv sc k st" and k: "k < length (worlds st)"
    and ok: "check_env_invariants sc (worlds st ! k) = Inr ()" and q: "enabled sc (worlds st ! k) = []"
  shows "search_inv sc (Suc k) (st\<lparr>pending := index_range (Suc k) (length (worlds st)),
    rep := count_terminal sc (worlds st ! k) (rep st)\<rparr>)"
proof -
  from inv k have "links st ! k = []" by (simp add: search_inv_def)
  with inv k ok q show ?thesis
    using counts_step(1) [of sc k "worlds st" "rep st"]
    by (auto simp: search_inv_def numbered_def begotten_def quiet_def points_def less_Suc_eq)
qed

lemma search_inv_expand:
  assumes inv: "search_inv sc k st" and k: "k < length (worlds st)" and small: "card (reachable sc) < 2 ^ 32"
    and ok: "check_env_invariants sc (worlds st ! k) = Inr ()" and q: "enabled sc (worlds st ! k) \<noteq> []"
  shows "\<exists>st'. expand sc (of_nat k) (worlds st ! k) (enabled sc (worlds st ! k))
      (st\<lparr>pending := index_range (Suc k) (length (worlds st))\<rparr>) = Done st' \<and> search_inv sc (Suc k) st'"
proof -
  let ?w = "worlds st ! k" and ?st = "st\<lparr>pending := index_range (Suc k) (length (worlds st))\<rparr>"
  from inv have n: "numbered ?st" "set (worlds ?st) \<subseteq> reachable sc" by (auto simp: search_inv_def numbered_def)
  from worlds_length [OF n] k small have kk: "unat (of_nat k :: u32) = k" by (simp add: unat_of_nat_u32)
  have "apply_world sc ?w a \<in> reachable sc" if "a \<in> set (enabled sc ?w)" for a
    using n(2) nth_mem [OF k] reachable_step [OF _ env_step.intros [OF that]] by auto
  with expand_spec [OF n small, where as = "enabled sc ?w" and w = ?w and i = "of_nat k" and sc = sc] kk k
  obtain st' news row ps where e: "expand sc (of_nat k) ?w (enabled sc ?w) ?st = Done st'" and n': "numbered st'"
    "set (worlds st') \<subseteq> reachable sc" "worlds st' = worlds st @ news" "points sc (worlds st') ?w (enabled sc ?w) row"
    "links st' = (links st)[k := links st ! k @ row] @ replicate (length news) []"
    "parents st' = parents st @ ps" "born sc (of_nat k) ?w (enabled sc ?w) news ps"
    "pending st' = index_range (Suc k) (length (worlds st)) @ index_range (length (worlds st)) (length (worlds st'))"
    "rep st' = rep st" by auto
  have len: "length (links st) = length (worlds st)" "links st ! k = []"
    using inv k by (auto simp: search_inv_def numbered_def)
  have rows: "check_env_invariants sc (worlds st' ! i) = Inr ()
      \<and> points sc (worlds st') (worlds st' ! i) (enabled sc (worlds st' ! i)) (links st' ! i)" if "i < Suc k" for i
  proof (cases "i = k")
    case True
    then show ?thesis using ok n'(3,4,5) k len by (simp add: nth_append)
  next
    case False
    with that have "i < k" by simp
    with inv have "check_env_invariants sc (worlds st ! i) = Inr ()"
      "points sc (worlds st) (worlds st ! i) (enabled sc (worlds st ! i)) (links st ! i)" by (auto simp: search_inv_def)
    with \<open>i < k\<close> k len n'(3,5) show ?thesis by (simp add: nth_append points_append)
  qed
  have rest: "links st' ! i = []" if "Suc k \<le> i" "i < length (worlds st')" for i
    using inv that n'(3,5) len by (auto simp: search_inv_def nth_append)
  have "begotten sc st'" using inv n'(3,6,7) k by (auto simp: search_inv_def intro: begotten_grow)
  moreover have "counts sc (take (Suc k) (worlds st')) (rep st')"
    using inv k q counts_step(2) [of sc k "worlds st" "rep st"] n'(3,9) by (simp add: search_inv_def quiet_def)
  ultimately have "search_inv sc (Suc k) st'"
    using inv n' k rows rest by (simp add: search_inv_def nth_append index_range_append)
  with e show ?thesis by blast
qed

subsection \<open>Traces\<close>

fun replay :: "scenario \<Rightarrow> world \<Rightarrow> act list \<Rightarrow> world option" where
  "replay sc w [] = Some w"
| "replay sc w (a # as) = (if a \<in> set (enabled sc w) then replay sc (apply_world sc w a) as else None)"

lemma replay_snoc: "replay sc w as = Some v \<Longrightarrow> a \<in> set (enabled sc v) \<Longrightarrow> replay sc w (as @ [a]) = Some (apply_world sc v a)"
  by (induction sc w as rule: replay.induct) (auto split: if_splits)

lemma replay_reachable:
  assumes "replay sc (init_world sc) as = Some w"
  shows "w \<in> reachable sc"
proof -
  have "replay sc v as = Some w \<Longrightarrow> v \<in> reachable sc \<Longrightarrow> w \<in> reachable sc" for v
    by (induction sc v as rule: replay.induct) (auto split: if_splits intro: reachable_step env_step.intros)
  with assms show ?thesis by simp
qed

lemma trace_replays:
  assumes "numbered st" and "begotten sc st" and "worlds st ! 0 = init_world sc" and "length (worlds st) < 2 ^ 32"
    and "i < length (worlds st)"
  shows "\<exists>as. trace_to (parents st) (of_nat i) acts = Some (Done (as @ acts)) \<and> replay sc (init_world sc) as = Some (worlds st ! i)"
  using assms(5)
proof (induction i arbitrary: acts rule: less_induct)
  case (less i)
  have len: "length (parents st) = length (worlds st)" using assms(1) by (simp add: numbered_def)
  have ii: "unat (of_nat i :: u32) = i" using less.prems assms(4) by (simp add: unat_of_nat_u32)
  show ?case
  proof (cases "i = 0")
    case True
    with assms(2,3) less.prems len show ?thesis
      by (intro exI [of _ "[]"]) (simp add: trace_to.simps begotten_def)
  next
    case False
    with assms(2) less.prems have "\<exists>p < i. \<exists>a \<in> set (enabled sc (worlds st ! p)).
        parents st ! i = Some (of_nat p, a) \<and> worlds st ! i = apply_world sc (worlds st ! p) a"
      unfolding begotten_def by blast
    then obtain p a where p: "p < i" "a \<in> set (enabled sc (worlds st ! p))"
      "parents st ! i = Some (of_nat p, a)" "worlds st ! i = apply_world sc (worlds st ! p) a" by blast
    with less.IH [OF p(1)] less.prems obtain as where "trace_to (parents st) (of_nat p) (a # acts) = Some (Done (as @ a # acts))"
      "replay sc (init_world sc) as = Some (worlds st ! p)" by (meson order_less_trans)
    with p len ii less.prems replay_snoc show ?thesis
      by (intro exI [of _ "as @ [a]"]) (simp add: trace_to.simps [of _ "of_nat i"])
  qed
qed

subsection \<open>Cycles\<close>

definition linked :: "scenario \<Rightarrow> search \<Rightarrow> bool" where
  "linked sc st \<longleftrightarrow> numbered st
     \<and> (\<forall>i < length (worlds st). points sc (worlds st) (worlds st ! i) (enabled sc (worlds st ! i)) (links st ! i))"

lemma linked_in_range:
  assumes "linked sc st"
  shows "in_range (links st)"
  unfolding in_range_def
proof (intro ballI)
  fix row x assume "row \<in> set (links st)" "x \<in> set row"
  then obtain i j where i: "i < length (links st)" "row = links st ! i" and j: "j < length row" "x = row ! j"
    by (metis in_set_conv_nth)
  with assms have "points sc (worlds st) (worlds st ! i) (enabled sc (worlds st ! i)) row" "length (links st) = length (worlds st)"
    by (auto simp: linked_def numbered_def)
  with j show "unat x < length (links st)" unfolding points_def by (auto dest: list_all2_nthD2)
qed

lemma linked_edges:
  assumes "linked sc st" and "i < length (worlds st)"
  shows "(i, j) \<in> edges (links st) \<longleftrightarrow> j < length (worlds st) \<and> env_step sc (worlds st ! i) (worlds st ! j)"
proof -
  let ?acts = "enabled sc (worlds st ! i)" and ?row = "links st ! i"
  from assms have p: "points sc (worlds st) (worlds st ! i) ?acts ?row" and n: "numbered st"
    by (auto simp: linked_def)
  have len: "length (links st) = length (worlds st)" using n by (simp add: numbered_def)
  show ?thesis
  proof
    assume "(i, j) \<in> edges (links st)"
    then obtain x where x: "x \<in> set ?row" "j = unat x" by (auto simp: edges_def)
    then obtain k where "k < length ?row" "x = ?row ! k" by (metis in_set_conv_nth)
    with p x have "j < length (worlds st)" "worlds st ! j = apply_world sc (worlds st ! i) (?acts ! k)" "?acts ! k \<in> set ?acts"
      unfolding points_def by (auto dest: list_all2_nthD2 list_all2_lengthD)
    then show "j < length (worlds st) \<and> env_step sc (worlds st ! i) (worlds st ! j)" by (metis env_step.intros)
  next
    assume "j < length (worlds st) \<and> env_step sc (worlds st ! i) (worlds st ! j)"
    then obtain a where j: "j < length (worlds st)" "a \<in> set ?acts" "worlds st ! j = apply_world sc (worlds st ! i) a"
      by (auto elim: env_stepE)
    then obtain k where "k < length ?acts" "a = ?acts ! k" by (metis in_set_conv_nth)
    with p j have k: "k < length ?row" "unat (?row ! k) < length (worlds st)" "worlds st ! unat (?row ! k) = worlds st ! j"
      unfolding points_def by (auto dest: list_all2_nthD list_all2_lengthD)
    with n j(1) have "unat (?row ! k) = j" by (simp add: numbered_def nth_eq_iff_index_eq)
    with k(1) assms(2) len show "(i, j) \<in> edges (links st)" by (auto simp: edges_def)
  qed
qed

lemma successor:
  assumes "linked sc st" and "i < length (worlds st)" and "env_step sc (worlds st ! i) v"
  shows "\<exists>j < length (worlds st). v = worlds st ! j"
proof -
  from assms(3) obtain a where a: "a \<in> set (enabled sc (worlds st ! i))" "v = apply_world sc (worlds st ! i) a"
    by (auto elim: env_stepE)
  then obtain k where k: "k < length (enabled sc (worlds st ! i))" "a = enabled sc (worlds st ! i) ! k" by (metis in_set_conv_nth)
  from assms(1,2) have "points sc (worlds st) (worlds st ! i) (enabled sc (worlds st ! i)) (links st ! i)" by (simp add: linked_def)
  from list_all2_nthD [OF this [unfolded points_def] k(1)] a k(2) show ?thesis by auto
qed

lemma linked_path:
  assumes l: "linked sc st" and "i < length (worlds st)"
  shows "(i, j) \<in> (edges (links st))\<^sup>+ \<longleftrightarrow> j < length (worlds st) \<and> (env_step sc)\<^sup>+\<^sup>+ (worlds st ! i) (worlds st ! j)"
proof
  assume "(i, j) \<in> (edges (links st))\<^sup>+"
  then show "j < length (worlds st) \<and> (env_step sc)\<^sup>+\<^sup>+ (worlds st ! i) (worlds st ! j)"
  proof (induction rule: trancl_induct)
    case (base j)
    with linked_edges [OF assms] show ?case by auto
  next
    case (step j k)
    with linked_edges [OF l, of j k] show ?case by (auto intro: tranclp.trancl_into_trancl)
  qed
next
  have "\<exists>j < length (worlds st). v = worlds st ! j \<and> (i, j) \<in> (edges (links st))\<^sup>+" if "(env_step sc)\<^sup>+\<^sup>+ (worlds st ! i) v" for v
    using that
  proof (induction rule: tranclp_induct)
    case (base v)
    from successor [OF l assms(2) base] obtain j where "j < length (worlds st)" "v = worlds st ! j" by blast
    with base linked_edges [OF assms, of j] show ?case by blast
  next
    case (step v u)
    then obtain j where j: "j < length (worlds st)" "v = worlds st ! j" "(i, j) \<in> (edges (links st))\<^sup>+" by blast
    with successor [OF l j(1)] step.hyps(2) obtain k where "k < length (worlds st)" "u = worlds st ! k" by blast
    with j step.hyps(2) linked_edges [OF l j(1), of k] show ?case by (blast intro: trancl_into_trancl)
  qed
  moreover assume "j < length (worlds st) \<and> (env_step sc)\<^sup>+\<^sup>+ (worlds st ! i) (worlds st ! j)"
  ultimately show "(i, j) \<in> (edges (links st))\<^sup>+" using l by (metis linked_def nth_eq_iff_index_eq numbered_def)
qed

subsection \<open>What the report says\<close>

definition exact_report :: "scenario \<Rightarrow> report \<Rightarrow> bool" where
  "exact_report sc r \<longleftrightarrow> (case rep_violation r of
      Some (e, acts) \<Rightarrow> (\<exists>w. replay sc (init_world sc) acts = Some w \<and> check_env_invariants sc w = Inl e)
    | None \<Rightarrow> (\<forall>w \<in> reachable sc. check_env_invariants sc w = Inr ())
        \<and> rep_states r = card (reachable sc)
        \<and> rep_terminals r = card {w \<in> reachable sc. quiet sc w}
        \<and> rep_incomplete r = card {w \<in> reachable sc. incomplete sc w}
        \<and> rep_unfresh r = card {w \<in> reachable sc. unfresh sc w}
        \<and> (rep_cycle r \<longleftrightarrow> (\<exists>w \<in> reachable sc. (env_step sc)\<^sup>+\<^sup>+ w w)))"

lemma search_covers:
  assumes inv: "search_inv sc (length (worlds st)) st"
  shows "linked sc st" and "set (worlds st) = reachable sc"
proof -
  show l: "linked sc st" using inv by (simp add: search_inv_def linked_def)
  have "reachable sc \<subseteq> set (worlds st)"
  proof (rule reachable_closed)
    show "init_world sc \<in> set (worlds st)" using inv by (metis length_greater_0_conv nth_mem search_inv_def)
    show "v \<in> set (worlds st)" if "w \<in> set (worlds st)" "env_step sc w v" for w v
      using that successor [OF l] by (metis in_set_conv_nth)
  qed
  with inv show "set (worlds st) = reachable sc" by (auto simp: search_inv_def)
qed

lemma length_filter_card: "distinct xs \<Longrightarrow> length (filter P xs) = card {x \<in> set xs. P x}"
  by (metis distinct_card distinct_filter set_filter)

lemma search_cycle:
  assumes inv: "search_inv sc (length (worlds st)) st" and small: "card (reachable sc) < 2 ^ 32"
  shows "has_cycle (links st) = Done (\<exists>w \<in> reachable sc. (env_step sc)\<^sup>+\<^sup>+ w w)"
proof -
  note covers = search_covers [OF inv]
  from covers(1) have n: "numbered st" "length (links st) = length (worlds st)" by (auto simp: linked_def numbered_def)
  have "length (links st) < 2 ^ 32" using n worlds_length [OF n(1), of "reachable sc"] covers(2) small by simp
  moreover have "(\<exists>v. (v, v) \<in> (edges (links st))\<^sup>+) \<longleftrightarrow> (\<exists>w \<in> reachable sc. (env_step sc)\<^sup>+\<^sup>+ w w)"
  proof
    assume "\<exists>v. (v, v) \<in> (edges (links st))\<^sup>+"
    then obtain v where v: "(v, v) \<in> (edges (links st))\<^sup>+" ..
    then have "v < length (worlds st)" using edges_bound [OF linked_in_range [OF covers(1)]] n(2) by (metis tranclD)
    with v linked_path [OF covers(1) this, of v] covers(2) show "\<exists>w \<in> reachable sc. (env_step sc)\<^sup>+\<^sup>+ w w"
      by (metis nth_mem)
  next
    assume "\<exists>w \<in> reachable sc. (env_step sc)\<^sup>+\<^sup>+ w w"
    then obtain i where i: "i < length (worlds st)" "(env_step sc)\<^sup>+\<^sup>+ (worlds st ! i) (worlds st ! i)"
      using covers(2) by (metis in_set_conv_nth)
    with linked_path [OF covers(1) i(1), of i] show "\<exists>v. (v, v) \<in> (edges (links st))\<^sup>+" by blast
  qed
  ultimately show ?thesis using has_cycle_correct [OF linked_in_range [OF covers(1)]] by simp
qed


lemma search_inv_worlds:
  assumes "search_inv sc k st"
  shows "length (worlds st) \<le> card (reachable sc)"
  using assms by (auto simp: search_inv_def intro: worlds_length)

lemma search_done:
  assumes inv: "search_inv sc (length (worlds st)) st" and small: "card (reachable sc) < 2 ^ 32"
  shows "\<exists>r. search_loop sc st = Some (Done r) \<and> exact_report sc r"
proof -
  from inv have "pending st = []" and n: "numbered st" "counts sc (worlds st) (rep st)"
    and ok: "\<forall>i < length (worlds st). check_env_invariants sc (worlds st ! i) = Inr ()" by (simp_all add: search_inv_def)
  with search_cycle [OF inv small] have run: "search_loop sc st = Some (Done ((rep st)\<lparr>rep_states := length (worlds st),
      rep_cycle := (\<exists>w \<in> reachable sc. (env_step sc)\<^sup>+\<^sup>+ w w)\<rparr>))"
    by (simp add: search_loop.simps fcard_ids)
  from ok have "\<forall>w \<in> set (worlds st). check_env_invariants sc w = Inr ()" by (auto simp: in_set_conv_nth)
  moreover have "distinct (worlds st)" using n by (simp add: numbered_def)
  ultimately have "exact_report sc ((rep st)\<lparr>rep_states := length (worlds st),
      rep_cycle := (\<exists>w \<in> reachable sc. (env_step sc)\<^sup>+\<^sup>+ w w)\<rparr>)"
    using n(2) search_covers(2) [OF inv]
    by (simp add: exact_report_def counts_def length_filter_card distinct_card [symmetric])
  with run show ?thesis by blast
qed

lemma search_violation:
  assumes inv: "search_inv sc k st" and k: "k < length (worlds st)" and small: "card (reachable sc) < 2 ^ 32"
    and bad: "check_env_invariants sc (worlds st ! k) = Inl e"
  shows "\<exists>r. search_loop sc st = Some (Done r) \<and> exact_report sc r"
proof -
  from search_inv_worlds [OF inv] small have len: "length (worlds st) < 2 ^ 32" by simp
  with k have kk: "unat (of_nat k :: u32) = k" by (simp add: unat_of_nat_u32)
  from inv len k obtain as where t: "trace_to (parents st) (of_nat k) [] = Some (Done as)"
    "replay sc (init_world sc) as = Some (worlds st ! k)"
    using trace_replays [of st sc k "[]"] by (auto simp: search_inv_def)
  have "search_loop sc st = Some (Done ((rep st)\<lparr>rep_states := fcard (fmdom (ids st)), rep_violation := Some (e, as)\<rparr>))"
    using inv k kk bad t(1) by (simp add: search_loop.simps search_inv_def index_range_Cons)
  moreover have "exact_report sc ((rep st)\<lparr>rep_states := fcard (fmdom (ids st)), rep_violation := Some (e, as)\<rparr>)"
    using bad t(2) by (simp add: exact_report_def)
  ultimately show ?thesis by blast
qed

lemma search_loop_exact:
  assumes "search_inv sc k st" and "card (reachable sc) < 2 ^ 32"
  shows "\<exists>r. search_loop sc st = Some (Done r) \<and> exact_report sc r"
  using assms(1)
proof (induction "card (reachable sc) - k" arbitrary: k st rule: less_induct)
  case less
  note inv = less.prems
  show ?case
  proof (cases "k < length (worlds st)")
    case False
    with inv have "k = length (worlds st)" by (simp add: search_inv_def)
    with inv search_done [OF _ assms(2)] show ?thesis by simp
  next
    case k: True
    let ?w = "worlds st ! k" and ?q = "index_range (Suc k) (length (worlds st))"
    from search_inv_worlds [OF inv] k have dec: "card (reachable sc) - Suc k < card (reachable sc) - k" by simp
    from search_inv_worlds [OF inv] k assms(2) have kk: "unat (of_nat k :: u32) = k" by (simp add: unat_of_nat_u32)
    have p: "pending st = of_nat k # ?q" using inv k by (simp add: search_inv_def index_range_Cons)
    show ?thesis
    proof (cases "check_env_invariants sc ?w")
      case (Inl e)
      then show ?thesis by (rule search_violation [OF inv k assms(2)])
    next
      case ok: (Inr u)
      then have ok': "check_env_invariants sc ?w = Inr ()" by simp
      show ?thesis
      proof (cases "enabled sc ?w = []")
        case True
        have "search_loop sc st = search_loop sc (st\<lparr>pending := ?q, rep := count_terminal sc ?w (rep st)\<rparr>)"
          by (subst search_loop.simps) (use p kk k ok True in simp)
        with less.hyps [OF dec search_inv_quiet [OF inv k ok' True]] show ?thesis by simp
      next
        case False
        from search_inv_expand [OF inv k assms(2) ok' False]
        obtain st' where e: "expand sc (of_nat k) ?w (enabled sc ?w) (st\<lparr>pending := ?q\<rparr>) = Done st'" "search_inv sc (Suc k) st'" by blast
        have "search_loop sc st = search_loop sc st'"
          by (subst search_loop.simps) (use p kk k ok False e(1) in simp)
        with less.hyps [OF dec e(2)] show ?thesis by simp
      qed
    qed
  qed
qed

lemma explore_exact_report:
  "card (reachable sc) < 2 ^ 32 \<Longrightarrow> \<exists>r. explore sc = Some (Done r) \<and> exact_report sc r"
  unfolding explore_def using search_loop_exact [OF search_inv_init] by blast

end
