(* ===== verification/Explore_Props.thy ===== *)
theory Explore_Props
  imports Explore_Search Machine_Props
begin

section \<open>What the explorer reports, for every scenario\<close>

text \<open>
  The verdicts of the parity matrix as theorems over all scenarios: the environment's invariant, the measure
  that every act lowers when stalled peers are barred, and that a quiet world is complete.
\<close>

subsection \<open>Well-formed scenarios\<close>

definition wf_scenario :: "scenario \<Rightarrow> bool" where
  "wf_scenario sc \<longleftrightarrow> dedup (sc_cfg sc)
     \<and> list_all (\<lambda>c. list_ex (\<lambda>(p, cs). c \<in> set cs \<and> honest sc p) (sc_holds sc)) (sc_chunks sc)
     \<and> set (sc_live sc) \<subseteq> set (sc_chunks sc) \<and> length (sc_chunks sc) < 2 ^ 32"

text \<open>The knobs of the matrix's positive rows.\<close>

definition positive :: "config \<Rightarrow> bool" where
  "positive k \<longleftrightarrow> failover k \<and> exclude k \<and> reset_on_exhaust k \<and> \<not> single_source k \<and> enable_live k"

subsection \<open>The acts\<close>

lemma claim_acts_iff:
  "a \<in> set (claim_acts sc w) \<longleftrightarrow> (\<exists>c p. p |\<in>| claims (mach w) c \<and>
     (a = Act_Deliver c p \<and> honest sc p
      \<or> a = Act_Stall c p \<and> failover (cfg (mach w)) \<and> (\<not> honest sc p \<or> 0 < tmo w)))"
  by (fastforce simp: claim_acts_def get_or_def split: option.splits if_splits)

lemma churn_acts_iff:
  "a \<in> set (churn_acts sc w) \<longleftrightarrow> (\<exists>c \<in> set (sc_chunks sc). \<exists>p. c |\<notin>| got (mach w) \<and>
     (a = Act_Lose c p \<and> p |\<in>| holds (mach w) c \<and> (\<exists>q. q |\<in>| holds (mach w) c \<and> q \<noteq> p \<and> honest sc q)
      \<or> a = Act_Gain c p \<and> p \<in> set (sc_peers sc) \<and> p |\<notin>| holds (mach w) c))"
  by (auto simp: churn_acts_def has_def Let_def list_ex_iff split: if_splits)

text \<open>The acts of a world, one rule for each.\<close>

lemma enabledE:
  assumes "a \<in> set (enabled sc w)"
  obtains (want) c p where "a = Act_Want c p" "claimable (mach w) c p"
  | (deliver) c p where "a = Act_Deliver c p" "p |\<in>| claims (mach w) c" "honest sc p"
  | (stall) c p where "a = Act_Stall c p" "p |\<in>| claims (mach w) c" "failover (cfg (mach w))" "\<not> honest sc p \<or> 0 < tmo w"
  | (lose) c p q where "a = Act_Lose c p" "0 < chn w" "p |\<in>| holds (mach w) c" "q |\<in>| holds (mach w) c" "q \<noteq> p" "honest sc q"
  | (gain) c p where "a = Act_Gain c p" "0 < chn w" "p |\<notin>| holds (mach w) c"
  | (new) c where "a = Act_New c" "c \<in> set (sc_live sc)" "c |\<notin>| got (mach w)" "c |\<notin>| rejected (mach w)" "c |\<notin>| arrived (mach w)"
  | (reset) c where "a = Act_Reset c" "c \<in> set (sc_chunks sc)" "can_reset_excluded (mach w) c"
proof -
  from assms consider c p where "a = Act_Want c p" "claimable (mach w) c p"
    | "a \<in> set (claim_acts sc w)"
    | c where "a = Act_New c" "c \<in> set (sc_live sc)" "c |\<notin>| got (mach w)" "c |\<notin>| rejected (mach w)" "c |\<notin>| arrived (mach w)"
    | "0 < chn w" "a \<in> set (churn_acts sc w)"
    | c where "a = Act_Reset c" "c \<in> set (sc_chunks sc)" "can_reset_excluded (mach w) c"
    by (auto simp: enabled_def has_def is_rejected_def split: if_splits)
  then show thesis
    by cases (auto simp: claim_acts_iff churn_acts_iff intro: that)
qed

lemma on_mach_simps [simp]:
  "mach (snd (on_mach f w)) = snd (f (mach w))" "tmo (snd (on_mach f w)) = tmo w" "chn (snd (on_mach f w)) = chn w"
  "fst (on_mach f w) = fst (f (mach w))"
  by (simp_all add: on_mach_def split: prod.splits)

lemmas act_defs = apply_world_def machine_defs case_prod_beta Let_def

subsection \<open>The invariant of the environment\<close>

definition env_inv :: "scenario \<Rightarrow> world \<Rightarrow> bool" where
  "env_inv sc w \<longleftrightarrow> machine_inv (mach w) \<and> cfg (mach w) = sc_cfg sc
     \<and> (\<forall>c \<in> set (sc_chunks sc). \<exists>p. p |\<in>| holds (mach w) c \<and> honest sc p)
     \<and> got (mach w) |\<subseteq>| arrived (mach w) \<and> fset (arrived (mach w)) \<subseteq> set (sc_chunks sc)
     \<and> rejected (mach w) = {||}
     \<and> (\<forall>c \<in> set (sc_chunks sc). c |\<in>| arrived (mach w) \<or> c \<in> set (sc_live sc))
     \<and> (timeout_budget sc = 0 \<longrightarrow> tmo w = 0 \<and> (\<forall>c p. p |\<in>| bars (mach w) c \<longrightarrow> \<not> honest sc p))"

lemma machine_inv_apply:
  assumes "machine_inv (mach w)"
  shows "machine_inv (mach (apply_world sc w a))"
  using assms by (cases a) (auto simp: apply_world_def intro: inv_intros)

lemma cfg_apply [simp]: "cfg (mach (apply_world sc w a)) = cfg (mach w)"
  by (cases a) (auto simp: act_defs)

lemma arrived_apply:
  "arrived (mach (apply_world sc w a)) |\<subseteq>| arrived (mach w) |\<union>| (case a of Act_New c \<Rightarrow> {|c|} | _ \<Rightarrow> {||})"
  "arrived (mach w) |\<subseteq>| arrived (mach (apply_world sc w a))"
  "rejected (mach (apply_world sc w a)) = rejected (mach w)"
  by (cases a; auto simp: act_defs)+

lemma env_inv_step:
  assumes inv: "env_inv sc w" and step: "env_step sc w v" and wf: "wf_scenario sc"
  shows "env_inv sc v"
proof -
  from step obtain a where a: "a \<in> set (enabled sc w)" and v: "v = apply_world sc w a" by (auto elim: env_stepE)
  from inv have mi: "machine_inv (mach w)" by (simp add: env_inv_def)
  from a have "fset (arrived (mach v)) \<subseteq> set (sc_chunks sc)"
    using inv wf arrived_apply(1) [of sc w a] unfolding v env_inv_def wf_scenario_def
    by (cases rule: enabledE) (auto split: act.splits)
  moreover from a have "got (mach v) |\<subseteq>| arrived (mach v)"
    using inv mi unfolding v env_inv_def machine_inv_def by (cases rule: enabledE) (auto simp: act_defs)
  moreover from a have "\<forall>c \<in> set (sc_chunks sc). \<exists>p. p |\<in>| holds (mach v) c \<and> honest sc p"
    using inv unfolding v env_inv_def by (cases rule: enabledE) (auto simp: act_defs)
  moreover from a have "timeout_budget sc = 0 \<longrightarrow> tmo v = 0 \<and> (\<forall>c p. p |\<in>| bars (mach v) c \<longrightarrow> \<not> honest sc p)"
    using inv unfolding v env_inv_def by (cases rule: enabledE) (auto simp: act_defs)
  ultimately show ?thesis
    using inv machine_inv_apply [OF mi] arrived_apply(2,3) [where sc = sc and w = w and a = a] unfolding v env_inv_def by auto
qed

text \<open>The four loops of \<open>init\<close>.\<close>

lemma init_observed:
  fixes m :: "u32 pull_state"
  shows "p |\<in>| holds (fold (\<lambda>(p, cs). fold (\<lambda>c m. snd (observe_holder c p m)) cs) hs m) c
     \<longleftrightarrow> p |\<in>| holds m c \<or> (\<exists>cs. (p, cs) \<in> set hs \<and> c \<in> set cs)"
proof (induction hs arbitrary: m)
  case (Cons h hs)
  obtain q cs where h: "h = (q, cs)" by (cases h)
  have "p |\<in>| holds (fold (\<lambda>c m. snd (observe_holder c q m)) cs n) c \<longleftrightarrow> p |\<in>| holds n c \<or> p = q \<and> c \<in> set cs" for n :: "u32 pull_state"
    by (induction cs arbitrary: n) (auto simp: observe_holder_def)
  with Cons h show ?case by auto
qed simp

lemma fold_same:
  assumes "\<And>x s. f (g x s) = f s"
  shows "f (fold g xs s) = f s"
  by (induction xs arbitrary: s) (simp_all add: assms)

lemma init_arrived:
  fixes m :: "u32 pull_state"
  assumes "got m = {||}" and "rejected m = {||}"
  shows "fset (arrived (fold (\<lambda>c m. if c \<in> L then m else snd (arrive_hist c m)) cs m)) = fset (arrived m) \<union> (set cs - L)"
  using assms
proof (induction cs arbitrary: m)
  case (Cons c cs)
  then show ?case by (simp add: arrive_hist_def) blast
qed simp

definition observed :: "scenario \<Rightarrow> u32 pull_state" where
  "observed sc = fold (\<lambda>(c, p). set_assign c p) (sc_assign sc) (fold (\<lambda>(c, d). set_prio c d) (sc_prio sc)
     (fold (\<lambda>(p, cs). fold (\<lambda>c m. snd (observe_holder c p m)) cs) (sc_holds sc) (PullState_new (sc_cfg sc))))"

lemma init_world_observed:
  "init_world sc = \<lparr>mach = fold (\<lambda>c m. if c \<in> set (sc_live sc) then m else snd (arrive_hist c m)) (sc_chunks sc) (observed sc),
     tmo = timeout_budget sc, chn = churn_budget sc\<rparr>"
  by (simp add: init_world_def observed_def Let_def)

lemma observed_frame:
  assumes "\<And>c p s. f (set_assign c p s) = f s" and "\<And>c d s. f (set_prio c d s) = f s"
  shows "f (observed sc) = f (fold (\<lambda>(p, cs). fold (\<lambda>c m. snd (observe_holder c p m)) cs) (sc_holds sc) (PullState_new (sc_cfg sc)))"
proof -
  have "f (fold (\<lambda>(c, p). set_assign c p) xs m) = f m" for xs m
    by (rule fold_same) (auto simp: assms)
  moreover have "f (fold (\<lambda>(c, d). set_prio c d) xs m) = f m" for xs m
    by (rule fold_same) (auto simp: assms)
  ultimately show ?thesis by (simp only: observed_def)
qed

lemma observed_frame_new:
  assumes "\<And>c p s. f (set_assign c p s) = f s" and "\<And>c d s. f (set_prio c d s) = f s"
    and "\<And>c p s. f (snd (observe_holder c p s)) = f s"
  shows "f (observed sc) = f (PullState_new (sc_cfg sc))"
proof -
  have "f (fold (\<lambda>(p, cs). fold (\<lambda>c m. snd (observe_holder c p m)) cs) hs m) = f m" for hs m
    by (rule fold_same) (auto intro: fold_same assms(3))
  with observed_frame [of f, OF assms(1,2)] show ?thesis by simp
qed

lemma observed_fields:
  "want (observed sc) = fmempty" "excluded (observed sc) = fmempty" "got (observed sc) = {||}" "arrived (observed sc) = {||}"
  "rejected (observed sc) = {||}" "cfg (observed sc) = sc_cfg sc"
  using observed_frame_new [of want] observed_frame_new [of excluded] observed_frame_new [of got] observed_frame_new [of arrived]
    observed_frame_new [of rejected] observed_frame_new [of cfg]
  by (simp_all add: set_assign_def set_prio_def observe_holder_def PullState_new_def)

lemma observed_holds: "p |\<in>| holds (observed sc) c \<longleftrightarrow> (\<exists>cs. (p, cs) \<in> set (sc_holds sc) \<and> c \<in> set cs)"
  using observed_frame [of holders sc]
  by (simp add: set_assign_def set_prio_def init_observed PullState_new_def)

lemma machine_inv_observed: "dedup (sc_cfg sc) \<Longrightarrow> machine_inv (observed sc)"
  unfolding observed_def
  by (intro fold_keeps [where P = machine_inv]) (auto intro: inv_intros fold_keeps [where P = machine_inv])

lemma init_frame:
  assumes "\<And>c s. f (snd (arrive_hist c s)) = f s"
  shows "f (mach (init_world sc)) = f (observed sc)"
  unfolding init_world_observed world.simps by (rule fold_same) (simp add: assms)

lemma init_fields:
  "want (mach (init_world sc)) = fmempty" "excluded (mach (init_world sc)) = fmempty" "got (mach (init_world sc)) = {||}"
  "rejected (mach (init_world sc)) = {||}" "cfg (mach (init_world sc)) = sc_cfg sc"
  "holders (mach (init_world sc)) = holders (observed sc)"
  using init_frame [of want] init_frame [of excluded] init_frame [of got] init_frame [of rejected] init_frame [of cfg]
    init_frame [of holders]
  by (simp_all add: arrive_hist_def observed_fields)

lemma env_inv_init:
  assumes "wf_scenario sc"
  shows "env_inv sc (init_world sc)"
proof -
  have "machine_inv (mach (init_world sc))"
    unfolding init_world_observed world.simps
    by (rule fold_keeps) (use assms machine_inv_observed in \<open>auto simp: wf_scenario_def intro: inv_intros\<close>)
  moreover have "\<exists>p. p |\<in>| holds (mach (init_world sc)) c \<and> honest sc p" if "c \<in> set (sc_chunks sc)" for c
    using assms that by (fastforce simp: wf_scenario_def list_all_iff list_ex_iff init_fields observed_holds)
  moreover have "fset (arrived (mach (init_world sc))) = set (sc_chunks sc) - set (sc_live sc)"
    using init_arrived [of "observed sc"] by (simp add: init_world_observed observed_fields)
  ultimately show ?thesis by (auto simp: env_inv_def init_fields) (simp_all add: init_world_observed)
qed

interpretation explorer: safety "\<lambda>w. wf_scenario sc \<and> w = init_world sc" "env_step sc" "\<lambda>w. wf_scenario sc \<and> env_inv sc w" for sc
  by unfold_locales (auto intro: env_inv_init env_inv_step)

lemma env_inv_reachable: "wf_scenario sc \<Longrightarrow> w \<in> reachable sc \<Longrightarrow> env_inv sc w"
  using explorer.inv_run by (auto simp: reachable_def)

lemma env_inv_checks:
  assumes inv: "env_inv sc w" and wf: "wf_scenario sc"
  shows "check_env_invariants sc w = Inr ()"
proof -
  have "card (fset (got (mach w))) \<le> card (set (sc_chunks sc))"
    using inv by (intro card_mono) (auto simp: env_inv_def less_eq_fset.rep_eq)
  also have "\<dots> < 2 ^ 32" using wf card_length [of "sc_chunks sc"] by (simp add: wf_scenario_def)
  finally have "check_invariants (mach w) = Inr ()"
    using inv by (intro check_invariants_machine_inv) (auto simp: env_inv_def fcard.rep_eq)
  moreover have "list_all (supplied sc w) (sc_chunks sc)"
    using inv by (fastforce simp: list_all_iff env_inv_def supplied_def get_or_def split: option.splits)
  moreover have "\<not> (timeout_budget sc = 0 \<and> fBex (fmdom (excluded (mach w))) (\<lambda>c. fBex (bars (mach w) c) (honest sc)))"
    using inv by (auto simp: env_inv_def)
  ultimately show ?thesis by (simp add: check_env_invariants_def)
qed

lemma enabled_applies:
  assumes "a \<in> set (enabled sc w)"
  shows "fst (apply_act sc w a) \<and> tmo (apply_world sc w a) \<le> tmo w \<and> chn (apply_world sc w a) \<le> chn w"
proof -
  have "x - 1 \<le> x" if "0 < x" for x :: u8 using that by (simp add: word_minus_one_less order_less_imp_le)
  with assms show ?thesis by (cases rule: enabledE) (auto simp: act_defs)
qed

subsection \<open>Every act makes progress\<close>

definition honest_bars :: "scenario \<Rightarrow> world \<Rightarrow> nat" where
  "honest_bars sc w = card {(c, p). p |\<in>| bars (mach w) c \<and> honest sc p}"

definition progress :: "scenario \<Rightarrow> (world \<times> world) set" where
  "progress sc = measures [\<lambda>w. unat (tmo w) + honest_bars sc w, \<lambda>w. unat (chn w),
     \<lambda>w. card (- fset (got (mach w))), \<lambda>w. card (- fset (arrived (mach w))),
     \<lambda>w. card {(c, p). p |\<notin>| bars (mach w) c}, \<lambda>w. card {(c, p). p |\<notin>| claims (mach w) c}]"

lemma card_less: "finite B \<Longrightarrow> A \<subseteq> B \<Longrightarrow> x \<in> B \<Longrightarrow> x \<notin> A \<Longrightarrow> card A < card B"
  by (rule psubset_card_mono) auto

lemma progress_step:
  assumes inv: "env_inv sc w" and wf: "wf_scenario sc" and ex: "exclude (sc_cfg sc)" and step: "env_step sc w v"
  shows "(v, w) \<in> progress sc"
proof -
  from step obtain a where a: "a \<in> set (enabled sc w)" and v: "v = apply_world sc w a" by (auto elim: env_stepE)
  from inv have mi: "machine_inv (mach w)" by (simp add: env_inv_def)
  from a show ?thesis
  proof (cases rule: enabledE)
    case (want c p)
    then have cl: "claims (mach v) d = (if d = c then finsert p (claims (mach w) c) else claims (mach w) d)" for d
      by (simp add: v act_defs)
    have "p |\<notin>| claims (mach w) c" using want(2) by (simp add: claimable_def)
    then have "card {(d, q). q |\<notin>| claims (mach v) d} < card {(d, q). q |\<notin>| claims (mach w) d}"
      by (intro card_less [where x = "(c, p)"]) (auto simp: cl split: if_splits)
    with want show ?thesis by (simp add: progress_def honest_bars_def v act_defs)
  next
    case (deliver c p)
    then have "card (- fset (got (mach v))) < card (- fset (got (mach w)))"
      using mi by (intro card_less [where x = c]) (auto simp: v act_defs machine_inv_def)
    with deliver show ?thesis by (simp add: progress_def honest_bars_def v act_defs)
  next
    case (stall c p)
    then have out: "p |\<notin>| bars (mach w) c" using mi by (auto simp: machine_inv_def)
    have exw: "exclude (cfg (mach w))" using inv ex by (simp add: env_inv_def)
    have bars: "bars (mach v) d = (if d = c then finsert p (bars (mach w) c) else bars (mach w) d)" for d
      using stall exw by (simp add: v act_defs)
    have less: "card {(d, q). q |\<notin>| bars (mach v) d} < card {(d, q). q |\<notin>| bars (mach w) d}"
      using out by (intro card_less [where x = "(c, p)"]) (auto simp: bars split: if_splits)
    have "unat (tmo v) + honest_bars sc v = unat (tmo w) + honest_bars sc w"
    proof (cases "honest sc p")
      case True
      have "{(d, q). q |\<in>| bars (mach v) d \<and> honest sc q} = insert (c, p) {(d, q). q |\<in>| bars (mach w) d \<and> honest sc q}"
        using True by (auto simp: bars split: if_splits)
      then have "honest_bars sc v = Suc (honest_bars sc w)" using out by (simp add: honest_bars_def)
      moreover have "0 < tmo w" using stall True by simp
      then have "unat (tmo v) = unat (tmo w) - 1" "0 < unat (tmo w)"
        using stall True by (auto simp: v act_defs unat_minus_one_less [of 0] word_less_nat_alt)
      ultimately show ?thesis by simp
    next
      case False
      then have "{(d, q). q |\<in>| bars (mach v) d \<and> honest sc q} = {(d, q). q |\<in>| bars (mach w) d \<and> honest sc q}"
        by (auto simp: bars split: if_splits)
      with False stall show ?thesis by (simp add: honest_bars_def v act_defs)
    qed
    with less stall show ?thesis by (simp add: progress_def v act_defs)
  next
    case (lose c p q)
    then have "unat (chn v) < unat (chn w)" by (simp add: v act_defs unat_minus_one_less [of 0] word_less_nat_alt)
    with lose show ?thesis by (simp add: progress_def honest_bars_def v act_defs)
  next
    case (gain c p)
    then have "unat (chn v) < unat (chn w)" by (simp add: v act_defs unat_minus_one_less [of 0] word_less_nat_alt)
    with gain show ?thesis by (simp add: progress_def honest_bars_def v act_defs)
  next
    case (new c)
    then have "card (- fset (arrived (mach v))) < card (- fset (arrived (mach w)))"
      by (intro card_less [where x = c]) (auto simp: v act_defs)
    with new show ?thesis by (simp add: progress_def honest_bars_def v act_defs)
  next
    case (reset c)
    obtain p where p: "p |\<in>| holds (mach w) c" "honest sc p" using inv reset(2) by (auto simp: env_inv_def)
    with reset(3) have "p |\<in>| bars (mach w) c" by (auto simp: can_reset_excluded_def get_or_def split: option.splits)
    with p reset have "honest_bars sc v < honest_bars sc w"
      unfolding honest_bars_def by (intro card_less [where x = "(c, p)"]) (auto simp: v act_defs split: if_splits)
    with reset show ?thesis by (simp add: progress_def v act_defs)
  qed
qed

lemma no_cycle:
  assumes "wf_scenario sc" and "exclude (sc_cfg sc)" and "w \<in> reachable sc"
  shows "\<not> (env_step sc)\<^sup>+\<^sup>+ w w"
proof
  assume cyc: "(env_step sc)\<^sup>+\<^sup>+ w w"
  have "v \<in> reachable sc \<and> (v, w) \<in> (progress sc)\<^sup>+" if "(env_step sc)\<^sup>+\<^sup>+ w v" for v
    using that
  proof (induction rule: tranclp_induct)
    case (base v)
    then show ?case using assms reachable_step progress_step env_inv_reachable by (metis r_into_trancl)
  next
    case (step v u)
    then have "(u, v) \<in> progress sc" using assms progress_step env_inv_reachable by blast
    with step show ?case using reachable_step by (meson trancl_into_trancl2)
  qed
  with cyc have "(w, w) \<in> (progress sc)\<^sup>+" by blast
  moreover have "wf ((progress sc)\<^sup>+)" by (simp add: progress_def wf_trancl)
  ultimately show False by simp
qed

subsection \<open>A quiet world is complete\<close>

lemma quiet_complete:
  assumes inv: "env_inv sc w" and pos: "positive (sc_cfg sc)" and q: "quiet sc w" and c: "c \<in> set (sc_chunks sc)"
  shows "has (mach w) c"
proof (rule ccontr)
  let ?m = "mach w"
  assume "\<not> has ?m c"
  then have missing: "c |\<notin>| got ?m" by (simp add: has_def)
  from inv have mi: "machine_inv ?m" and k: "cfg ?m = sc_cfg sc" by (simp_all add: env_inv_def)
  from q have none: "a \<notin> set (enabled sc w)" for a by (simp add: quiet_def)
  have idle: "claims ?m d = {||}" for d
  proof (rule ccontr)
    assume "claims ?m d \<noteq> {||}"
    then obtain p where "p |\<in>| claims ?m d" by blast
    then have "Act_Deliver d p \<in> set (enabled sc w) \<or> Act_Stall d p \<in> set (enabled sc w)"
      using pos k by (auto simp: enabled_def claim_acts_iff positive_def)
    with none show False by blast
  qed
  have arr: "c |\<in>| arrived ?m"
  proof (rule ccontr)
    assume no: "c |\<notin>| arrived ?m"
    with inv c have "c \<in> set (sc_live sc)" "rejected ?m = {||}" by (auto simp: env_inv_def)
    with no missing have "Act_New c \<in> set (enabled sc w)" by (simp add: enabled_def has_def is_rejected_def)
    with none show False by blast
  qed
  obtain p where p: "p |\<in>| holds ?m c" using inv c by (auto simp: env_inv_def)
  show False
  proof (cases "holds ?m c |\<subseteq>| bars ?m c")
    case True
    with p have "can_reset_excluded ?m c"
      using pos k arr missing idle [of c] mi
      by (auto simp: can_reset_excluded_def positive_def machine_inv_def contains_key_normal get_or_def split: option.splits)
    with c have "Act_Reset c \<in> set (enabled sc w)" by (simp add: enabled_def)
    with none show False by blast
  next
    case False
    with missing have "eligible ?m c" by (simp add: eligible_iff)
    moreover have "\<not> addressed ?m c" using mi missing idle [of c] by (simp add: machine_inv_def addressed_iff)
    ultimately obtain d where "d |\<in>| arrived ?m" "eligible ?m d" "\<not> addressed ?m d" "prio_ok ?m d"
      using arr by (auto elim: deepest_eligible)
    then obtain r where "claimable ?m d r"
      using eligible_claimable [OF mi] pos k by (auto simp: positive_def)
    then have "(d, r) \<in> set (enabled_wants ?m)" by simp
    then have "Act_Want d r \<in> set (enabled sc w)" by (force simp: enabled_def)
    with none show False by blast
  qed
qed

lemma some_quiet:
  assumes "wf_scenario sc" and "exclude (sc_cfg sc)"
  shows "\<exists>w \<in> reachable sc. quiet sc w"
proof -
  have "wf (progress sc)" by (simp add: progress_def)
  then obtain w where w: "w \<in> reachable sc" and min: "\<And>v. (v, w) \<in> progress sc \<Longrightarrow> v \<notin> reachable sc"
    using reachable_init by (metis wfE_min)
  have "enabled sc w = []"
  proof (rule ccontr)
    assume "enabled sc w \<noteq> []"
    then obtain a where "a \<in> set (enabled sc w)" by (meson last_in_set)
    then have "env_step sc w (apply_world sc w a)" by (rule env_step.intros)
    then show False using assms w min reachable_step progress_step env_inv_reachable by blast
  qed
  with w show ?thesis by (auto simp: quiet_def)
qed

subsection \<open>The verdicts\<close>

lemma explore_report:
  assumes "wf_scenario sc" and "card (reachable sc) < 2 ^ 32"
  obtains r where "explore sc = Some (Done r)" and "exact_report sc r" and "rep_violation r = None"
proof -
  obtain r where r: "explore sc = Some (Done r)" "exact_report sc r" using explore_exact_report [OF assms(2)] by blast
  have "rep_violation r = None"
  proof (cases "rep_violation r")
    case (Some v)
    then obtain w acts e where "replay sc (init_world sc) acts = Some w" "check_env_invariants sc w = Inl e"
      using r(2) by (cases v) (auto simp: exact_report_def)
    moreover have "w \<in> reachable sc" using calculation(1) replay_reachable by blast
    ultimately show ?thesis using env_inv_checks [OF env_inv_reachable] assms(1) by force
  qed
  with r that show thesis by blast
qed

lemma reachable_listed:
  assumes "init_world sc \<in> set ws" and "list_all (\<lambda>w. list_all (\<lambda>a. apply_world sc w a \<in> set ws) (enabled sc w)) ws"
  shows "card (reachable sc) \<le> length ws"
proof -
  have "reachable sc \<subseteq> set ws"
    by (rule reachable_closed) (use assms in \<open>auto simp: list_all_iff elim!: env_stepE\<close>)
  then have "card (reachable sc) \<le> card (set ws)" by (intro card_mono) auto
  then show ?thesis using card_length [of ws] by linarith
qed

definition tiny :: scenario where
  "tiny = \<lparr>sc_name = ''tiny'', sc_cfg = PRODUCTION, sc_chunks = [1], sc_peers = [7, 9], sc_holds = [(7, [1]), (9, [1])],
     sc_byzantine = [9], sc_live = [], sc_prio = [], sc_assign = [], timeout_budget = 0, churn_budget = 0\<rparr>"

definition tiny_worlds :: "scenario \<Rightarrow> world list" where
  "tiny_worlds sc = (let w = init_world sc; v = apply_world sc w (Act_Want 1 7); u = apply_world sc w (Act_Want 1 9);
       x = apply_world sc u (Act_Stall 1 9); y = apply_world sc x (Act_Want 1 7)
     in [w, v, apply_world sc v (Act_Deliver 1 7), u, x, y, apply_world sc y (Act_Deliver 1 7)])"

text \<open>\<open>tiny\<close> with \<open>exclude\<close> off, as the livelock row of the matrix has it.\<close>

definition tiny_noexclude :: scenario where
  "tiny_noexclude = tiny\<lparr>sc_cfg := PRODUCTION\<lparr>exclude := False\<rparr>\<rparr>"

lemma tiny_reachable: "card (reachable tiny) < 2 ^ 32" "card (reachable tiny_noexclude) < 2 ^ 32"
proof -
  have "card (reachable tiny) \<le> length (tiny_worlds tiny)"
    by (rule reachable_listed) code_simp+
  moreover have "card (reachable tiny_noexclude) \<le> length (tiny_worlds tiny_noexclude)"
    by (rule reachable_listed) code_simp+
  ultimately show "card (reachable tiny) < 2 ^ 32" "card (reachable tiny_noexclude) < 2 ^ 32"
    by (simp_all add: tiny_worlds_def Let_def)
qed

lemma tiny_wf: "wf_scenario tiny" "wf_scenario tiny_noexclude"
  by (simp_all add: wf_scenario_def tiny_def tiny_noexclude_def PRODUCTION_def honest_def)

text \<open>
  C23: The search for a back edge is right. On an adjacency list whose entries are in range, of fewer than
  \<open>2^32\<close> rows, \<open>has_cycle\<close> returns without a panic, and returns true exactly when some node reaches itself.
\<close>

theorem has_cycle_exact:
  assumes "in_range adj" and "length adj < 2 ^ 32"
  shows "has_cycle adj = Done (\<exists>v. (v, v) \<in> (edges adj)\<^sup>+)"
  using assms by (rule has_cycle_correct)

theorem has_cycle_exact_witness:
  "has_cycle [[1], [2], [1]] = Done (\<exists>v. (v, v) \<in> (edges [[1], [2], [1]])\<^sup>+) \<and> has_cycle [[1], [2], [1]] = Done True
   \<and> has_cycle [[1, 2], [2], []] = Done (\<exists>v. (v, v) \<in> (edges [[1, 2], [2], []])\<^sup>+) \<and> has_cycle [[1, 2], [2], []] = Done False"
proof (intro conjI)
  show "has_cycle [[1], [2], [1]] = Done (\<exists>v. (v, v) \<in> (edges [[1], [2], [1]])\<^sup>+)"
    by (rule has_cycle_exact) (simp_all add: in_range_def)
  show "has_cycle [[1, 2], [2], []] = Done (\<exists>v. (v, v) \<in> (edges [[1, 2], [2], []])\<^sup>+)"
    by (rule has_cycle_exact) (simp_all add: in_range_def)
qed code_simp+

text \<open>
  An act that the environment enables applies: the machine accepts it (the debug assertion of \<open>apply\<close>
  holds), and no budget underflows, so both budgets only fall.
\<close>

theorem enabled_act_applies:
  assumes "a \<in> set (enabled sc w)"
  shows "fst (apply_act sc w a) \<and> tmo (apply_world sc w a) \<le> tmo w \<and> chn (apply_world sc w a) \<le> chn w"
  using assms by (rule enabled_applies)

theorem enabled_act_applies_witness:
  "Act_Want 1 9 \<in> set (enabled tiny (init_world tiny))
   \<and> fst (apply_act tiny (init_world tiny) (Act_Want 1 9))
   \<and> tmo (apply_world tiny (init_world tiny) (Act_Want 1 9)) \<le> tmo (init_world tiny)
   \<and> chn (apply_world tiny (init_world tiny) (Act_Want 1 9)) \<le> chn (init_world tiny)"
proof -
  have "Act_Want 1 9 \<in> set (enabled tiny (init_world tiny))" by code_simp
  with enabled_act_applies [OF this] show ?thesis by simp
qed

text \<open>
  C6: The explorer is exact. Below \<open>2^32\<close> reachable worlds it returns, without a panic, and its report is
  the truth: a violation comes with acts that replay from the start to a world that fails that check; and
  without one, every reachable world passes, the counts are those of the reachable worlds and of the terminal
  ones, and a cycle is reported exactly when some world comes back to itself.
\<close>

theorem explorer_exact:
  assumes "card (reachable sc) < 2 ^ 32"
  shows "\<exists>r. explore sc = Some (Done r) \<and> exact_report sc r"
  using assms by (rule explore_exact_report)

theorem explorer_exact_witness: "\<exists>r. explore tiny = Some (Done r) \<and> exact_report tiny r"
  by (rule explorer_exact) (rule tiny_reachable)

text \<open>
  C5: Every positive row of the matrix passes, whatever its chunks, peers, holdings, priorities and budgets.
  When each chunk has an honest holder at the start and the knobs are on, the explorer finds no violation,
  no terminal world that misses a chunk or a live arrival, no cycle, and at least one terminal world.
\<close>

theorem positive_rows_pass:
  assumes wf: "wf_scenario sc" and pos: "positive (sc_cfg sc)" and small: "card (reachable sc) < 2 ^ 32"
  shows "\<exists>r. explore sc = Some (Done r) \<and> rep_violation r = None \<and> rep_states r = card (reachable sc)
    \<and> rep_incomplete r = 0 \<and> rep_unfresh r = 0 \<and> \<not> rep_cycle r \<and> 0 < rep_terminals r"
proof -
  obtain r where r: "explore sc = Some (Done r)" "exact_report sc r" "rep_violation r = None"
    using explore_report [OF wf small] .
  have complete: "\<not> incomplete sc w \<and> \<not> unfresh sc w" if "w \<in> reachable sc" for w
    using quiet_complete [OF env_inv_reachable [OF wf that] pos] wf
    by (auto simp: incomplete_def unfresh_def list_all_iff wf_scenario_def)
  have "0 < card {w \<in> reachable sc. quiet sc w}"
    using some_quiet [OF wf] pos by (auto simp: positive_def card_gt_0_iff)
  moreover have "{w \<in> reachable sc. incomplete sc w} = {}" "{w \<in> reachable sc. unfresh sc w} = {}"
    using complete by auto
  moreover have "\<not> (\<exists>w \<in> reachable sc. (env_step sc)\<^sup>+\<^sup>+ w w)"
    using no_cycle [OF wf] pos by (auto simp: positive_def)
  ultimately show ?thesis using r by (simp add: exact_report_def)
qed

theorem positive_rows_pass_witness:
  "\<exists>r. explore tiny = Some (Done r) \<and> rep_violation r = None \<and> rep_states r = card (reachable tiny)
    \<and> rep_incomplete r = 0 \<and> rep_unfresh r = 0 \<and> \<not> rep_cycle r \<and> 0 < rep_terminals r"
  by (rule positive_rows_pass [OF tiny_wf(1) _ tiny_reachable(1)]) code_simp

text \<open>
  The ablation \<open>noexclude\<close> livelocks in every scenario that starts with a Byzantine claim to offer: without
  bars, claiming and stalling leads back to the same world, and the explorer reports the cycle.
\<close>

theorem noexclude_livelock:
  assumes wf: "wf_scenario sc" and off: "failover (sc_cfg sc)" "\<not> exclude (sc_cfg sc)"
    and c: "claimable (mach (init_world sc)) c p" and byz: "\<not> honest sc p" and small: "card (reachable sc) < 2 ^ 32"
  shows "\<exists>r. explore sc = Some (Done r) \<and> rep_violation r = None \<and> rep_cycle r"
proof -
  let ?w = "init_world sc"
  let ?v = "apply_world sc ?w (Act_Want c p)"
  have inv: "env_inv sc ?w" by (rule env_inv_init [OF wf])
  have "env_step sc ?w ?v" using c by (intro env_step.intros) (force simp: enabled_def)
  moreover have "env_step sc ?v (apply_world sc ?v (Act_Stall c p))"
    using c off byz inv by (intro env_step.intros) (auto simp: enabled_def claim_acts_iff env_inv_def act_defs)
  moreover have "mach (apply_world sc ?v (Act_Stall c p)) = mach ?w"
    using stall_bars_or_loops [OF c] off inv wf
    by (simp add: env_inv_def machine_inv_def do_actions_def Let_def apply_world_def wf_scenario_def)
  then have "apply_world sc ?v (Act_Stall c p) = ?w" using byz by (simp add: apply_world_def world.equality)
  ultimately have "(env_step sc)\<^sup>+\<^sup>+ ?w ?w" by (metis tranclp.r_into_trancl tranclp.trancl_into_trancl)
  moreover obtain r where "explore sc = Some (Done r)" "exact_report sc r" "rep_violation r = None"
    using explore_report [OF wf small] .
  ultimately show ?thesis using reachable_init by (auto simp: exact_report_def)
qed

theorem noexclude_livelock_witness:
  "\<exists>r. explore tiny_noexclude = Some (Done r) \<and> rep_violation r = None \<and> rep_cycle r"
  by (rule noexclude_livelock [where c = 1 and p = 9, OF tiny_wf(2) _ _ _ _ tiny_reachable(2)]) code_simp+

end
