(* ===== verification/Sim.thy ===== *)
theory Sim
  imports Node_Handle
begin

section \<open>Self-play: \<open>crates/sim/src/lib.rs\<close>\<close>

text \<open>
  \<open>k\<close> symmetric nodes, each a puller and a server, over one queue of messages in flight; the scheduler
  draws the next from a seeded generator. A node is named by its index, and by that index as \<open>u8\<close> to the
  pullers. Functions named like ones of the node carry the prefix \<open>sim_\<close>.
\<close>

definition NBINS :: u8 where
  "NBINS = 2"

definition RADIUS :: Bin where
  "RADIUS = 1"

definition PAGE :: nat where
  "PAGE = 4"

definition sim_bin_of :: "triple \<Rightarrow> Bin" where
  "sim_bin_of c = RADIUS + address c ! 31 mod NBINS"

subsection \<open>The network\<close>

record sim_node =
  puller :: node
  byzantine :: bool
  reserve :: "(Bin, (BinId, triple) fmap) fmap"
  index :: "triple fset"
  parked :: "(nat \<times> Bin \<times> BinId) list"

definition sim_head :: "sim_node \<Rightarrow> Bin \<Rightarrow> BinId" where
  "sim_head n bin = (case fmlookup (reserve n) bin of
      None \<Rightarrow> 0
    | Some m \<Rightarrow> (case rev (sorted_list_of_fset (fmdom m)) of [] \<Rightarrow> 0 | b # _ \<Rightarrow> b))"

datatype msg = Req nat effect | Resp nat event

record sim =
  nodes :: "sim_node list"
  queue :: "msg list"
  rng :: u64
  served :: "u64 list"
  spurious_budget :: u32
  concurrent_discovery :: bool
  steps :: u64

definition peer_id :: "nat \<Rightarrow> PeerId" where
  "peer_id i = of_nat i"

fun is_discovery :: "msg \<Rightarrow> bool" where
  "is_discovery (Req _ (GetCursors _)) = True"
| "is_discovery (Req _ (Offer _ _ _)) = True"
| "is_discovery (Resp _ (CursorsResult _ _)) = True"
| "is_discovery (Resp _ (OfferResult _ _ _ _ _)) = True"
| "is_discovery _ = False"

text \<open>\<open>splitmix\<close>: the draw and the next state.\<close>

definition splitmix :: "u64 \<Rightarrow> u64 \<times> u64" where
  "splitmix s0 =
     (let s = s0 + 0x9E3779B97F4A7C15;
          z1 = (xor s (drop_bit 30 s)) * 0xBF58476D1CE4E5B9;
          z2 = (xor z1 (drop_bit 27 z1)) * 0x94D049BB133111EB
      in (xor z2 (drop_bit 31 z2), s))"

definition sim_with_policy :: "nat \<Rightarrow> nat list \<Rightarrow> u64 \<Rightarrow> policy \<Rightarrow> sim" where
  "sim_with_policy k byz seed pol =
     \<lparr>nodes = map (\<lambda>i. \<lparr>puller = with_policy PRODUCTION RADIUS pol, byzantine = i \<in> set byz, reserve = fmempty,
         index = {||}, parked = []\<rparr>) [0..<k],
      queue = [], rng = xor seed 0xD1B54A32D192ED03, served = replicate k 0, spurious_budget = 0,
      concurrent_discovery = True, steps = 0\<rparr>"

definition Sim_new :: "nat \<Rightarrow> nat list \<Rightarrow> u64 \<Rightarrow> sim" where
  "Sim_new k byz seed = sim_with_policy k byz seed SHIPPED"

definition staggered :: "sim \<Rightarrow> sim" where
  "staggered s = s\<lparr>concurrent_discovery := False\<rparr>"

subsection \<open>The serving side\<close>

text \<open>An access to a node out of range panics.\<close>

definition on_node :: "nat \<Rightarrow> (sim_node \<Rightarrow> 'a exec) \<Rightarrow> sim \<Rightarrow> 'a exec" where
  "on_node i f s = (if length (nodes s) \<le> i then Panic else f (nodes s ! i))"

definition set_node :: "nat \<Rightarrow> sim_node \<Rightarrow> sim \<Rightarrow> sim" where
  "set_node i n s = s\<lparr>nodes := (nodes s)[i := n]\<rparr>"

definition push :: "msg list \<Rightarrow> sim \<Rightarrow> sim" where
  "push ms s = s\<lparr>queue := queue s @ ms\<rparr>"

definition offer_response :: "nat \<Rightarrow> Bin \<Rightarrow> BinId \<Rightarrow> sim_node \<Rightarrow> event" where
  "offer_response j bin start n =
     (let refs = (case fmlookup (reserve n) bin of
            None \<Rightarrow> []
          | Some m \<Rightarrow> take PAGE (filter (\<lambda>(b, _). start \<le> b) (sorted_list_of_fmap m)));
          top_id = max (if refs = [] then (if start = 0 then 0 else start - 1) else fst (last refs)) start
      in OfferResult (peer_id j) bin start refs top_id)"

text \<open>The entry of a new chunk into the reserve, and the parked offers it answers.\<close>

definition append_entry :: "triple \<Rightarrow> sim_node \<Rightarrow> sim_node" where
  "append_entry c n =
     (let bin = sim_bin_of c
      in n\<lparr>index := finsert c (index n),
           reserve := fmupd bin (fmupd (sim_head n bin + 1) c (get_or fmempty (reserve n) bin)) (reserve n)\<rparr>)"

definition sim_store :: "nat \<Rightarrow> triple \<Rightarrow> sim \<Rightarrow> sim exec" where
  "sim_store i c s = on_node i (\<lambda>n.
     if c |\<in>| index n then Done s
     else (let bin = sim_bin_of c; head = sim_head n bin; n1 = append_entry c n;
               ready = filter (\<lambda>(_, b, start). b = bin \<and> start \<le> sim_head n1 bin) (parked n1);
               n2 = n1\<lparr>parked := filter (\<lambda>(_, b, start). \<not> (b = bin \<and> start \<le> head + 1)) (parked n1)\<rparr>
           in Done (push (map (\<lambda>(r, b, start). Resp r (offer_response i b start n2)) ready) (set_node i n2 s)))) s"

definition sim_preload :: "nat \<Rightarrow> triple \<Rightarrow> sim \<Rightarrow> sim exec" where
  "sim_preload i c s = on_node i (\<lambda>n. Done (set_node i (n\<lparr>puller := snd (Node_preload c (puller n))\<rparr>) s)) s"

definition sim_seed :: "nat \<Rightarrow> triple \<Rightarrow> sim \<Rightarrow> sim exec" where
  "sim_seed i c s = bind_exec (sim_store i c s) (sim_preload i c)"

definition sim_arrive :: "nat \<Rightarrow> triple \<Rightarrow> sim \<Rightarrow> sim exec" where
  "sim_arrive i c s = bind_exec (sim_preload i c s) (sim_store i c)"

subsection \<open>The pulling side\<close>

definition sim_feed :: "nat \<Rightarrow> event \<Rightarrow> sim \<Rightarrow> sim exec" where
  "sim_feed i ev s = on_node i (\<lambda>n. bind_exec (handle ev (puller n)) (\<lambda>(fx, p).
     Done (push (map (Req i) fx) (set_node i (n\<lparr>puller := p\<rparr>) s)))) s"

fun sim_each :: "('a \<Rightarrow> sim \<Rightarrow> sim exec) \<Rightarrow> 'a list \<Rightarrow> sim \<Rightarrow> sim exec" where
  "sim_each f [] s = Done s"
| "sim_each f (x # xs) s = bind_exec (f x s) (sim_each f xs)"

definition sim_start :: "sim \<Rightarrow> sim exec" where
  "sim_start s =
     (let k = length (nodes s)
      in sim_each (\<lambda>(i, j). if i = j then Done else sim_feed i (PeerSeen (peer_id j)))
           (List.product [0..<k] [0..<k]) s)"

text \<open>The subtraction is in \<open>usize\<close>, before the remainder.\<close>

definition start_ring :: "nat \<Rightarrow> sim \<Rightarrow> sim exec" where
  "start_ring fanout s =
     (let k = length (nodes s)
      in if k = 0 \<or> fanout = 0 then Done s
         else sim_each (\<lambda>(i, d) s.
             bind_exec (sim_feed i (PeerSeen (peer_id (unat (of_nat (i + k) - of_nat d :: u64) mod k))) s)
               (sim_feed i (PeerSeen (peer_id ((i + d) mod k)))))
           (List.product [0..<k] [1..<fanout + 1]) s)"

subsection \<open>One message\<close>

text \<open>The outcomes of a fetch at node \<open>j\<close>, one draw for each want while misses are left to place.\<close>

fun fetch_outcomes :: "nat \<Rightarrow> triple list \<Rightarrow> sim \<Rightarrow> ((triple \<times> outcome) list \<times> sim) exec" where
  "fetch_outcomes j [] s = Done ([], s)"
| "fetch_outcomes j (c # ws) s = on_node j (\<lambda>n.
     let draw = splitmix (rng s);
         drawn = \<not> byzantine n \<and> 0 < spurious_budget s;
         s1 = (if drawn then s\<lparr>rng := snd draw\<rparr> else s);
         (o1, s2) =
           (if byzantine n then (Missed, s1)
            else if drawn \<and> fst draw mod 4 = 0 then (Missed, s1\<lparr>spurious_budget := spurious_budget s1 - 1\<rparr>)
            else if c |\<notin>| index n then (Missed, s1)
            else (Delivered, s1\<lparr>served := (served s1)[j := served s1 ! j + 1]\<rparr>))
     in bind_exec (fetch_outcomes j ws s2) (\<lambda>(os, s3). Done ((c, o1) # os, s3))) s"

definition bins :: "Bin list" where
  "bins = map (\<lambda>i. RADIUS + of_nat i) [0..<unat NBINS]"

fun sim_deliver :: "msg \<Rightarrow> sim \<Rightarrow> sim exec" where
  "sim_deliver (Req from (GetCursors p)) s = on_node (unat p) (\<lambda>n.
     Done (push [Resp from (CursorsResult p (map (\<lambda>b. (b, sim_head n b)) bins))] s)) s"
| "sim_deliver (Req from (Offer peer bin start)) s = on_node (unat peer) (\<lambda>n.
     if start \<le> sim_head n bin then Done (push [Resp from (offer_response (unat peer) bin start n)] s)
     else Done (set_node (unat peer) (n\<lparr>parked := parked n @ [(from, bin, start)]\<rparr>) s)) s"
| "sim_deliver (Req from (Fetch peer bin ws)) s =
     bind_exec (fetch_outcomes (unat peer) ws s) (\<lambda>(os, s1). Done (push [Resp from (FetchResult peer bin os)] s1))"
| "sim_deliver (Req from (Settled _ _ _)) s = Done s"
| "sim_deliver (Resp to ev) s =
     bind_exec (sim_feed to ev s)
       (sim_each (sim_store to) (case ev of
          FetchResult _ _ os \<Rightarrow> map fst (filter (\<lambda>(_, out). out = Delivered) os)
        | _ \<Rightarrow> []))"

definition swap_remove :: "nat \<Rightarrow> 'a list \<Rightarrow> 'a list" where
  "swap_remove i xs = (if i = length xs - 1 then butlast xs else (butlast xs)[i := last xs])"

definition pool :: "sim \<Rightarrow> nat list" where
  "pool s =
     (let all = [0..<length (queue s)]; early = filter (\<lambda>i. is_discovery (queue s ! i)) all
      in if concurrent_discovery s \<and> early \<noteq> [] then early else all)"

definition sim_step :: "sim \<Rightarrow> (bool \<times> sim) exec" where
  "sim_step s =
     (if queue s = [] then Done (False, s)
      else if \<not> steps s + 1 < 2000000 then Panic
      else (let (z, r) = splitmix (rng s);
                at = pool s ! unat (z mod of_nat (length (pool s)));
                s1 = s\<lparr>steps := steps s + 1, rng := r, queue := swap_remove at (queue s)\<rparr>
            in bind_exec (sim_deliver (queue s ! at) s1) (\<lambda>s2. Done (True, s2))))"

subsection \<open>The run\<close>

text \<open>The step counter only grows, and the assertion stops it: the loop of \<open>run\<close> ends, if only in a panic.\<close>

lemma steps_push [simp]: "steps (push ms s) = steps s" "steps (set_node i n s) = steps s"
  by (simp_all add: push_def set_node_def)

lemma steps_on_node: "on_node i f s = Done t \<Longrightarrow> (\<And>n t. f n = Done t \<Longrightarrow> Q t) \<Longrightarrow> Q t"
  by (auto simp: on_node_def split: if_splits)

lemma steps_feed: "sim_feed i ev s = Done t \<Longrightarrow> steps t = steps s"
  by (auto simp: sim_feed_def on_node_def bind_exec_eq_Done split: if_splits)

lemma steps_store: "sim_store i c s = Done t \<Longrightarrow> steps t = steps s"
  by (auto simp: sim_store_def on_node_def Let_def split: if_splits)

lemma steps_each: "sim_each f xs s = Done t \<Longrightarrow> (\<And>x s t. f x s = Done t \<Longrightarrow> steps t = steps s) \<Longrightarrow> steps t = steps s"
  by (induction xs arbitrary: s) (auto simp: bind_exec_eq_Done)

lemma steps_fetch_outcomes: "fetch_outcomes j ws s = Done (os, t) \<Longrightarrow> steps t = steps s"
proof (induction ws arbitrary: s os)
  case (Cons c ws)
  then show ?case
    by (auto simp: on_node_def bind_exec_eq_Done Let_def split: if_splits prod.splits)
qed simp

lemma steps_deliver: "sim_deliver m s = Done t \<Longrightarrow> steps t = steps s"
  by (induction m s rule: sim_deliver.induct)
     (auto simp: on_node_def bind_exec_eq_Done split: if_splits
       dest!: steps_feed steps_each [OF _ steps_store] steps_fetch_outcomes)

lemma steps_step: "sim_step s = Done (True, t) \<Longrightarrow> steps t = steps s + 1 \<and> steps s + 1 < 2000000"
  by (auto simp: sim_step_def Let_def bind_exec_eq_Done case_prod_beta split: if_splits dest!: steps_deliver)

definition steps_left :: "sim \<Rightarrow> nat" where
  "steps_left s = (if steps s = - 1 then 2000001 else 2000000 - unat (steps s))"

lemma steps_step_less: "sim_step s = Done (True, t) \<Longrightarrow> steps_left t < steps_left s"
proof -
  assume st: "sim_step s = Done (True, t)"
  from steps_step [OF st] have t: "steps t = steps s + 1" "unat (steps s + 1) < 2000000"
    by (auto simp: word_less_nat_alt)
  show ?thesis
  proof (cases "steps s = - 1")
    case True
    with t show ?thesis by (simp add: steps_left_def)
  next
    case False
    then have "unat (steps s + 1) = Suc (unat (steps s))"
      by (metis add.commute add_eq_0_iff add_0 unatSuc)
    moreover have "steps t \<noteq> - 1"
    proof
      assume "steps t = - 1"
      with t have "unat (- 1 :: u64) < 2000000" by metis
      then show False by (simp add: unsigned_minus_1_eq_mask mask_eq_exp_minus_1)
    qed
    ultimately show ?thesis using t False by (simp add: steps_left_def)
  qed
qed

function run :: "sim \<Rightarrow> sim exec" where
  "run s = (case sim_step s of Panic \<Rightarrow> Panic | Done (True, s1) \<Rightarrow> run s1 | Done (False, s1) \<Rightarrow> Done s1)"
  by pat_completeness auto
termination
  by (relation "measure steps_left") (simp_all add: steps_step_less)

declare run.simps [simp del]

subsection \<open>Measurements\<close>

definition sim_k :: "sim \<Rightarrow> nat" where
  "sim_k s = length (nodes s)"

definition node_has :: "nat \<Rightarrow> triple \<Rightarrow> sim \<Rightarrow> bool exec" where
  "node_has i c s = on_node i (\<lambda>n. Done (c |\<in>| index n)) s"

definition sim_deliveries :: "nat \<Rightarrow> sim \<Rightarrow> u64 exec" where
  "sim_deliveries i s = on_node i (\<lambda>n. Done (ucast (Node_deliveries (puller n)))) s"

definition sim_deficit :: "nat \<Rightarrow> sim \<Rightarrow> nat exec" where
  "sim_deficit i s = on_node i (\<lambda>n. Done (Node_deficit (puller n))) s"

definition sim_working_set :: "nat \<Rightarrow> sim \<Rightarrow> nat exec" where
  "sim_working_set i s = on_node i (\<lambda>n. Done (working_set (puller n))) s"

definition assert_invariants :: "sim \<Rightarrow> unit exec" where
  "assert_invariants s =
     (if list_all (\<lambda>n. \<not> Node_conflict (puller n) \<and> Node_check_invariants (puller n) = Inr ()) (nodes s)
      then Done () else Panic)"

definition assert_converged :: "triple list \<Rightarrow> sim \<Rightarrow> unit exec" where
  "assert_converged universe s =
     (if list_all (\<lambda>n. Node_deficit (puller n) = 0 \<and> list_all (\<lambda>c. c |\<in>| index n) universe) (nodes s)
      then assert_invariants s else Panic)"

text \<open>A run of two nodes, one chunk at the first.\<close>

definition sample_sim :: "sim exec" where
  "sample_sim = bind_exec (sim_seed 0 (mock 1) (Sim_new 2 [] 42)) sim_start"

lemma sample_run: "(case bind_exec sample_sim run of Panic \<Rightarrow> False | Done s \<Rightarrow> assert_converged [mock 1] s = Done ())"
  by code_simp

lemma sample_begin:
  "case sample_sim of Panic \<Rightarrow> False | Done s \<Rightarrow> sim_k s = 2 \<and> node_has 0 (mock 1) s = Done True"
  by code_simp

end
