(* ===== verification/Sim_Node.thy ===== *)
theory Sim_Node
  imports Sim Node_Live "HOL-Library.Multiset"
begin

section \<open>A puller among honest servers\<close>

text \<open>
  What one event does to a puller when the answers it gets are those of servers that keep what they offer:
  which obligations it takes on and pays off, and what its logs then say of the servers' reserves.
\<close>

declare split_paired_All [simp del] split_paired_Ex [simp del]

subsection \<open>Obligations\<close>

text \<open>
  What the node waits for: the cursors of a peer, the answer on a stream from the position after what
  its log has covered, the outcome of a lease.
\<close>

datatype duty = Cursors_of PeerId | Stream_of PeerId Bin BinId | Lease_of PeerId triple

definition covered :: "node \<Rightarrow> PeerId \<times> Bin \<Rightarrow> BinId" where
  "covered n k = topmost (get_or PeerBinLog_new (logs n) k)"

definition duties :: "node \<Rightarrow> duty set" where
  "duties n = {Cursors_of p |p. p |\<in>| peers n \<and> (\<forall>b. (p, b) |\<notin>| fmdom (logs n))}
     \<union> {Stream_of p b (covered n (p, b) + 1) |p b. (p, b) |\<in>| offer_open (disc n)}
     \<union> {Lease_of p c |p c. p |\<in>| claims (mach n) c}"

lemma duties_iff [simp]:
  "Cursors_of p \<in> duties n \<longleftrightarrow> p |\<in>| peers n \<and> (\<forall>b. (p, b) |\<notin>| fmdom (logs n))"
  "Stream_of p b x \<in> duties n \<longleftrightarrow> (p, b) |\<in>| offer_open (disc n) \<and> x = covered n (p, b) + 1"
  "Lease_of p c \<in> duties n \<longleftrightarrow> p |\<in>| claims (mach n) c"
  by (auto simp: duties_def)

lemma duty_set_eqI:
  assumes "\<And>p. Cursors_of p \<in> A \<longleftrightarrow> Cursors_of p \<in> B" "\<And>p b x. Stream_of p b x \<in> A \<longleftrightarrow> Stream_of p b x \<in> B"
    "\<And>p c. Lease_of p c \<in> A \<longleftrightarrow> Lease_of p c \<in> B"
  shows "A = B"
proof (rule set_eqI)
  show "x \<in> A \<longleftrightarrow> x \<in> B" for x using assms by (cases x) simp_all
qed

lemma finite_duties [simp]: "finite (duties n)"
proof -
  have "c |\<in>| fmdom (want (mach n))" if "p |\<in>| claims (mach n) c" for p c
    using that by (auto simp: get_or_def fmlookup_dom_iff split: option.splits)
  then have "{Lease_of p c |p c. p |\<in>| claims (mach n) c}
      \<subseteq> (\<lambda>(c, p). Lease_of p c) ` Sigma (fset (fmdom (want (mach n)))) (\<lambda>c. fset (claims (mach n) c))"
    by (force simp: image_iff)
  moreover have "{Stream_of p b (covered n (p, b) + 1) |p b. (p, b) |\<in>| offer_open (disc n)}
      = (\<lambda>(p, b). Stream_of p b (covered n (p, b) + 1)) ` fset (offer_open (disc n))"
    by (auto simp: image_iff)
  moreover have "{Cursors_of p |p. p |\<in>| peers n \<and> (\<forall>b. (p, b) |\<notin>| fmdom (logs n))} \<subseteq> Cursors_of ` fset (peers n)" by auto
  ultimately show ?thesis
    unfolding duties_def by (intro finite_UnI) (auto dest: finite_subset)
qed

fun asks :: "effect \<Rightarrow> duty list" where
  "asks (GetCursors p) = [Cursors_of p]"
| "asks (Offer p b x) = [Stream_of p b x]"
| "asks (Fetch p _ ws) = map (Lease_of p) ws"
| "asks (Settled _ _ _) = []"

fun pays :: "event \<Rightarrow> duty list" where
  "pays (CursorsResult p _) = [Cursors_of p]"
| "pays (OfferResult p b x _ _) = [Stream_of p b x]"
| "pays (FetchResult p _ os) = map (\<lambda>(c, _). Lease_of p c) os"
| "pays _ = []"

definition asked :: "effect list \<Rightarrow> duty list" where
  "asked fx = concat (map asks fx)"

lemma asked_simps [simp]: "asked [] = []" "asked (e # fx) = asks e @ asked fx" "asked (fx @ fx') = asked fx @ asked fx'"
  by (simp_all add: asked_def)

lemma mem_asked:
  "Cursors_of p \<in> set (asked fx) \<longleftrightarrow> GetCursors p \<in> set fx"
  "Stream_of p b x \<in> set (asked fx) \<longleftrightarrow> Offer p b x \<in> set fx"
  "Lease_of p c \<in> set (asked fx) \<longleftrightarrow> (\<exists>b ws. Fetch p b ws \<in> set fx \<and> c \<in> set ws)"
proof -
  have "Cursors_of p \<in> set (asks e) \<longleftrightarrow> e = GetCursors p" "Stream_of p b x \<in> set (asks e) \<longleftrightarrow> e = Offer p b x"
    "Lease_of p c \<in> set (asks e) \<longleftrightarrow> (\<exists>b ws. e = Fetch p b ws \<and> c \<in> set ws)" for e
    by (cases e; auto)+
  note one = this
  show "Cursors_of p \<in> set (asked fx) \<longleftrightarrow> GetCursors p \<in> set fx" "Stream_of p b x \<in> set (asked fx) \<longleftrightarrow> Offer p b x \<in> set fx"
    unfolding asked_def by (simp_all add: one)
  show "Lease_of p c \<in> set (asked fx) \<longleftrightarrow> (\<exists>b ws. Fetch p b ws \<in> set fx \<and> c \<in> set ws)"
    unfolding asked_def by (simp add: one) blast
qed

text \<open>The balance of an event: what the node owes after, and what it was paid, is what it owed and what it asks.\<close>

definition balanced :: "node \<Rightarrow> duty list \<Rightarrow> effect list \<Rightarrow> node \<Rightarrow> bool" where
  "balanced n paid fx n' \<longleftrightarrow> mset_set (duties n') + mset paid = mset_set (duties n) + mset (asked fx)"

lemma balancedI:
  assumes "duties n' = (duties n - set paid) \<union> set (asked fx)" and "set paid \<subseteq> duties n" and "distinct paid"
    and "distinct (asked fx)" and "set (asked fx) \<inter> (duties n - set paid) = {}"
  shows "balanced n paid fx n'"
proof -
  have "mset_set (duties n') = mset_set (duties n - set paid) + mset_set (set (asked fx))"
    unfolding assms(1) by (rule mset_set_Union) (use assms(5) in auto)
  moreover have "mset_set (duties n) = mset_set (duties n - set paid) + mset_set (set paid)"
    using assms(2) by (subst mset_set_Union [symmetric]) (auto simp: Un_absorb2)
  ultimately show ?thesis using assms(3,4) by (simp add: balanced_def mset_set_set)
qed

lemma balanced_trans: "balanced n paid [] s \<Longrightarrow> balanced s [] fx n' \<Longrightarrow> balanced n paid fx n'"
  by (simp add: balanced_def)

subsection \<open>The round\<close>

lemma covered_round:
  assumes "node_round n = Done (fx, n')"
  shows "covered n' k = covered n k"
  using round_frame [OF assms] by (cases "fmlookup (logs n) k") (simp_all add: covered_def get_or_def settled_log_def)

text \<open>A new offer starts right after what the log has covered.\<close>

lemma offer_starts_after_cover:
  assumes inv: "node_inv n" and e: "Offer p b x \<in> set (settle_fx n k)"
  shows "k = (p, b) \<and> has_tail n k \<and> k |\<notin>| offer_open (disc n) \<and> x = covered n k + 1"
proof -
  obtain l where lk: "fmlookup (logs n) k = Some l"
    using e by (cases "fmlookup (logs n) k") (simp_all add: settle_fx_def)
  have "Offer p b x \<notin> set (case fst (advance (finished n) l) of None \<Rightarrow> [] | Some u \<Rightarrow> [Settled (fst k) (snd k) u])"
    by (simp split: option.split)
  with e lk have l: "has_tail n k \<and> k |\<notin>| offer_open (disc n)" "fst k = p" "snd k = b" "x = next_start (settled_log n l)"
    by (auto simp: settle_fx_def split: if_splits)
  then have "topmost l < next_start (snd (advance (finished n) l))" using lk by (simp add: has_tail_def settled_log_def)
  with inv lk have "interval (settled_log n l) = topmost l"
    unfolding settled_log_def by (intro tail_past_cover) (auto simp: node_inv_def books_def)
  with l lk show ?thesis by (auto simp: covered_def next_start_def prod_eq_iff)
qed

lemma settle_offer: "has_tail n k \<Longrightarrow> k |\<notin>| offer_open (disc n) \<Longrightarrow> \<exists>x. Offer (fst k) (snd k) x \<in> set (settle_fx n k)"
  by (auto simp: has_tail_def settle_fx_def split: option.splits)

lemma Offer_settle:
  assumes "node_inv n"
  shows "Offer p b x \<in> set (settle_effects n) \<longleftrightarrow>
    has_tail n (p, b) \<and> (p, b) |\<notin>| offer_open (disc n) \<and> x = covered n (p, b) + 1"
proof
  assume "Offer p b x \<in> set (settle_effects n)"
  then obtain k where "Offer p b x \<in> set (settle_fx n k)" by (auto simp: mem_settle_effects)
  from offer_starts_after_cover [OF assms this]
  show "has_tail n (p, b) \<and> (p, b) |\<notin>| offer_open (disc n) \<and> x = covered n (p, b) + 1" by blast
next
  assume h: "has_tail n (p, b) \<and> (p, b) |\<notin>| offer_open (disc n) \<and> x = covered n (p, b) + 1"
  then obtain y where y: "Offer p b y \<in> set (settle_fx n (p, b))" using settle_offer [of n "(p, b)"] by auto
  from offer_starts_after_cover [OF assms y] h have "y = x" by simp
  with y h show "Offer p b x \<in> set (settle_effects n)"
    by (auto simp: mem_settle_effects has_tail_def fmlookup_dom_iff split: option.splits)
qed

lemma settle_asks_offers [simp]: "GetCursors p \<notin> set (settle_effects n)" "Fetch p b ws \<notin> set (settle_effects n)"
  by (auto simp: mem_settle_effects settle_fx_def split: option.splits if_splits)

lemma distinct_asked_settle: "distinct (asked (settle_effects n))"
proof -
  have one: "asked (settle_fx n k) = [] \<or> (\<exists>x. asked (settle_fx n k) = [Stream_of (fst k) (snd k) x])" for k
    by (auto simp: settle_fx_def split: option.splits)
  have "distinct (asked (concat (map (settle_fx n) ks)))" if "distinct ks" for ks
    using that
  proof (induction ks)
    case (Cons k ks)
    have "Stream_of (fst k) (snd k) x \<notin> set (asked (concat (map (settle_fx n) ks)))" for x
    proof
      assume "Stream_of (fst k) (snd k) x \<in> set (asked (concat (map (settle_fx n) ks)))"
      then obtain k' where k': "k' \<in> set ks" "Stream_of (fst k) (snd k) x \<in> set (asked (settle_fx n k'))"
        by (auto simp: mem_asked)
      with one [of k'] have "k = k'" by (auto simp: prod_eq_iff)
      with k'(1) Cons.prems show False by simp
    qed
    with one [of k] Cons show ?case by auto
  qed simp
  then show ?thesis by (simp add: settle_effects_def)
qed

lemma Lease_fetches: "Lease_of p c \<in> set (asked (fetches bs)) \<longleftrightarrow> (\<exists>b. c \<in> set (batch bs p b))"
proof -
  have "(\<exists>ws. fmlookup bs (p, b) = Some ws \<and> c \<in> set ws) \<longleftrightarrow> c \<in> set (batch bs p b)" for b
    by (cases "fmlookup bs (p, b)") (simp_all add: get_or_def)
  then show ?thesis unfolding mem_asked mem_fetches by blast
qed

lemma distinct_asked_fetches:
  assumes d: "\<And>p b. distinct (batch bs p b)" and one: "\<And>p b b' c. c \<in> set (batch bs p b) \<Longrightarrow> c \<in> set (batch bs p b') \<Longrightarrow> b = b'"
  shows "distinct (asked (fetches bs))"
proof -
  have "distinct (asked (map (\<lambda>((p, b), ws). Fetch p b ws) xs))"
    if "distinct (map fst xs)" "\<forall>(k, ws) \<in> set xs. fmlookup bs k = Some ws" for xs
    using that
  proof (induction xs)
    case (Cons x xs)
    obtain p b ws where x: "x = ((p, b), ws)" by (metis prod.exhaust)
    have ws: "batch bs p b = ws" using Cons.prems(2) x by simp
    have "Lease_of p c \<notin> set (asked (map (\<lambda>((p, b), ws). Fetch p b ws) xs))" if c: "c \<in> set ws" for c
    proof
      assume "Lease_of p c \<in> set (asked (map (\<lambda>((p, b), ws). Fetch p b ws) xs))"
      then obtain b' ws' where y: "((p, b'), ws') \<in> set xs" "c \<in> set ws'" by (auto simp: mem_asked)
      with Cons.prems(2) have "batch bs p b' = ws'" by auto
      with one [of c p b b'] c y ws have "b' = b" by simp
      with y(1) Cons.prems(1) x show False by force
    qed
    then show ?case using Cons d [of p b] ws by (auto simp: x distinct_map inj_on_def)
  qed simp
  moreover have "map fst (sorted_list_of_fmap bs) = sorted_list_of_fset (fmdom bs)"
    by (simp add: sorted_list_of_fmap_def comp_def)
  then have "distinct (map fst (sorted_list_of_fmap bs))" by simp
  moreover have "\<forall>(k, ws) \<in> set (sorted_list_of_fmap bs). fmlookup bs k = Some ws" by auto
  ultimately have "distinct (asked (map (\<lambda>((p, b), ws). Fetch p b ws) (sorted_list_of_fmap bs)))" by blast
  then show ?thesis unfolding fetches_def by this
qed

lemma round_open:
  assumes "node_round n = Done (fx, n')"
  shows "k |\<in>| offer_open (disc n') \<longleftrightarrow> k |\<in>| offer_open (disc n) \<or> has_tail n k"
proof -
  obtain com bs where s: "sched_inv (before_schedule n) com bs n'" using round_effects [OF assms] by blast
  have "disc n' = disc (settled_node n)"
    using sched_inv_frame [OF s] before_schedule_eq [of n] by auto
  then show ?thesis by (auto simp: settled_node_def has_tail_def fmlookup_dom_iff split: option.splits)
qed

lemma round_balanced:
  assumes inv: "node_inv n" and r: "node_round n = Done (fx, n')"
  shows "balanced n [] fx n'"
proof -
  obtain com bs where fx: "fx = settle_effects n @ fetches bs" and s: "sched_inv (before_schedule n) com bs n'"
    using round_effects [OF r] by blast
  have frame: "logs n' = fmmap (settled_log n) (logs n)" "peers n' = peers n" using round_frame [OF r] by simp_all
  have want_same: "claims (mach (before_schedule n)) c = claims (mach n) c" for c
    using before_schedule_eq [of n] by auto
  have leases: "p |\<in>| claims (mach n') c \<longleftrightarrow> p |\<in>| claims (mach n) c \<or> Lease_of p c \<in> set (asked (fetches bs))"
    and fresh: "Lease_of p c \<in> set (asked (fetches bs)) \<Longrightarrow> p |\<notin>| claims (mach n) c" for p c
    using s want_same unfolding Lease_fetches sched_inv_def by (auto simp: bin_at_def)
  have only: "Lease_of p c \<notin> set (asked (settle_effects n))" "Stream_of p b x \<notin> set (asked (fetches bs))"
    "Cursors_of p \<notin> set (asked (settle_effects n))" "Cursors_of p \<notin> set (asked (fetches bs))" for p c b x
    by (simp_all add: mem_asked mem_fetches)
  have stream: "Stream_of p b x \<in> set (asked (settle_effects n)) \<longleftrightarrow>
      has_tail n (p, b) \<and> (p, b) |\<notin>| offer_open (disc n) \<and> x = covered n (p, b) + 1" for p b x
    using Offer_settle [OF inv] by (simp add: mem_asked)
  show ?thesis
  proof (rule balancedI)
    show "duties n' = (duties n - set []) \<union> set (asked fx)"
      by (rule duty_set_eqI) (auto simp: fx only leases stream frame round_open [OF r] covered_round [OF r])
    have "distinct (asked (fetches bs))"
    proof (rule distinct_asked_fetches)
      show "distinct (batch bs p b)" for p b using sched_inv_batch [OF s] by blast
      show "b = b'" if "c \<in> set (batch bs p b)" "c \<in> set (batch bs p b')" for p b b' c
        using sched_inv_leased [OF s that(1)] sched_inv_leased [OF s that(2)] by simp
    qed
    moreover have "set (asked (settle_effects n)) \<inter> set (asked (fetches bs)) = {}"
      by (rule duty_set_eqI) (simp_all add: only)
    ultimately show "distinct (asked fx)" using distinct_asked_settle [of n] by (simp add: fx)
    show "set (asked fx) \<inter> (duties n - set []) = {}"
      by (rule duty_set_eqI) (auto simp: fx only stream dest: fresh)
  qed simp_all
qed

subsection \<open>Following the reserves\<close>

text \<open>The reserves of the servers: for each peer and bin, the chunk at each position.\<close>

type_synonym shelves = "PeerId \<Rightarrow> Bin \<Rightarrow> (BinId, triple) fmap"

definition shelved :: "shelves \<Rightarrow> PeerId \<Rightarrow> triple \<Rightarrow> bool" where
  "shelved R p c \<longleftrightarrow> (\<exists>b x. fmlookup (R p b) x = Some c)"

text \<open>
  A log tracks a reserve: it has covered up to a position of it, its entries are entries of the reserve
  that are stored or open, and what it covers is an entry or stored.
\<close>

definition tracks :: "(BinId, triple) fmap \<Rightarrow> node \<Rightarrow> peer_bin_log \<Rightarrow> bool" where
  "tracks m n l \<longleftrightarrow> (topmost l = 0 \<or> topmost l |\<in>| fmdom m) \<and> topmost l \<noteq> - 1
     \<and> (\<forall>x c. fmlookup (entries l) x = Some c \<longrightarrow> fmlookup m x = Some c \<and> (c |\<in>| got (mach n) \<or> c |\<in>| arrived (mach n)))
     \<and> (\<forall>x c. fmlookup m x = Some c \<longrightarrow> x \<le> topmost l \<longrightarrow> fmlookup (entries l) x = Some c \<or> c |\<in>| got (mach n))"

definition logs_ok :: "shelves \<Rightarrow> node \<Rightarrow> bool" where
  "logs_ok R n \<longleftrightarrow> (\<forall>k l. fmlookup (logs n) k = Some l \<longrightarrow>
     fst k |\<in>| peers n \<and> snd k \<in> set bins \<and> tracks (R (fst k) (snd k)) n l)"

definition mach_ok :: "shelves \<Rightarrow> node \<Rightarrow> bool" where
  "mach_ok R n \<longleftrightarrow> cfg (mach n) = PRODUCTION \<and> 0 < window (policy n) \<and> radius n = RADIUS \<and> rejected (mach n) = {||}
     \<and> (\<forall>c p. p |\<in>| holds (mach n) c \<longrightarrow> p |\<in>| peers n \<and> shelved R p c)
     \<and> (\<forall>c. c |\<in>| arrived (mach n) \<longrightarrow> c |\<notin>| got (mach n) \<longrightarrow> holds (mach n) c \<noteq> {||})"

definition open_ok :: "node \<Rightarrow> bool" where
  "open_ok n \<longleftrightarrow> (\<forall>k. k |\<in>| offer_open (disc n) \<longrightarrow> (\<exists>l. fmlookup (logs n) k = Some l \<and> interval l = topmost l))
     \<and> (\<forall>p. (\<forall>b \<in> set bins. (p, b) |\<in>| fmdom (logs n)) \<or> (\<forall>b. (p, b) |\<notin>| fmdom (logs n)))"

definition follows :: "shelves \<Rightarrow> node \<Rightarrow> bool" where
  "follows R n \<longleftrightarrow> node_inv n \<and> mach_ok R n \<and> logs_ok R n \<and> open_ok n"

text \<open>
  Between events moreover nothing is left undone: a log that has settled what it covers has its offer
  open, any other waits for an entry that is not stored, and while an open id is not stored some lease
  is in flight.
\<close>

definition rested :: "node \<Rightarrow> bool" where
  "rested n \<longleftrightarrow> (\<forall>k l. fmlookup (logs n) k = Some l \<longrightarrow>
       (if interval l = topmost l then k |\<in>| offer_open (disc n)
        else \<exists>x c. fmlookup (entries l) x = Some c \<and> c |\<notin>| got (mach n)))
     \<and> (\<forall>c. c |\<in>| arrived (mach n) \<longrightarrow> c |\<notin>| got (mach n) \<longrightarrow> (\<exists>d p. p |\<in>| claims (mach n) d))"

lemma followsD:
  assumes "follows R n"
  shows "node_inv n" "mach_ok R n" "logs_ok R n" "open_ok n"
  using assms by (simp_all add: follows_def)

lemma mach_okD:
  assumes "mach_ok R n"
  shows "cfg (mach n) = PRODUCTION" "0 < window (policy n)" "radius n = RADIUS" "rejected (mach n) = {||}"
    "p |\<in>| holds (mach n) c \<Longrightarrow> p |\<in>| peers n \<and> shelved R p c"
    "c |\<in>| arrived (mach n) \<Longrightarrow> c |\<notin>| got (mach n) \<Longrightarrow> holds (mach n) c \<noteq> {||}"
  using assms by (auto simp: mach_ok_def)

lemma logs_okD:
  assumes "logs_ok R n" and "fmlookup (logs n) k = Some l"
  shows "fst k |\<in>| peers n" "snd k \<in> set bins" "tracks (R (fst k) (snd k)) n l"
  using assms by (auto simp: logs_ok_def)

lemma log_inv_at: "node_inv n \<Longrightarrow> fmlookup (logs n) k = Some l \<Longrightarrow> log_inv l"
  by (auto simp: node_inv_def books_def)

lemma finished_got: "mach_ok R n \<Longrightarrow> finished n c \<longleftrightarrow> c |\<in>| got (mach n)"
  by (simp add: mach_ok_def has_def is_rejected_def)

subsection \<open>A round follows and rests\<close>

lemma round_unfinished:
  assumes r: "node_round n = Done (fx, n')" and rej: "rejected (mach n) = {||}"
  shows "arrived (mach n') |\<subseteq>| arrived (mach n)"
    and "c |\<notin>| got (mach n) \<Longrightarrow> (c |\<in>| arrived (mach n') \<longleftrightarrow> c |\<in>| arrived (mach n)) \<and> holds (mach n') c = holds (mach n) c"
proof -
  obtain com bs where s: "sched_inv (before_schedule n) com bs n'" using round_effects [OF r] by blast
  let ?p = "prune (settled_node n)"
  obtain ex where "reset_pass ?p = ?p\<lparr>mach := (mach ?p)\<lparr>excluded := ex\<rparr>\<rparr>" using reset_pass_spec by blast
  with sched_inv_frame [OF s] have eq: "arrived (mach n') = arrived (mach ?p)" "holders (mach n') = holders (mach ?p)"
    by (auto simp: before_schedule_def)
  have m: "mach (settled_node n) = mach n" by (simp add: settled_node_def)
  show "arrived (mach n') |\<subseteq>| arrived (mach n)" unfolding eq by (auto simp: prune_eq forgotten_def m)
  assume "c |\<notin>| got (mach n)"
  then have "c \<notin> set (pruned (settled_node n))" using rej by (simp add: set_pruned has_def is_rejected_def m)
  then show "(c |\<in>| arrived (mach n') \<longleftrightarrow> c |\<in>| arrived (mach n)) \<and> holds (mach n') c = holds (mach n) c"
    unfolding eq by (simp add: prune_eq forgotten_def m fset_of_list_elem get_or_def)
qed

lemma round_mach_ok:
  assumes ok: "mach_ok R n" and r: "node_round n = Done (fx, n')"
  shows "mach_ok R n'"
proof -
  note frame = round_frame [OF r]
  have rad: "radius n' = radius n"
  proof -
    obtain com bs where s: "sched_inv (before_schedule n) com bs n'" using round_effects [OF r] by blast
    then show ?thesis using sched_inv_frame [OF s] before_schedule_eq [of n] by (auto simp: settled_node_def)
  qed
  have "holds (mach n') c \<noteq> {||}" if "c |\<in>| arrived (mach n')" "c |\<notin>| got (mach n')" for c
    using round_unfinished [OF r mach_okD(4) [OF ok]] that frame mach_okD(6) [OF ok] by metis
  with ok frame rad show ?thesis by (auto simp: mach_ok_def dest!: fsubsetD)
qed

lemma round_tracks:
  assumes inv: "log_inv l" and t: "tracks m n l" and ok: "mach_ok R n" and r: "node_round n = Done (fx, n')"
  shows "tracks m n' (settled_log n l)"
proof -
  note frame = round_frame [OF r]
  have e: "fmlookup (entries (settled_log n l)) x = (if x \<le> interval (settled_log n l) then None else fmlookup (entries l) x)" for x
    using inv unfolding settled_log_def by (rule entries_advance_above)
  have passed: "c |\<in>| got (mach n)" if "fmlookup (entries l) x = Some c" "x \<le> interval (settled_log n l)" for x c
    using pb_log.passed_settled [OF inv that(1), of "finished n"] that(2) finished_got [OF ok] by (simp add: settled_log_def)
  have keep: "c |\<in>| got (mach n') \<or> c |\<in>| arrived (mach n')" if "c |\<in>| got (mach n) \<or> c |\<in>| arrived (mach n)" for c
    using that round_unfinished(2) [OF r mach_okD(4) [OF ok], of c] frame by auto
  have "topmost (settled_log n l) = topmost l" by (simp add: settled_log_def)
  then show ?thesis
    using t keep passed frame unfolding tracks_def e by (metis option.discI)
qed

lemma round_logs_ok:
  assumes f: "follows R n" and r: "node_round n = Done (fx, n')"
  shows "logs_ok R n'"
  unfolding logs_ok_def
proof (intro allI impI)
  note frame = round_frame [OF r]
  fix k l' assume "fmlookup (logs n') k = Some l'"
  then obtain l where l: "fmlookup (logs n) k = Some l" "l' = settled_log n l" using frame by auto
  note ok = logs_okD [OF followsD(3) [OF f] l(1)]
  show "fst k |\<in>| peers n' \<and> snd k \<in> set bins \<and> tracks (R (fst k) (snd k)) n' l'"
    using ok frame round_tracks [OF log_inv_at [OF followsD(1) [OF f] l(1)] ok(3) followsD(2) [OF f] r] l(2) by simp
qed

lemma word_less_succ: "(x :: 'a::len word) \<noteq> - 1 \<Longrightarrow> x < x + 1"
  using unatSuc [of x] by (simp add: word_less_nat_alt add.commute eq_neg_iff_add_eq_0)

text \<open>What a log does in the round of a follower: it has an open offer after it exactly if it has settled all it covers.\<close>

lemma round_log_open:
  assumes f: "follows R n" and r: "node_round n = Done (fx, n')" and l: "fmlookup (logs n) k = Some l"
  shows "k |\<in>| offer_open (disc n') \<longleftrightarrow> interval (settled_log n l) = topmost l"
proof -
  have inv: "log_inv l" using log_inv_at [OF followsD(1) [OF f] l] .
  note ok = logs_okD [OF followsD(3) [OF f] l]
  have "topmost l \<noteq> - 1" using ok(3) by (simp add: tracks_def)
  then have grow: "topmost l < topmost l + 1" by (rule word_less_succ)
  have tail: "has_tail n k \<longleftrightarrow> interval (settled_log n l) = topmost l"
  proof
    assume "has_tail n k"
    then show "interval (settled_log n l) = topmost l"
      using l tail_past_cover [OF inv, of "finished n"] by (simp add: has_tail_def settled_log_def)
  qed (use l ok(1) grow in \<open>simp add: has_tail_def next_start_def\<close>)
  have "interval (settled_log n l) = topmost l" if "k |\<in>| offer_open (disc n)"
  proof (rule antisym)
    show "interval (settled_log n l) \<le> topmost l" using inv unfolding settled_log_def by (rule interval_advance_le)
    have "interval l = topmost l" using that l followsD(4) [OF f] by (auto simp: open_ok_def)
    then show "topmost l \<le> interval (settled_log n l)"
      using interval_advance_mono [of l "finished n"] by (simp add: settled_log_def)
  qed
  with tail show ?thesis by (auto simp: round_open [OF r])
qed

lemma round_follows:
  assumes f: "follows R n" and r: "node_round n = Done (fx, n')"
  shows "follows R n' \<and> rested n'"
proof
  note frame = round_frame [OF r]
  note ok = followsD [OF f]
  have inv': "node_inv n'" using ok(1) r by (rule node_inv_round)
  have log': "\<exists>l. fmlookup (logs n) k = Some l \<and> l' = settled_log n l" if "fmlookup (logs n') k = Some l'" for k l'
    using that frame by auto
  have "open_ok n'"
    unfolding open_ok_def
  proof (intro conjI allI impI)
    fix k assume k: "k |\<in>| offer_open (disc n')"
    then have "k |\<in>| fmdom (logs n)"
      using ok(4) by (auto simp: round_open [OF r] open_ok_def has_tail_def fmlookup_dom_iff split: option.splits)
    then obtain l where l: "fmlookup (logs n) k = Some l" by (auto simp: fmlookup_dom_iff)
    with k show "\<exists>l. fmlookup (logs n') k = Some l \<and> interval l = topmost l"
      using round_log_open [OF f r l] frame by (auto simp: settled_log_def)
  next
    have "fmdom (logs n') = fmdom (logs n)" using frame by simp
    then show "(\<forall>b \<in> set bins. (p, b) |\<in>| fmdom (logs n')) \<or> (\<forall>b. (p, b) |\<notin>| fmdom (logs n'))" for p
      using ok(4) by (simp add: open_ok_def)
  qed
  with inv' show "follows R n'" using round_mach_ok [OF ok(2) r] round_logs_ok [OF f r] by (simp add: follows_def)
  show "rested n'"
    unfolding rested_def
  proof (intro conjI allI impI)
    fix k l' assume l': "fmlookup (logs n') k = Some l'"
    then obtain l where l: "fmlookup (logs n) k = Some l" "l' = settled_log n l" using log' by blast
    have inv: "log_inv l" using log_inv_at [OF ok(1) l(1)] .
    have top: "topmost l' = topmost l" by (simp add: l(2) settled_log_def)
    show "if interval l' = topmost l' then k |\<in>| offer_open (disc n')
        else \<exists>x c. fmlookup (entries l') x = Some c \<and> c |\<notin>| got (mach n')"
    proof (cases "interval l' = topmost l'")
      case True
      then show ?thesis using round_log_open [OF f r l(1)] l(2) top by simp
    next
      case False
      then have "first_entry (entries l') \<noteq> None"
        using interval_advance [OF inv, of "finished n"] top by (auto simp: l(2) settled_log_def)
      then obtain x c where fe: "first_entry (entries l') = Some (x, c)" by (metis not_None_eq prod.exhaust)
      then have "\<not> finished n c" using first_left(2) [OF inv, of "finished n" x c] by (simp add: l(2) settled_log_def)
      with fe False show ?thesis
        using first_entry_SomeD(1) [OF fe] finished_got [OF ok(2)] frame by auto
    qed
  next
    fix c assume c: "c |\<in>| arrived (mach n')" "c |\<notin>| got (mach n')"
    have "holds (mach n') c \<noteq> {||}" using mach_okD(6) [OF round_mach_ok [OF ok(2) r] c] .
    then show "\<exists>d p. p |\<in>| claims (mach n') d"
      using round_leases [OF ok(1) r mach_okD(1,2) [OF ok(2)] c(1)] c(2) by (simp add: Node_has_def has_def)
  qed
qed

end
