(* ===== verification/Sim_Events.thy ===== *)
theory Sim_Events
  imports Sim_Node
begin

section \<open>The events of an honest network at a puller\<close>

text \<open>
  Each event of a run keeps a puller a follower of the reserves at rest, and its obligations in
  balance; so do the growth of the reserves and the preload of a fresh chunk.
\<close>

declare split_paired_All [simp del] split_paired_Ex [simp del]

definition calm :: "shelves \<Rightarrow> node \<Rightarrow> bool" where
  "calm R n \<longleftrightarrow> follows R n \<and> rested n"

lemma bins_eq: "bins = [1, 2]"
  by (simp add: bins_def RADIUS_def NBINS_def upt_conv_Cons)

text \<open>Positions are counted from one and stay below the largest number.\<close>

definition shelves_ok :: "shelves \<Rightarrow> bool" where
  "shelves_ok R \<longleftrightarrow> (\<forall>p b. 0 |\<notin>| fmdom (R p b) \<and> - 1 |\<notin>| fmdom (R p b))"

lemma tracks_mono:
  assumes "tracks m n l" and "got (mach n) |\<subseteq>| got (mach s)" and "arrived (mach n) |\<subseteq>| arrived (mach s)"
  shows "tracks m s l"
  using assms unfolding tracks_def by (meson fsubsetD)

lemma logs_ok_mono:
  assumes "logs_ok R n" and "logs s = logs n" and "peers n |\<subseteq>| peers s"
    and "got (mach n) |\<subseteq>| got (mach s)" and "arrived (mach n) |\<subseteq>| arrived (mach s)"
  shows "logs_ok R s"
  unfolding logs_ok_def assms(2)
proof (intro allI impI)
  fix k l assume "fmlookup (logs n) k = Some l"
  from logs_okD [OF assms(1) this] tracks_mono [OF _ assms(4,5)] assms(3)
  show "fst k |\<in>| peers s \<and> snd k \<in> set bins \<and> tracks (R (fst k) (snd k)) s l" by auto
qed

lemma mach_ok_mono:
  assumes ok: "mach_ok R n" and same: "cfg (mach s) = cfg (mach n)" "policy s = policy n" "radius s = radius n"
      "rejected (mach s) = rejected (mach n)" "holders (mach s) = holders (mach n)"
    and more: "peers n |\<subseteq>| peers s" "got (mach n) |\<subseteq>| got (mach s)" "arrived (mach s) |\<subseteq>| arrived (mach n)"
  shows "mach_ok R s"
proof -
  have "p |\<in>| peers s \<and> shelved R p c" if "p |\<in>| holds (mach s) c" for c p
    using mach_okD(5) [OF ok, of p c] that more(1) same(5) by (auto dest: fsubsetD)
  moreover have "holds (mach s) c \<noteq> {||}" if "c |\<in>| arrived (mach s)" "c |\<notin>| got (mach s)" for c
    using mach_okD(6) [OF ok, of c] that more(2,3) same(5) by (auto dest: fsubsetD)
  ultimately show ?thesis using mach_okD(1-4) [OF ok] same unfolding mach_ok_def by metis
qed

lemma calm_start:
  assumes "0 < window pol"
  shows "calm R (with_policy PRODUCTION RADIUS pol)"
proof -
  have "node_inv (with_policy PRODUCTION RADIUS pol)" by (rule fresh_node_inv)
  then show ?thesis
    using assms by (simp add: calm_def follows_def mach_ok_def logs_ok_def open_ok_def rested_def with_policy_def
        PullState_new_def Discovery_new_def)
qed

subsection \<open>A peer is seen\<close>

lemma seen_calm:
  assumes c: "calm R n" and h: "handle (PeerSeen p) n = Done (fx, n')"
  shows "calm R n' \<and> balanced n [] fx n' \<and> peers n' = finsert p (peers n) \<and> got (mach n') = got (mach n)"
proof (cases "p |\<in>| peers n")
  case True
  with h have "n' = n" "fx = []" by (simp_all add: peer_seen_def)
  with c True show ?thesis by (simp add: balanced_def finsert_absorb)
next
  case False
  with h have n': "n' = n\<lparr>peers := finsert p (peers n)\<rparr>" and fx: "fx = [GetCursors p]" by (auto simp: peer_seen_def)
  have f: "follows R n" using c by (simp add: calm_def)
  have "node_inv n'" using followsD(1) [OF f] h by (rule node_inv_handle)
  moreover have "logs_ok R n'" by (rule logs_ok_mono [OF followsD(3) [OF f]]) (auto simp: n')
  moreover have "mach_ok R n'" by (rule mach_ok_mono [OF followsD(2) [OF f]]) (auto simp: n')
  moreover have "open_ok n'" using followsD(4) [OF f] unfolding n' open_ok_def by simp
  moreover have "rested n'" using c unfolding calm_def n' rested_def by simp
  ultimately have "calm R n'" by (simp add: calm_def follows_def)
  moreover have new: "(p, b) |\<notin>| fmdom (logs n)" for b
    using False logs_okD(1) [OF followsD(3) [OF f], of "(p, b)"]
    by (cases "fmlookup (logs n) (p, b)") auto
  have "balanced n [] fx n'"
  proof (rule balancedI)
    show "duties n' = (duties n - set []) \<union> set (asked fx)"
      by (rule duty_set_eqI) (auto simp: n' fx covered_def new)
    show "set (asked fx) \<inter> (duties n - set []) = {}" using False by (simp add: fx)
  qed (simp_all add: fx)
  ultimately show ?thesis by (simp add: n')
qed

subsection \<open>Cursors arrive\<close>

lemma cursors_calm:
  assumes R: "shelves_ok R" and c: "calm R n" and due: "Cursors_of p \<in> duties n" and cs: "map fst cs = bins"
    and h: "handle (CursorsResult p cs) n = Done (fx, n')"
  shows "calm R n' \<and> balanced n [Cursors_of p] fx n' \<and> peers n' = peers n \<and> got (mach n') = got (mach n)"
proof -
  have f: "follows R n" using c by (simp add: calm_def)
  note ok = followsD [OF f]
  obtain h1 h2 where cs: "cs = [(1, h1), (2, h2)]"
    using cs by (auto simp: bins_eq map_eq_Cons_conv)
  have p: "p |\<in>| peers n" and new: "(p, b) |\<notin>| fmdom (logs n)" "fmlookup (logs n) (p, b) = None" for b
    using due by (auto simp: fmdom_notI fmlookup_dom_iff)
  have closed: "(p, b) |\<notin>| offer_open (disc n)" for b
    using ok(4) new(2) by (auto simp: open_ok_def)
  have rad: "radius n = 1" using mach_okD(3) [OF ok(2)] by (simp add: RADIUS_def)
  let ?L = "fmupd (p, 2) PeerBinLog_new (fmupd (p, 1) PeerBinLog_new (logs n))"
  let ?D = "finsert (p, 2) (finsert (p, 1) (offer_open (disc n)))"
  have n': "n' = n\<lparr>cursors := fmupd (p, 2) h2 (fmupd (p, 1) h1 (cursors n)), logs := ?L, disc := (disc n)\<lparr>offer_open := ?D\<rparr>\<rparr>"
    and fx: "fx = [Offer p 1 1, Offer p 2 1]"
    using h rad closed new
    by (auto simp: cs take_cursor_def try_open_def next_start_def get_or_def PeerBinLog_new_def Let_def)
  have inv': "node_inv n'" using ok(1) h by (rule node_inv_handle)
  have mach': "mach_ok R n'" by (rule mach_ok_mono [OF ok(2)]) (simp_all add: n')
  have "fmlookup (R p b) 0 = None" for b using R by (simp add: shelves_ok_def fmdom_notD)
  then have "tracks (R p b) n' PeerBinLog_new" for b
    by (auto simp: tracks_def PeerBinLog_new_def)
  moreover have "tracks (R (fst k) (snd k)) n' l" if "fmlookup (logs n) k = Some l" for k l
    by (rule tracks_mono [OF logs_okD(3) [OF ok(3) that]]) (simp_all add: n')
  ultimately have log: "fst k |\<in>| peers n' \<and> snd k \<in> set bins \<and> tracks (R (fst k) (snd k)) n' l"
    if "fmlookup (logs n') k = Some l" for k l
    using that p logs_okD(1,2) [OF ok(3)] by (auto simp: n' bins_eq split: if_splits)
  then have "logs_ok R n'" unfolding logs_ok_def by blast
  moreover have "open_ok n'"
    using ok(4) by (auto simp: open_ok_def n' bins_eq PeerBinLog_new_def)
  moreover have "rested n'" using c by (auto simp: calm_def rested_def n' PeerBinLog_new_def split: if_splits)
  moreover have "balanced n [Cursors_of p] fx n'"
  proof (rule balancedI)
    show "duties n' = (duties n - set [Cursors_of p]) \<union> set (asked fx)"
      by (rule duty_set_eqI) (auto simp: n' fx covered_def closed PeerBinLog_new_def)
    show "set (asked fx) \<inter> (duties n - set [Cursors_of p]) = {}" by (simp add: fx closed)
    show "set [Cursors_of p] \<subseteq> duties n" using p new by simp
  qed (simp_all add: fx)
  ultimately show ?thesis using inv' mach' by (simp add: calm_def follows_def) (simp add: n')
qed

subsection \<open>A fetch is answered\<close>

definition delivered :: "(triple \<times> outcome) list \<Rightarrow> triple list" where
  "delivered os = map fst (filter (\<lambda>(_, out). out = Delivered) os)"

lemma outcomes_effect:
  assumes "distinct (map fst os)" and "\<forall>c \<in> fst ` set os. p |\<in>| claims m c" and "Rejected \<notin> snd ` set os"
    and "failover (cfg m)"
  shows "let m' = fold (apply_outcome p) os m in
    (\<forall>c. claims m' c = (if c \<in> fst ` set os then claims m c |-| {|p|} else claims m c))
    \<and> got m' = got m |\<union>| fset_of_list (delivered os) \<and> rejected m' = rejected m \<and> arrived m' = arrived m
    \<and> holders m' = holders m \<and> cfg m' = cfg m"
  using assms
proof (induction os arbitrary: m)
  case (Cons e os)
  obtain c o1 where e: "e = (c, o1)" by (cases e)
  let ?m = "apply_outcome p e m"
  have one: "(\<forall>d. claims ?m d = (if d = c then claims m c |-| {|p|} else claims m d))
    \<and> got ?m = (if o1 = Delivered then finsert c (got m) else got m) \<and> rejected ?m = rejected m
    \<and> arrived ?m = arrived m \<and> holders ?m = holders m \<and> cfg ?m = cfg m"
    using Cons.prems e by (cases o1) (auto simp: deliver_def stall_def Let_def)
  have "distinct (map fst os)" "\<forall>d \<in> fst ` set os. p |\<in>| claims ?m d" "Rejected \<notin> snd ` set os" "failover (cfg ?m)"
    using Cons.prems one e by auto
  from Cons.IH [OF this] one e show ?case by (auto simp: Let_def delivered_def)
qed (simp add: delivered_def)

lemma fetched_calm:
  assumes c: "calm R n" and due: "set (pays (FetchResult p b os)) \<subseteq> duties n" and d: "distinct (map fst os)"
    and rej: "Rejected \<notin> snd ` set os" and h: "handle (FetchResult p b os) n = Done (fx, n')"
  shows "calm R n' \<and> balanced n (pays (FetchResult p b os)) fx n' \<and> peers n' = peers n
    \<and> got (mach n') = got (mach n) |\<union>| fset_of_list (delivered os)"
proof -
  have f: "follows R n" using c by (simp add: calm_def)
  note ok = followsD [OF f]
  define s where "s = n\<lparr>mach := fold (apply_outcome p) os (mach n)\<rparr>"
  have r: "node_round s = Done (fx, n')" using h by (simp add: s_def)
  have leased: "\<forall>c \<in> fst ` set os. p |\<in>| claims (mach n) c" using due by force
  have "failover (cfg (mach n))" using mach_okD(1) [OF ok(2)] by (simp add: PRODUCTION_def)
  from outcomes_effect [OF d leased rej this]
  have m: "\<And>c. claims (mach s) c = (if c \<in> fst ` set os then claims (mach n) c |-| {|p|} else claims (mach n) c)"
    "got (mach s) = got (mach n) |\<union>| fset_of_list (delivered os)" "rejected (mach s) = rejected (mach n)"
    "arrived (mach s) = arrived (mach n)" "holders (mach s) = holders (mach n)" "cfg (mach s) = cfg (mach n)"
    by (simp_all add: Let_def s_def)
  have same: "logs s = logs n" "disc s = disc n" "peers s = peers n" "policy s = policy n" "radius s = radius n"
    by (simp_all add: s_def)
  have "node_inv s" using ok(1) by (rule books_round_from [of n "FetchResult p b os"]) (simp add: s_def)
  moreover have "mach_ok R s" by (rule mach_ok_mono [OF ok(2)]) (simp_all add: m same)
  moreover have "logs_ok R s" by (rule logs_ok_mono [OF ok(3)]) (simp_all add: m same)
  moreover have "open_ok s" using ok(4) by (simp add: open_ok_def same)
  ultimately have s: "follows R s" by (simp add: follows_def)
  have "balanced n (pays (FetchResult p b os)) [] s"
  proof (rule balancedI)
    show "duties s = (duties n - set (pays (FetchResult p b os))) \<union> set (asked [])"
      by (rule duty_set_eqI) (auto simp: covered_def same m(1) image_iff split: prod.splits)
    show "distinct (pays (FetchResult p b os))"
    proof -
      have "pays (FetchResult p b os) = map (Lease_of p) (map fst os)" by (simp add: case_prod_beta comp_def)
      then show ?thesis using d by (simp add: distinct_map inj_on_def del: map_map)
    qed
  qed (use due in simp_all)
  then have "balanced n (pays (FetchResult p b os)) fx n'"
    by (rule balanced_trans) (rule round_balanced [OF followsD(1) [OF s] r])
  then show ?thesis using round_follows [OF s r] round_frame [OF r] m(2) same by (simp add: calm_def)
qed

subsection \<open>An offer is answered\<close>

text \<open>A page: the entries of the reserve from \<open>x\<close> to \<open>t\<close>, all of them, with \<open>t\<close> a position in use.\<close>

definition page :: "(BinId, triple) fmap \<Rightarrow> BinId \<Rightarrow> (BinId \<times> triple) list \<Rightarrow> BinId \<Rightarrow> bool" where
  "page m x refs t \<longleftrightarrow> set refs = {(y, c). fmlookup m y = Some c \<and> x \<le> y \<and> y \<le> t} \<and> x \<le> t \<and> t |\<in>| fmdom m"

lemma observe_all_spec:
  assumes "\<forall>(y, c) \<in> set refs. fmlookup m y = Some c \<and> interval l < y \<and> y \<le> topmost l"
  shows "interval (observe_all refs l) = interval l \<and> topmost (observe_all refs l) = topmost l
    \<and> (\<forall>y. fmlookup (entries (observe_all refs l)) y =
         (if y \<in> fst ` set refs then fmlookup m y else fmlookup (entries l) y))"
  using assms
proof (induction refs arbitrary: l)
  case (Cons e refs)
  obtain y c where e: "e = (y, c)" by (cases e)
  let ?l = "observe y c l"
  have l: "interval ?l = interval l" "topmost ?l = topmost l" "entries ?l = fmupd y c (entries l)" "fmlookup m y = Some c"
    using Cons.prems e by (simp_all add: entries_observe)
  have "\<forall>(y, c) \<in> set refs. fmlookup m y = Some c \<and> interval ?l < y \<and> y \<le> topmost ?l"
    using Cons.prems l by simp
  from Cons.IH [OF this] l e show ?case by (auto simp: observe_all_def)
qed (simp add: observe_all_def)

lemma ingested_effect:
  assumes "ingested p b cur refs n = Done (fx, s)" and "rejected (mach n) = {||}"
  shows "want (mach s) = want (mach n) \<and> got (mach s) = got (mach n) \<and> rejected (mach s) = {||} \<and> cfg (mach s) = cfg (mach n)
    \<and> policy s = policy n \<and> radius s = radius n \<and> peers s = peers n \<and> disc s = disc n
    \<and> (\<forall>c. holds (mach s) c = (if c \<in> snd ` set refs then finsert p (holds (mach n) c) else holds (mach n) c))
    \<and> arrived (mach s) = arrived (mach n) |\<union>| ffilter (\<lambda>c. c |\<notin>| got (mach n)) (fset_of_list (map snd refs))"
  using assms
proof (induction refs arbitrary: n fx)
  case Nil
  then show ?case by (auto simp: ingested_def)
next
  case (Cons e refs)
  obtain x c where e: "e = (x, c)" by (cases e)
  from Cons.prems obtain fx1 n1 fx2 where one: "ingest p b cur e n = Done (fx1, n1)"
    and rest: "ingested p b cur refs n1 = Done (fx2, s)"
    by (auto simp: ingested_def bind_exec_eq_Done)
  have n1: "want (mach n1) = want (mach n) \<and> got (mach n1) = got (mach n) \<and> rejected (mach n1) = {||} \<and> cfg (mach n1) = cfg (mach n)
    \<and> policy n1 = policy n \<and> radius n1 = radius n \<and> peers n1 = peers n \<and> disc n1 = disc n
    \<and> (\<forall>d. holds (mach n1) d = (if d = c then finsert p (holds (mach n) d) else holds (mach n) d))
    \<and> arrived (mach n1) = (if c |\<in>| got (mach n) then arrived (mach n) else finsert c (arrived (mach n)))"
    using one Cons.prems(2)
    by (auto simp: e ingest_def Let_def set_prio_def observe_holder_def arrive_live_def arrive_hist_def
        split: option.splits if_splits)
  then have "rejected (mach n1) = {||}" by blast
  from Cons.IH [OF rest this] n1 show ?case by (auto simp: e fset_of_list_elem)
qed

lemma offered_calm:
  assumes R: "shelves_ok R" and c: "calm R n" and due: "Stream_of p b x \<in> duties n" and pg: "page (R p b) x refs t"
    and h: "handle (OfferResult p b x refs t) n = Done (fx, n')"
  shows "calm R n' \<and> balanced n [Stream_of p b x] fx n' \<and> peers n' = peers n \<and> got (mach n') = got (mach n)"
proof -
  have f: "follows R n" using c by (simp add: calm_def)
  note ok = followsD [OF f]
  have opened': "(p, b) |\<in>| offer_open (disc n)" and x: "x = covered n (p, b) + 1" using due by simp_all
  with ok(4) obtain l where l: "fmlookup (logs n) (p, b) = Some l" "interval l = topmost l" by (auto simp: open_ok_def)
  have tr: "tracks (R p b) n l" and at: "p |\<in>| peers n" "b \<in> set bins" using logs_okD [OF ok(3) l(1)] by simp_all
  have top: "topmost l < x" using x l(1) tr word_less_succ [of "topmost l"] by (simp add: covered_def tracks_def)
  have t: "x \<le> t" "t |\<in>| fmdom (R p b)" and refs: "set refs = {(y, c). fmlookup (R p b) y = Some c \<and> x \<le> y \<and> y \<le> t}"
    using pg by (simp_all add: page_def)
  have empty: "entries l = fmempty"
    using log_inv_at [OF ok(1) l(1)] l(2) by (intro fmap_ext) (force simp: log_inv_def option.expand)
  let ?l = "cover (max t x) l"
  have cov: "topmost ?l = t" "interval ?l = topmost l" using t(1) top l(2) by (auto simp: max_def)
  have lost: "churned_out x t refs ?l = []" using empty by (simp add: churned_out_def unsettled_def sorted_list_of_fmap_def)
  have ol: "offer_log p b x refs t n = observe_all refs ?l"
  proof -
    have "offer_log p b x refs t n = observe_all refs (?l\<lparr>entries := entries l\<rparr>)"
      using lost by (simp add: offer_log_def Let_def l(1))
    also have "\<dots> = observe_all refs ?l" by (rule arg_cong [of _ _ "observe_all refs"]) (simp add: cover_def)
    finally show ?thesis .
  qed
  have "\<forall>(y, c) \<in> set refs. fmlookup (R p b) y = Some c \<and> interval ?l < y \<and> y \<le> topmost ?l"
    using refs top cov l(2) by auto
  from observe_all_spec [OF this] empty cov
  have new: "interval (offer_log p b x refs t n) = topmost l" "topmost (offer_log p b x refs t n) = t"
    and ents: "\<And>y. fmlookup (entries (offer_log p b x refs t n)) y = (if y \<in> fst ` set refs then fmlookup (R p b) y else None)"
    by (simp_all add: ol)
  from handle_offerE [OF h] obtain s where s: "offered p b x refs t n = Done ([], s)" and r: "node_round s = Done (fx, n')"
    and logs: "logs s = fmupd (p, b) (offer_log p b x refs t n) (logs n)" by metis
  let ?w = "open_window p b x refs t n"
  have w: "mach ?w = mach n" "peers ?w = peers n" "policy ?w = policy n" "radius ?w = radius n" "disc ?w = close p b (disc n)"
    using lost by (simp_all add: open_window_def Let_def l(1) lose_all_def)
  have "rejected (mach ?w) = {||}" using mach_okD(4) [OF ok(2)] w by simp
  from ingested_effect [OF s [unfolded offered_def] this]
  have m: "want (mach s) = want (mach n)" "got (mach s) = got (mach n)" "rejected (mach s) = {||}" "cfg (mach s) = cfg (mach n)"
    "policy s = policy n" "radius s = radius n" "peers s = peers n" "disc s = close p b (disc n)"
    "\<And>c. holds (mach s) c = (if c \<in> snd ` set refs then finsert p (holds (mach n) c) else holds (mach n) c)"
    "arrived (mach s) = arrived (mach n) |\<union>| ffilter (\<lambda>c. c |\<notin>| got (mach n)) (fset_of_list (map snd refs))"
    by (simp_all add: w)
  have "node_inv s" using ok(1) by (rule books_round_from [of n "OfferResult p b x refs t"]) (simp add: s)
  moreover have "mach_ok R s"
  proof -
    have "p' |\<in>| peers s \<and> shelved R p' c" if "p' |\<in>| holds (mach s) c" for p' c
    proof (cases "p' = p \<and> c \<in> snd ` set refs")
      case True
      then obtain y where "(y, c) \<in> set refs" by auto
      then have "fmlookup (R p b) y = Some c" by (simp add: refs)
      then show ?thesis using True at(1) by (auto simp: m shelved_def)
    next
      case False
      then have "p' |\<in>| holds (mach n) c" using that by (auto simp: m split: if_splits)
      from mach_okD(5) [OF ok(2) this] show ?thesis by (simp add: m)
    qed
    moreover have "holds (mach s) c \<noteq> {||}" if "c |\<in>| arrived (mach s)" "c |\<notin>| got (mach s)" for c
      using that mach_okD(6) [OF ok(2), of c] by (auto simp: m fset_of_list_elem)
    ultimately show ?thesis using mach_okD(1-4) [OF ok(2)] m(1-6) unfolding mach_ok_def by metis
  qed
  moreover have "logs_ok R s"
    unfolding logs_ok_def
  proof (intro allI impI)
    fix k l' assume l': "fmlookup (logs s) k = Some l'"
    show "fst k |\<in>| peers s \<and> snd k \<in> set bins \<and> tracks (R (fst k) (snd k)) s l'"
    proof (cases "k = (p, b)")
      case False
      then have "fmlookup (logs n) k = Some l'" using l' logs by simp
      from logs_okD [OF ok(3) this] tracks_mono [of _ n l' s] show ?thesis by (simp add: m)
    next
      case True
      then have l': "l' = offer_log p b x refs t n" using l' logs by simp
      have "t \<noteq> - 1" using R t(2) by (auto simp: shelves_ok_def)
      moreover have "c |\<in>| got (mach s) \<or> c |\<in>| arrived (mach s)" if "(y, c) \<in> set refs" for y c
        using that by (force simp: m fset_of_list_elem)
      moreover have "fmlookup (entries l') y = Some c \<or> c |\<in>| got (mach s)"
        if "fmlookup (R p b) y = Some c" "y \<le> t" for y c
      proof (cases "x \<le> y")
        case True
        with that have "(y, c) \<in> set refs" by (simp add: refs)
        then have "y \<in> fst ` set refs" by force
        then show ?thesis using that by (simp add: l' ents)
      next
        case False
        have "y \<le> topmost l"
          using False x l(1) word_less_add_one [of "topmost l" y] by (simp add: covered_def) (meson leD not_le)
        with that(1) tr empty show ?thesis by (auto simp: tracks_def m)
      qed
      ultimately have "tracks (R p b) s l'"
        using t(2) unfolding tracks_def by (force simp: l' new ents refs split: if_splits)
      with True at show ?thesis by (simp add: m)
    qed
  qed
  moreover have "open_ok s"
  proof -
    have "fmdom (logs s) = fmdom (logs n)" using l(1) by (auto simp: logs fmdomI)
    moreover have "\<exists>l. fmlookup (logs s) k = Some l \<and> interval l = topmost l" if "k |\<in>| offer_open (disc s)" for k
      using that ok(4) by (auto simp: logs m close_def open_ok_def)
    ultimately show ?thesis using ok(4) by (simp add: open_ok_def)
  qed
  ultimately have fs: "follows R s" by (simp add: follows_def)
  have "balanced n [Stream_of p b x] [] s"
  proof (rule balancedI)
    have dom: "(q, b') |\<in>| fmdom (logs s) \<longleftrightarrow> (q, b') |\<in>| fmdom (logs n)" for q b' using l(1) by (auto simp: logs fmdomI)
    have cov: "covered s k = covered n k" if "k \<noteq> (p, b)" for k using that by (simp add: covered_def logs)
    show "duties s = (duties n - set [Stream_of p b x]) \<union> set (asked [])"
    proof (rule duty_set_eqI)
      show "Stream_of q b' y \<in> duties s \<longleftrightarrow> Stream_of q b' y \<in> (duties n - set [Stream_of p b x]) \<union> set (asked [])" for q b' y
        using cov [of "(q, b')"] by (cases "(q, b') = (p, b)") (auto simp: m close_def x)
    qed (auto simp: m dom)
  qed (use due in simp_all)
  then have "balanced n [Stream_of p b x] fx n'"
    by (rule balanced_trans) (rule round_balanced [OF followsD(1) [OF fs] r])
  then show ?thesis using round_follows [OF fs r] round_frame [OF r] m by (simp add: calm_def)
qed

subsection \<open>The reserves grow, and a chunk lands\<close>

definition grown :: "shelves \<Rightarrow> shelves \<Rightarrow> bool" where
  "grown R S \<longleftrightarrow> (\<forall>p b x c. fmlookup (R p b) x = Some c \<longrightarrow> fmlookup (S p b) x = Some c)
     \<and> (\<forall>p b x y. x |\<in>| fmdom (S p b) \<longrightarrow> x |\<notin>| fmdom (R p b) \<longrightarrow> 0 < x \<and> (y |\<in>| fmdom (R p b) \<longrightarrow> y < x))"

lemma tracks_grown:
  assumes "tracks (R p b) n l" and "grown R S"
  shows "tracks (S p b) n l"
proof -
  have keep: "fmlookup (S p b) x = Some c" if "fmlookup (R p b) x = Some c" for x c
    using assms(2) that by (simp add: grown_def)
  have old: "fmlookup (R p b) x = Some c" if "fmlookup (S p b) x = Some c" "x \<le> topmost l" for x c
  proof (cases "fmlookup (R p b) x")
    case (Some d)
    with keep [OF Some] that show ?thesis by simp
  next
    case None
    have "x |\<in>| fmdom (S p b)" "x |\<notin>| fmdom (R p b)" using that(1) None by (auto intro: fmdomI fmdom_notI)
    with assms(2) have "0 < x" "y |\<in>| fmdom (R p b) \<Longrightarrow> y < x" for y
      unfolding grown_def by blast+
    moreover have "topmost l = 0 \<or> topmost l |\<in>| fmdom (R p b)" using assms(1) by (simp add: tracks_def)
    ultimately show ?thesis using that(2) by force
  qed
  have "topmost l |\<in>| fmdom (S p b)" if "topmost l |\<in>| fmdom (R p b)" using that keep by (auto simp: fmlookup_dom_iff)
  moreover have "fmlookup (S p b) x = Some c \<and> (c |\<in>| got (mach n) \<or> c |\<in>| arrived (mach n))"
    if "fmlookup (entries l) x = Some c" for x c
    using assms(1) that keep unfolding tracks_def by blast
  moreover have "fmlookup (entries l) x = Some c \<or> c |\<in>| got (mach n)"
    if "fmlookup (S p b) x = Some c" "x \<le> topmost l" for x c
    using assms(1) old [OF that] that(2) unfolding tracks_def by blast
  moreover have "topmost l \<noteq> - 1" "topmost l = 0 \<or> topmost l |\<in>| fmdom (R p b)"
    using assms(1) unfolding tracks_def by blast+
  ultimately show ?thesis unfolding tracks_def by blast
qed

lemma calm_grown:
  assumes c: "calm R n" and g: "grown R S"
  shows "calm S n"
proof -
  have f: "follows R n" using c by (simp add: calm_def)
  note ok = followsD [OF f]
  have "shelved S p c" if "shelved R p c" for p c using that g unfolding shelved_def grown_def by blast
  then have "mach_ok S n" using ok(2) unfolding mach_ok_def by blast
  moreover have "logs_ok S n" using ok(3) tracks_grown [OF _ g] unfolding logs_ok_def by blast
  ultimately show ?thesis using c by (simp add: calm_def follows_def)
qed

lemma preload_calm:
  assumes c: "calm R n" and fresh: "\<And>p. p |\<in>| peers n \<Longrightarrow> \<not> shelved R p d"
  shows "calm R (snd (Node_preload d n)) \<and> duties (snd (Node_preload d n)) = duties n
    \<and> peers (snd (Node_preload d n)) = peers n \<and> got (mach (snd (Node_preload d n))) = finsert d (got (mach n))"
proof -
  have f: "follows R n" using c by (simp add: calm_def)
  note ok = followsD [OF f]
  let ?s = "snd (Node_preload d n)"
  have s: "logs ?s = logs n" "disc ?s = disc n" "peers ?s = peers n" "policy ?s = policy n" "radius ?s = radius n"
    "bin_of ?s = bin_of n" "mach ?s = snd (preload d (mach n))"
    by (simp_all add: Node_preload_def case_prod_beta Let_def)
  have m: "want (mach ?s) = want (mach n)" "got (mach ?s) = finsert d (got (mach n))" "rejected (mach ?s) = rejected (mach n)"
    "arrived (mach ?s) = arrived (mach n)" "holders (mach ?s) = holders (mach n)" "cfg (mach ?s) = cfg (mach n)"
    "prio (mach ?s) = prio (mach n)" "excluded (mach ?s) = excluded (mach n)"
    by (auto simp: s preload_def)
  have none: "p |\<notin>| claims (mach n) d" for p
  proof
    assume "p |\<in>| claims (mach n) d"
    then have "p |\<in>| holds (mach n) d" using ok(1) by (simp add: node_inv_def machine_inv_def)
    with mach_okD(5) [OF ok(2)] fresh show False by blast
  qed
  have entry: "c \<noteq> d" if "fmlookup (logs n) k = Some l" "fmlookup (entries l) x = Some c" for k l x c
  proof -
    from logs_okD [OF ok(3) that(1)] that(2) have "fst k |\<in>| peers n" "shelved R (fst k) c"
      unfolding tracks_def shelved_def by blast+
    with fresh show ?thesis by blast
  qed
  have "machine_inv (mach ?s)"
    unfolding s(7) by (rule machine_inv_preload) (use ok(1) none in \<open>auto simp: node_inv_def\<close>)
  moreover have "windowed ?s = windowed n" by (rule windowed_same) (rule s)
  then have "books ?s" using ok(1) by (simp add: node_inv_def books_def books_of_def s(1-6) m)
  ultimately have "node_inv ?s" by (simp add: node_inv_def)
  moreover have "mach_ok R ?s" by (rule mach_ok_mono [OF ok(2)]) (auto simp: s(1-6) m)
  moreover have "logs_ok R ?s" by (rule logs_ok_mono [OF ok(3)]) (auto simp: s(1-6) m)
  moreover have "open_ok ?s" using ok(4) by (simp add: open_ok_def s(1-6))
  moreover have "rested ?s"
    unfolding rested_def
  proof (intro conjI allI impI)
    fix k l assume l: "fmlookup (logs ?s) k = Some l"
    then show "if interval l = topmost l then k |\<in>| offer_open (disc ?s)
        else \<exists>x c. fmlookup (entries l) x = Some c \<and> c |\<notin>| got (mach ?s)"
    proof (cases "interval l = topmost l")
      case False
      with c l obtain x c' where "fmlookup (entries l) x = Some c'" "c' |\<notin>| got (mach n)"
        unfolding calm_def rested_def s(1) by metis
      moreover from this l have "c' \<noteq> d" using entry [of k l x c'] by (simp add: s(1))
      ultimately show ?thesis using False by (auto simp: m)
    qed (use c l in \<open>simp add: calm_def rested_def s(1,2)\<close>)
  next
    fix c' assume "c' |\<in>| arrived (mach ?s)" "c' |\<notin>| got (mach ?s)"
    then show "\<exists>d p. p |\<in>| claims (mach ?s) d" using c unfolding calm_def rested_def by (simp add: m)
  qed
  ultimately have "calm R ?s" by (simp add: calm_def follows_def)
  moreover have "duties ?s = duties n" by (rule duty_set_eqI) (simp_all add: s(1-6) m covered_def)
  ultimately show ?thesis by (simp add: s(1-6) m)
qed

end
