(* ===== verification/Sim_Net.thy ===== *)
theory Sim_Net
  imports Sim_Events
begin

section \<open>The network keeps its promises\<close>

text \<open>
  The invariant of a whole simulation: the pullers are calm followers of the reserves of the nodes, and
  what each is owed is exactly what is in flight for it or parked.
\<close>

declare split_paired_All [simp del] split_paired_Ex [simp del]

subsection \<open>Reserves\<close>

definition bin_shelf :: "sim_node \<Rightarrow> Bin \<Rightarrow> (BinId, triple) fmap" where
  "bin_shelf n b = get_or fmempty (reserve n) b"

definition shelf :: "sim_node list \<Rightarrow> shelves" where
  "shelf ns p = (if unat p < length ns then bin_shelf (ns ! unat p) else (\<lambda>_. fmempty))"

lemma head_spec:
  shows "x |\<in>| fmdom (bin_shelf n b) \<Longrightarrow> x \<le> sim_head n b"
    and "sim_head n b = 0 \<or> sim_head n b |\<in>| fmdom (bin_shelf n b)"
proof -
  let ?m = "bin_shelf n b"
  have sh: "sim_head n b = (case rev (sorted_list_of_fset (fmdom ?m)) of [] \<Rightarrow> 0 | y # _ \<Rightarrow> y)"
    by (simp add: sim_head_def bin_shelf_def get_or_def split: option.splits)
  show "sim_head n b = 0 \<or> sim_head n b |\<in>| fmdom ?m"
  proof (cases "rev (sorted_list_of_fset (fmdom ?m))")
    case (Cons y ys)
    have "y \<in> set (rev (sorted_list_of_fset (fmdom ?m)))" unfolding Cons by simp
    then have "y |\<in>| fmdom ?m" by simp
    with Cons show ?thesis by (simp add: sh)
  qed (simp add: sh)
  assume x: "x |\<in>| fmdom ?m"
  show "x \<le> sim_head n b"
  proof (cases "rev (sorted_list_of_fset (fmdom ?m))")
    case Nil
    with x show ?thesis by simp
  next
    case (Cons y ys)
    then have srt: "sorted_list_of_fset (fmdom ?m) = rev ys @ [y]" by (simp add: rev_eq_append_conv)
    have "sorted (sorted_list_of_fset (fmdom ?m))" by simp
    then have "\<forall>z \<in> set ys. z \<le> y" unfolding srt by (simp add: sorted_append)
    moreover have "x \<in> set (rev ys @ [y])" using x by (simp flip: srt)
    ultimately show ?thesis using Cons by (auto simp: sh)
  qed
qed

text \<open>A server: its positions count from one and stay within the size of its index, which they fill.\<close>

definition server_ok :: "triple fset \<Rightarrow> sim_node \<Rightarrow> bool" where
  "server_ok U n \<longleftrightarrow> index n |\<subseteq>| U
     \<and> (\<forall>b x c. fmlookup (bin_shelf n b) x = Some c \<longrightarrow> c |\<in>| index n \<and> 0 < x \<and> unat x \<le> fcard (index n))
     \<and> (\<forall>c. c |\<in>| index n \<longrightarrow> (\<exists>b \<in> set bins. \<exists>x. fmlookup (bin_shelf n b) x = Some c))"

lemma server_okD:
  assumes "server_ok U n"
  shows "index n |\<subseteq>| U"
    and "fmlookup (bin_shelf n b) x = Some c \<Longrightarrow> c |\<in>| index n \<and> 0 < x \<and> unat x \<le> fcard (index n)"
    and "c |\<in>| index n \<Longrightarrow> \<exists>b \<in> set bins. \<exists>x. fmlookup (bin_shelf n b) x = Some c"
  using assms unfolding server_ok_def by blast+

lemma head_le: "server_ok U n \<Longrightarrow> unat (sim_head n b) \<le> fcard (index n)"
  using head_spec(2) [of n b] server_okD(2) [of U n b "sim_head n b"] by (auto simp: fmlookup_dom_iff)

lemma sim_bin_in: "sim_bin_of c \<in> set bins"
proof -
  let ?x = "address c ! 31 :: u8"
  have "unat (?x mod 2) < 2" by (simp add: unat_mod)
  then have "?x mod 2 = 0 \<or> ?x mod 2 = 1" by (auto simp: less_2_cases_iff word_unat_eq_iff)
  then show ?thesis by (auto simp: sim_bin_of_def bins_eq RADIUS_def NBINS_def)
qed

lemma sim_head_append:
  assumes ok: "server_ok U n" and U: "fcard U < 2 ^ 32" and c: "c |\<notin>| index n" "c |\<in>| U"
  defines "b \<equiv> sim_bin_of c"
  shows "sim_head n b < sim_head n b + 1" and "unat (sim_head n b + 1) = Suc (unat (sim_head n b))"
    and "bin_shelf (append_entry c n) b' = (if b' = b then fmupd (sim_head n b + 1) c (bin_shelf n b) else bin_shelf n b')"
    and "sim_head (append_entry c n) b' = (if b' = b then sim_head n b + 1 else sim_head n b')"
    and "server_ok U (append_entry c n)"
proof -
  have "fcard (index n) \<le> fcard U" using server_okD(1) [OF ok] by (rule fcard_mono)
  with U have small: "unat (sim_head n b) < 2 ^ 32" using head_le [OF ok, of b] by linarith
  have "sim_head n b \<noteq> - 1"
  proof
    assume "sim_head n b = - 1"
    with small show False by (simp add: unsigned_minus_1_eq_mask mask_eq_exp_minus_1)
  qed
  then show less: "sim_head n b < sim_head n b + 1" by (rule word_less_succ)
  then show suc: "unat (sim_head n b + 1) = Suc (unat (sim_head n b))"
    using unatSuc [of "sim_head n b"] \<open>sim_head n b \<noteq> - 1\<close> by (simp add: add.commute eq_neg_iff_add_eq_0)
  have shelf': "bin_shelf (append_entry c n) b' = (if b' = b then fmupd (sim_head n b + 1) c (bin_shelf n b) else bin_shelf n b')" for b'
    by (simp add: bin_shelf_def append_entry_def Let_def b_def)
  then show "bin_shelf (append_entry c n) b' = (if b' = b then fmupd (sim_head n b + 1) c (bin_shelf n b) else bin_shelf n b')" .
  show "sim_head (append_entry c n) b' = (if b' = b then sim_head n b + 1 else sim_head n b')"
  proof (cases "b' = b")
    case False
    then have "fmlookup (reserve (append_entry c n)) b' = fmlookup (reserve n) b'"
      by (simp add: append_entry_def Let_def b_def)
    with False show ?thesis by (simp add: sim_head_def)
  next
    case True
    let ?h = "sim_head (append_entry c n) b"
    have dom: "fmdom (bin_shelf (append_entry c n) b) = finsert (sim_head n b + 1) (fmdom (bin_shelf n b))" by (simp add: shelf')
    then have "sim_head n b + 1 \<le> ?h" using head_spec(1) [of "sim_head n b + 1" "append_entry c n" b] by simp
    moreover have "?h \<le> sim_head n b + 1"
      using head_spec(2) [of "append_entry c n" b] head_spec(1) [of ?h n b] less dom by auto
    ultimately show ?thesis using True by simp
  qed
  have idx: "index (append_entry c n) = finsert c (index n)" by (simp add: append_entry_def Let_def)
  have card: "fcard (finsert c (index n)) = Suc (fcard (index n))" using c(1) by (simp add: fcard_finsert_disjoint)
  show "server_ok U (append_entry c n)"
    unfolding server_ok_def
  proof (intro conjI allI impI)
    show "index (append_entry c n) |\<subseteq>| U" using server_okD(1) [OF ok] c(2) by (simp add: idx)
    fix b' x d assume e: "fmlookup (bin_shelf (append_entry c n) b') x = Some d"
    show "d |\<in>| index (append_entry c n)" "0 < x" "unat x \<le> fcard (index (append_entry c n))"
      using e server_okD(2) [OF ok, of b' x d] less head_le [OF ok, of b] suc
      by (auto simp: shelf' idx card le_less_trans [OF word_zero_le] split: if_splits)
  next
    fix d assume "d |\<in>| index (append_entry c n)"
    then consider "d = c" | "d |\<in>| index n" by (auto simp: idx)
    then show "\<exists>b \<in> set bins. \<exists>x. fmlookup (bin_shelf (append_entry c n) b) x = Some d"
    proof cases
      case 1
      then have "fmlookup (bin_shelf (append_entry c n) b) (sim_head n b + 1) = Some d" by (simp add: shelf')
      then show ?thesis using sim_bin_in [of c] b_def by blast
    next
      case 2
      then obtain b' x where b': "b' \<in> set bins" "fmlookup (bin_shelf n b') x = Some d" using server_okD(3) [OF ok] by blast
      then have "x \<noteq> sim_head n b + 1 \<or> b' \<noteq> b" using head_spec(1) [of x n b] less by (auto simp: fmdomI)
      with b'(2) have "fmlookup (bin_shelf (append_entry c n) b') x = Some d" by (auto simp: shelf')
      with b'(1) show ?thesis by blast
    qed
  qed
qed

text \<open>The answer to an offer is a page of the shelf: complete from the start to the topmost.\<close>

lemma take_sorted_page:
  fixes xs :: "('a::linorder \<times> 'b) list"
  assumes "sorted_wrt (<) (map fst xs)" and "k \<noteq> 0" and "xs \<noteq> []"
  shows "set (take k xs) = {e \<in> set xs. fst e \<le> fst (last (take k xs))}"
proof -
  let ?t = "take k xs"
  have ne: "?t \<noteq> []" using assms(2,3) by simp
  have split: "xs = ?t @ drop k xs" by simp
  have "sorted_wrt (<) (map fst ?t @ map fst (drop k xs))"
    using assms(1) by (simp flip: map_append)
  then have st: "sorted_wrt (<) (map fst ?t)" and cross: "\<forall>x \<in> set ?t. \<forall>y \<in> set (drop k xs). fst x < fst y"
    by (auto simp: sorted_wrt_append)
  have le: "fst e \<le> fst (last ?t)" if "e \<in> set ?t" for e
  proof -
    have eq: "?t = butlast ?t @ [last ?t]" using ne by simp
    have "sorted_wrt (<) (map fst (butlast ?t) @ [fst (last ?t)])"
      using st eq by (metis list.simps(8,9) map_append)
    then have "\<forall>x \<in> set (butlast ?t). fst x < fst (last ?t)" by (simp add: sorted_wrt_append)
    moreover have "e \<in> set (butlast ?t @ [last ?t])" using that eq by metis
    ultimately show ?thesis by (auto simp: order_less_imp_le)
  qed
  have "last ?t \<in> set ?t" using ne by simp
  with le cross show ?thesis
    by (subst (2) split) (auto simp: not_less [symmetric] simp del: append_take_drop_id)
qed

lemma offer_response_page:
  assumes x: "x \<le> sim_head n b" "0 < x"
  obtains refs t where "offer_response j b x n = OfferResult (peer_id j) b x refs t" "page (bin_shelf n b) x refs t"
proof -
  let ?m = "bin_shelf n b"
  let ?xs = "filter (\<lambda>(y, _). x \<le> y) (sorted_list_of_fmap ?m)"
  let ?refs = "take PAGE ?xs"
  have refs: "(case fmlookup (reserve n) b of None \<Rightarrow> []
      | Some m \<Rightarrow> take PAGE (filter (\<lambda>(y, _). x \<le> y) (sorted_list_of_fmap m))) = ?refs"
    by (simp add: bin_shelf_def get_or_def sorted_list_of_fmap_def split: option.splits)
  have "sim_head n b |\<in>| fmdom ?m" using head_spec(2) [of n b] x by auto
  then obtain c where "fmlookup ?m (sim_head n b) = Some c" by (auto simp: fmlookup_dom_iff)
  with x(1) have "(sim_head n b, c) \<in> set ?xs" by simp
  then have ne: "?xs \<noteq> []" by fastforce
  have pg: "PAGE \<noteq> 0" by (simp add: PAGE_def)
  with ne have ne': "?refs \<noteq> []" by simp
  define t where "t = fst (last ?refs)"
  have "map fst (sorted_list_of_fmap ?m) = sorted_list_of_fset (fmdom ?m)" by (simp add: sorted_list_of_fmap_def comp_def)
  then have "sorted_wrt (<) (map fst (sorted_list_of_fmap ?m))" by simp
  then have "sorted_wrt (<) (map fst ?xs)"
    unfolding sorted_wrt_map by (rule sorted_wrt_filter)
  note all = take_sorted_page [OF this pg ne, folded t_def]
  have mem: "e \<in> set ?refs \<longleftrightarrow> (case e of (y, c) \<Rightarrow> fmlookup ?m y = Some c \<and> x \<le> y \<and> y \<le> t)" for e
    unfolding all by (cases e) auto
  then have set: "set ?refs = {(y, c). fmlookup ?m y = Some c \<and> x \<le> y \<and> y \<le> t}" by blast
  have "last ?refs \<in> set ?refs" using ne' by (rule last_in_set)
  then have "x \<le> t" "t |\<in>| fmdom ?m" unfolding mem t_def by (simp_all add: case_prod_beta fmdomI)
  then have "page ?m x ?refs t" and "max t x = t" using set by (simp_all add: page_def)
  moreover from this have "offer_response j b x n = OfferResult (peer_id j) b x ?refs t"
    unfolding offer_response_def refs using ne' by (simp add: Let_def t_def)
  ultimately show thesis using that by blast
qed

end
