(* ===== verification/Sim_Inv.thy ===== *)
theory Sim_Inv
  imports Sim_Net
begin

section \<open>The invariant of a simulation\<close>

text \<open>
  Every message and every step keeps it: the pullers stay calm, and what each of them is owed is in
  flight for it or parked, each obligation once.
\<close>

declare split_paired_All [simp del] split_paired_Ex [simp del]

subsection \<open>What is in flight\<close>

fun msg_duties :: "nat \<Rightarrow> msg \<Rightarrow> duty list" where
  "msg_duties i (Req j e) = (if j = i then asks e else [])"
| "msg_duties i (Resp j ev) = (if j = i then pays ev else [])"

definition parked_duties :: "nat \<Rightarrow> nat \<Rightarrow> sim_node \<Rightarrow> duty list" where
  "parked_duties i j n = map (\<lambda>(_, b, x). Stream_of (peer_id j) b x) (filter (\<lambda>(r, _). r = i) (parked n))"

definition flying :: "nat \<Rightarrow> msg list \<Rightarrow> duty multiset" where
  "flying i ms = mset (concat (map (msg_duties i) ms))"

definition waiting :: "nat \<Rightarrow> sim_node list \<Rightarrow> duty multiset" where
  "waiting i ns = (\<Sum>j<length ns. mset (parked_duties i j (ns ! j)))"

lemma flying_simps [simp]: "flying i [] = {#}" "flying i (m # ms) = mset (msg_duties i m) + flying i ms"
  "flying i (ms @ ms') = flying i ms + flying i ms'"
  by (simp_all add: flying_def)

lemma flying_cong: "mset ms = mset ms' \<Longrightarrow> flying i ms = flying i ms'"
proof -
  assume "mset ms = mset ms'"
  moreover have "flying i ms = (\<Sum>m\<in>#mset ms. mset (msg_duties i m))" for ms by (induction ms) simp_all
  ultimately show ?thesis by simp
qed

lemma waiting_update:
  assumes "j < length ns" and "mset (parked_duties i j n) + d = mset (parked_duties i j (ns ! j)) + e"
  shows "waiting i (ns[j := n]) + d = waiting i ns + e"
proof -
  have split: "waiting i ms = mset (parked_duties i j (ms ! j)) + (\<Sum>j\<in>{..<length ms} - {j}. mset (parked_duties i j (ms ! j)))"
    if "j < length ms" for ms
    unfolding waiting_def by (rule sum.remove) (use that in simp_all)
  have "(\<Sum>j'\<in>{..<length ns} - {j}. mset (parked_duties i j' (ns[j := n] ! j'))) =
      (\<Sum>j'\<in>{..<length ns} - {j}. mset (parked_duties i j' (ns ! j')))"
    by (rule sum.cong) auto
  then show ?thesis using split [of "ns[j := n]"] split [of ns] assms by (simp add: ac_simps)
qed

lemma waiting_same: "j < length ns \<Longrightarrow> parked n = parked (ns ! j) \<Longrightarrow> waiting i (ns[j := n]) = waiting i ns"
  using waiting_update [of j ns i n "{#}" "{#}"] by (simp add: parked_duties_def)

subsection \<open>The invariant\<close>

fun event_ok :: "shelves \<Rightarrow> event \<Rightarrow> bool" where
  "event_ok R (CursorsResult _ cs) = (map fst cs = bins)"
| "event_ok R (OfferResult p b x refs t) = page (R p b) x refs t"
| "event_ok R (FetchResult _ _ os) = (Rejected \<notin> snd ` set os)"
| "event_ok R _ = False"

fun msg_ok :: "sim_node list \<Rightarrow> msg \<Rightarrow> bool" where
  "msg_ok ns (Req i e) = (i < length ns)"
| "msg_ok ns (Resp i ev) = (i < length ns \<and> event_ok (shelf ns) ev)"

definition node_ok :: "triple fset \<Rightarrow> sim_node list \<Rightarrow> nat \<Rightarrow> bool" where
  "node_ok U ns i \<longleftrightarrow> calm (shelf ns) (puller (ns ! i)) \<and> (\<forall>p. p |\<in>| peers (puller (ns ! i)) \<longrightarrow> unat p < length ns)
     \<and> server_ok U (ns ! i)
     \<and> (\<forall>r b x. (r, b, x) \<in> set (parked (ns ! i)) \<longrightarrow> r < length ns \<and> sim_head (ns ! i) b < x)"

definition net_ok :: "triple fset \<Rightarrow> sim_node list \<Rightarrow> msg list \<Rightarrow> bool" where
  "net_ok U ns q \<longleftrightarrow> length ns \<le> 256 \<and> fcard U < 2 ^ 32
     \<and> (\<forall>i < length ns. node_ok U ns i)
     \<and> (\<forall>m \<in> set q. msg_ok ns m)
     \<and> (\<forall>i < length ns. flying i q + waiting i ns = mset_set (duties (puller (ns ! i))))"

definition in_sync :: "sim_node list \<Rightarrow> bool" where
  "in_sync ns \<longleftrightarrow> (\<forall>i < length ns. got (mach (puller (ns ! i))) = index (ns ! i))"

lemma net_okD:
  assumes "net_ok U ns q"
  shows "length ns \<le> 256" "fcard U < 2 ^ 32" "i < length ns \<Longrightarrow> node_ok U ns i" "m \<in> set q \<Longrightarrow> msg_ok ns m"
    "i < length ns \<Longrightarrow> flying i q + waiting i ns = mset_set (duties (puller (ns ! i)))"
  using assms by (auto simp: net_ok_def)

lemma node_okD:
  assumes "node_ok U ns i"
  shows "calm (shelf ns) (puller (ns ! i))" "p |\<in>| peers (puller (ns ! i)) \<Longrightarrow> unat p < length ns" "server_ok U (ns ! i)"
    "(r, b, x) \<in> set (parked (ns ! i)) \<Longrightarrow> r < length ns \<and> sim_head (ns ! i) b < x"
  using assms by (auto simp: node_ok_def)

lemma net_ok_cong: "net_ok U ns q \<Longrightarrow> mset q = mset q' \<Longrightarrow> net_ok U ns q'"
  using flying_cong [of q q'] mset_eq_setD [of q q'] by (simp add: net_ok_def)

lemma owed_duty:
  assumes "net_ok U ns q" and "i < length ns" and "d \<in># flying i q"
  shows "d \<in> duties (puller (ns ! i))"
proof -
  have "d \<in># flying i q + waiting i ns" using assms(3) by simp
  then have "d \<in># mset_set (duties (puller (ns ! i)))" using net_okD(5) [OF assms(1,2)] by simp
  then show ?thesis by simp
qed

lemma duty_peer:
  assumes "follows R n"
  shows "Cursors_of p \<in> duties n \<Longrightarrow> p |\<in>| peers n" and "Stream_of p b x \<in> duties n \<Longrightarrow> p |\<in>| peers n \<and> 0 < x"
    and "Lease_of p c \<in> duties n \<Longrightarrow> p |\<in>| peers n \<and> shelved R p c"
proof -
  note ok = followsD [OF assms]
  show "Cursors_of p \<in> duties n \<Longrightarrow> p |\<in>| peers n" by simp
  show "p |\<in>| peers n \<and> 0 < x" if "Stream_of p b x \<in> duties n"
  proof -
    from that have "(p, b) |\<in>| offer_open (disc n)" and x: "x = covered n (p, b) + 1" by simp_all
    then obtain l where l: "fmlookup (logs n) (p, b) = Some l" using ok(4) by (auto simp: open_ok_def)
    with logs_okD(1,3) [OF ok(3) l] have "p |\<in>| peers n" "topmost l < x"
      using x word_less_succ [of "topmost l"] by (simp_all add: covered_def tracks_def)
    then show ?thesis using word_zero_le [of "topmost l"] by (metis le_less_trans)
  qed
  show "p |\<in>| peers n \<and> shelved R p c" if "Lease_of p c \<in> duties n"
  proof -
    from that have "p |\<in>| holds (mach n) c" using ok(1) by (simp add: node_inv_def machine_inv_def)
    then show ?thesis by (rule mach_okD(5) [OF ok(2)])
  qed
qed

lemma shelves_ok_shelf:
  assumes "net_ok U ns q"
  shows "shelves_ok (shelf ns)"
  unfolding shelves_ok_def
proof (intro allI)
  fix p b
  show "0 |\<notin>| fmdom (shelf ns p b) \<and> - 1 |\<notin>| fmdom (shelf ns p b)"
  proof (cases "unat p < length ns")
    case True
    have ok: "server_ok U (ns ! unat p)" using net_okD(3) [OF assms True] by (rule node_okD(3))
    have "x \<noteq> 0 \<and> x \<noteq> - 1" if "fmlookup (bin_shelf (ns ! unat p) b) x = Some c" for x c
    proof -
      have "fcard (index (ns ! unat p)) < 2 ^ 32"
        using fcard_mono [OF server_okD(1) [OF ok]] net_okD(2) [OF assms] by linarith
      with server_okD(2) [OF ok that] have "0 < x" "unat x < 2 ^ 32" by simp_all
      moreover have "\<not> unat (- 1 :: u64) < 2 ^ 32" by (simp add: unsigned_minus_1_eq_mask mask_eq_exp_minus_1)
      ultimately show ?thesis by auto
    qed
    then show ?thesis using True by (auto simp: shelf_def elim!: fmdomE)
  qed (simp add: shelf_def)
qed

lemma peer_id_unat [simp]: "peer_id (unat p) = p"
  by (simp add: peer_id_def)

lemma unat_peer_id: "i < 256 \<Longrightarrow> unat (peer_id i) = i"
  by (simp add: peer_id_def unat_of_nat)

lemma calm_follows: "calm R n \<Longrightarrow> follows R n"
  by (simp add: calm_def)

subsection \<open>A puller answers\<close>

lemma shelf_same:
  assumes "i < length ns" and "reserve n = reserve (ns ! i)"
  shows "shelf (ns[i := n]) = shelf ns"
  by (intro ext) (use assms in \<open>simp add: shelf_def bin_shelf_def nth_list_update\<close>)

lemma msg_ok_same: "length ns' = length ns \<Longrightarrow> shelf ns' = shelf ns \<Longrightarrow> msg_ok ns' m = msg_ok ns m"
  by (cases m) simp_all

lemma flying_others:
  assumes "\<forall>m \<in> set ms. \<exists>e ev. m = Req i e \<or> m = Resp i ev" and "j \<noteq> i"
  shows "flying j ms = {#}"
  using assms(1)
proof (induction ms)
  case (Cons m ms)
  then show ?case using assms(2) by (cases m) auto
qed simp

lemma flying_asked: "flying i (map (Req i) fx) = mset (asked fx)"
  by (induction fx) simp_all

text \<open>An event at node \<open>i\<close>, for the messages \<open>ms\<close> to \<open>i\<close> that it consumes.\<close>

lemma answered_ok:
  assumes ok: "net_ok U ns (ms @ q)" and i: "i < length ns" and own: "\<forall>m \<in> set ms. \<exists>e ev. m = Req i e \<or> m = Resp i ev"
    and c: "calm (shelf ns) p'" and peers: "\<And>p. p |\<in>| peers p' \<Longrightarrow> unat p < length ns"
    and bal: "mset_set (duties p') + flying i ms = mset_set (duties (puller (ns ! i))) + mset (asked fx)"
  shows "net_ok U (ns[i := (ns ! i)\<lparr>puller := p'\<rparr>]) (q @ map (Req i) fx)"
proof -
  let ?n = "(ns ! i)\<lparr>puller := p'\<rparr>" let ?ns = "ns[i := ?n]"
  have sh: "shelf ?ns = shelf ns" using i by (intro shelf_same) simp_all
  have wait: "waiting j ?ns = waiting j ns" for j using i by (intro waiting_same) simp_all
  have "node_ok U ?ns j" if "j < length ns" for j
  proof (cases "j = i")
    case True
    have "sim_head ?n b = sim_head (ns ! i) b" for b by (simp add: sim_head_def)
    moreover have "server_ok U ?n" using node_okD(3) [OF net_okD(3) [OF ok i]] by (simp add: server_ok_def bin_shelf_def)
    ultimately show ?thesis
      using i True c peers node_okD(4) [OF net_okD(3) [OF ok i]] by (simp add: node_ok_def sh)
  next
    case False
    then show ?thesis using net_okD(3) [OF ok that] by (simp add: node_ok_def sh)
  qed
  moreover have "msg_ok ?ns m" if "m \<in> set (q @ map (Req i) fx)" for m
    using that net_okD(4) [OF ok, of m] i by (auto simp: msg_ok_same [of ?ns ns, OF _ sh])
  moreover have "flying j (q @ map (Req i) fx) + waiting j ?ns = mset_set (duties (puller (?ns ! j)))" if j: "j < length ns" for j
  proof (cases "j = i")
    case True
    have "flying i (ms @ q) + waiting i ns = mset_set (duties (puller (ns ! i)))" using net_okD(5) [OF ok i] .
    then have "flying i q + waiting i ns + mset (asked fx) + flying i ms = mset_set (duties p') + flying i ms"
      using bal by (simp add: ac_simps)
    then show ?thesis using True i by (simp add: wait flying_asked ac_simps)
  next
    case False
    have "flying j (map (Req i) fx) = {#}" by (rule flying_others [OF _ False]) auto
    with False net_okD(5) [OF ok j] flying_others [OF own False] show ?thesis by (simp add: wait)
  qed
  ultimately show ?thesis using net_okD(1,2) [OF ok] by (simp add: net_ok_def)
qed

text \<open>What an event stores at the node, as \<open>sim_deliver\<close> reads it off.\<close>

fun stores :: "event \<Rightarrow> triple list" where
  "stores (FetchResult _ _ os) = delivered os"
| "stores _ = []"

definition kept :: "sim \<Rightarrow> sim \<Rightarrow> bool" where
  "kept s t \<longleftrightarrow> length (nodes t) = length (nodes s)
     \<and> (\<forall>j < length (nodes s). peers (puller (nodes t ! j)) = peers (puller (nodes s ! j)))"

lemma kept_refl [simp]: "kept s s"
  by (simp add: kept_def)

lemma kept_trans: "kept s t \<Longrightarrow> kept t u \<Longrightarrow> kept s u"
  by (simp add: kept_def)

lemma distinct_owed: "mset xs + M = mset_set S \<Longrightarrow> distinct xs"
proof (induction xs arbitrary: M)
  case (Cons x xs)
  have "count (mset (x # xs) + M) x \<le> 1" unfolding Cons.prems by (metis count_mset_set' le_numeral_extra(4) zero_le)
  then have "x \<notin> set xs" by (auto simp flip: count_greater_zero_iff)
  moreover have "distinct xs" using Cons.IH [of "M + {#x#}"] Cons.prems by simp
  ultimately show ?case by simp
qed simp

lemma response_calm:
  assumes ok: "net_ok U ns (Resp i ev # q)" and h: "handle ev (puller (ns ! i)) = Done (fx, p')"
  shows "calm (shelf ns) p' \<and> balanced (puller (ns ! i)) (pays ev) fx p' \<and> peers p' = peers (puller (ns ! i))
    \<and> got (mach p') = got (mach (puller (ns ! i))) |\<union>| fset_of_list (stores ev)"
proof -
  have m: "msg_ok ns (Resp i ev)" using ok by (rule net_okD) simp
  then have i: "i < length ns" and ev: "event_ok (shelf ns) ev" by simp_all
  have c: "calm (shelf ns) (puller (ns ! i))" using net_okD(3) [OF ok i] by (rule node_okD)
  have due: "d \<in> duties (puller (ns ! i))" if "d \<in> set (pays ev)" for d
    using that by (intro owed_duty [OF ok i]) simp
  have R: "shelves_ok (shelf ns)" using ok by (rule shelves_ok_shelf)
  show ?thesis
  proof (cases ev)
    case (CursorsResult p cs)
    from cursors_calm [OF R c due ev [unfolded CursorsResult event_ok.simps] h [unfolded CursorsResult]] CursorsResult
    show ?thesis by simp
  next
    case (OfferResult p b x refs t)
    from offered_calm [OF R c due ev [unfolded OfferResult event_ok.simps] h [unfolded OfferResult]] OfferResult
    show ?thesis by simp
  next
    case (FetchResult p b os)
    have "mset (pays ev) + (flying i q + waiting i ns) = mset_set (duties (puller (ns ! i)))"
      using net_okD(5) [OF ok i] by (simp add: ac_simps)
    then have "distinct (pays ev)" by (rule distinct_owed)
    moreover have "pays ev = map (Lease_of p) (map fst os)" by (simp add: FetchResult case_prod_beta comp_def)
    ultimately have "distinct (map fst os)" by (simp add: distinct_map del: map_map)
    moreover have "set (pays (FetchResult p b os)) \<subseteq> duties (puller (ns ! i))" using due FetchResult by blast
    ultimately show ?thesis
      using fetched_calm [OF c _ _ ev [unfolded FetchResult event_ok.simps] h [unfolded FetchResult]] by (simp add: FetchResult)
  qed (use ev in simp_all)
qed

lemma sim_feed_done:
  assumes "i < length (nodes s)"
  obtains fx p' where "handle ev (puller (nodes s ! i)) = Done (fx, p')"
    "sim_feed i ev s = Done (push (map (Req i) fx) (set_node i ((nodes s ! i)\<lparr>puller := p'\<rparr>) s))"
proof -
  obtain fx p' where "handle ev (puller (nodes s ! i)) = Done (fx, p')" using handle_done by blast
  with assms that show thesis by (simp add: sim_feed_def on_node_def)
qed

lemma response_ok:
  assumes ok: "net_ok U (nodes s) (Resp i ev # queue s)"
  shows "\<exists>t. sim_feed i ev s = Done t \<and> net_ok U (nodes t) (queue t) \<and> kept s t
    \<and> (\<forall>j < length (nodes s). index (nodes t ! j) = index (nodes s ! j)
         \<and> got (mach (puller (nodes t ! j))) =
             (if j = i then got (mach (puller (nodes s ! j))) |\<union>| fset_of_list (stores ev) else got (mach (puller (nodes s ! j)))))"
proof -
  have "msg_ok (nodes s) (Resp i ev)" using ok by (rule net_okD) simp
  then have i: "i < length (nodes s)" by simp
  from sim_feed_done [OF i] obtain fx p' where h: "handle ev (puller (nodes s ! i)) = Done (fx, p')"
    and t: "sim_feed i ev s = Done (push (map (Req i) fx) (set_node i ((nodes s ! i)\<lparr>puller := p'\<rparr>) s))" by blast
  note r = response_calm [OF ok h]
  have "net_ok U ((nodes s)[i := (nodes s ! i)\<lparr>puller := p'\<rparr>]) (queue s @ map (Req i) fx)"
    using r ok node_okD(2) [OF net_okD(3) [OF ok i]] i
    by (intro answered_ok [where ms = "[Resp i ev]"]) (simp_all add: balanced_def)
  then show ?thesis using t r i by (simp add: kept_def push_def set_node_def nth_list_update)
qed

lemma seen_ok:
  assumes ok: "net_ok U (nodes s) (queue s)" and i: "i < length (nodes s)" and p: "unat p < length (nodes s)"
  shows "\<exists>t. sim_feed i (PeerSeen p) s = Done t \<and> net_ok U (nodes t) (queue t) \<and> length (nodes t) = length (nodes s)
    \<and> (\<forall>j < length (nodes s). index (nodes t ! j) = index (nodes s ! j)
         \<and> got (mach (puller (nodes t ! j))) = got (mach (puller (nodes s ! j)))
         \<and> peers (puller (nodes t ! j)) =
             (if j = i then finsert p (peers (puller (nodes s ! j))) else peers (puller (nodes s ! j))))"
proof -
  from sim_feed_done [OF i] obtain fx p' where h: "handle (PeerSeen p) (puller (nodes s ! i)) = Done (fx, p')"
    and t: "sim_feed i (PeerSeen p) s = Done (push (map (Req i) fx) (set_node i ((nodes s ! i)\<lparr>puller := p'\<rparr>) s))" by blast
  have "calm (shelf (nodes s)) (puller (nodes s ! i))" using net_okD(3) [OF ok i] by (rule node_okD)
  note r = seen_calm [OF this h]
  have "net_ok U ((nodes s)[i := (nodes s ! i)\<lparr>puller := p'\<rparr>]) (queue s @ map (Req i) fx)"
    using r ok node_okD(2) [OF net_okD(3) [OF ok i]] i p
    by (intro answered_ok [where ms = "[]"]) (auto simp: balanced_def)
  then show ?thesis using t r i by (simp add: push_def set_node_def nth_list_update)
qed

subsection \<open>A server answers\<close>

lemma replaced_ok:
  assumes ok: "net_ok U ns (m # q)" and "msg_ok ns m'" and "\<And>i. msg_duties i m' = msg_duties i m"
  shows "net_ok U ns (q @ [m'])"
proof -
  have "flying i (q @ [m']) + waiting i ns = mset_set (duties (puller (ns ! i)))" if "i < length ns" for i
    using net_okD(5) [OF ok that] assms(3) by (simp add: ac_simps)
  moreover have "msg_ok ns x" if "x \<in> set (q @ [m'])" for x
    using that net_okD(4) [OF ok, of x] assms(2) by auto
  ultimately show ?thesis using net_okD(1-3) [OF ok] by (simp add: net_ok_def)
qed

lemma dropped_ok:
  assumes ok: "net_ok U ns (m # q)" and "\<And>i. msg_duties i m = []"
  shows "net_ok U ns q"
proof -
  have "flying i q + waiting i ns = mset_set (duties (puller (ns ! i)))" if "i < length ns" for i
    using net_okD(5) [OF ok that] assms(2) by simp
  then show ?thesis using net_okD(1-4) [OF ok] by (simp add: net_ok_def)
qed

lemma fetch_outcomes_spec:
  assumes "ws = [] \<or> j < length (nodes s)"
  shows "\<exists>os t. fetch_outcomes j ws s = Done (os, t) \<and> map fst os = ws \<and> Rejected \<notin> snd ` set os
    \<and> nodes t = nodes s \<and> queue t = queue s \<and> steps t = steps s"
  using assms
proof (induction ws arbitrary: s)
  case (Cons c ws)
  then have j: "j < length (nodes s)" by simp
  have rest: "\<exists>os t. fetch_outcomes j ws u = Done (os, t) \<and> map fst os = ws \<and> Rejected \<notin> snd ` set os
      \<and> nodes t = nodes s \<and> queue t = queue s \<and> steps t = steps s"
    if "nodes u = nodes s" "queue u = queue s" "steps u = steps s" for u
    using Cons.IH [of u] j that by simp
  define n drawn s1 where "n = nodes s ! j" and "drawn = (\<not> byzantine n \<and> 0 < spurious_budget s)"
    and "s1 = (if drawn then s\<lparr>rng := snd (splitmix (rng s))\<rparr> else s)"
  define E where "E = (if byzantine n then (Missed, s1)
      else if drawn \<and> fst (splitmix (rng s)) mod 4 = 0 then (Missed, s1\<lparr>spurious_budget := spurious_budget s1 - 1\<rparr>)
      else if c |\<notin>| index n then (Missed, s1)
      else (Delivered, s1\<lparr>served := (served s1)[j := served s1 ! j + 1]\<rparr>))"
  have step: "fetch_outcomes j (c # ws) s = bind_exec (fetch_outcomes j ws (snd E)) (\<lambda>(os, s3). Done ((c, fst E) # os, s3))"
    using j by (simp add: on_node_def Let_def case_prod_beta E_def s1_def drawn_def n_def)
  have "fst E \<noteq> Rejected" "nodes (snd E) = nodes s" "queue (snd E) = queue s" "steps (snd E) = steps s"
    by (simp_all add: E_def s1_def)
  from rest [OF this(2-4)] this(1) show ?case unfolding step by force
qed simp

end
