(* ===== verification/Sim_Steps.thy ===== *)
theory Sim_Steps
  imports Sim_Inv
begin

section \<open>The steps of a simulation\<close>

text \<open>A chunk stored at a node, a message delivered, a step drawn: each ends and keeps the invariant.\<close>

declare split_paired_All [simp del] split_paired_Ex [simp del]

subsection \<open>A chunk is stored\<close>

lemma page_grown:
  assumes "page (R p b) x refs t" and g: "grown R S"
  shows "page (S p b) x refs t"
proof -
  have keep: "fmlookup (S p b) y = Some c" if "fmlookup (R p b) y = Some c" for y c using g that by (simp add: grown_def)
  have t: "t |\<in>| fmdom (R p b)" using assms(1) by (simp add: page_def)
  have old: "fmlookup (R p b) y = Some c" if "fmlookup (S p b) y = Some c" "y \<le> t" for y c
  proof (cases "fmlookup (R p b) y")
    case None
    have "y |\<in>| fmdom (S p b)" "y |\<notin>| fmdom (R p b)" using that(1) None by (auto intro: fmdomI fmdom_notI)
    with g t have "t < y" unfolding grown_def by blast
    with that(2) show ?thesis by simp
  qed (use keep that in simp)
  have "{(y, c). fmlookup (R p b) y = Some c \<and> x \<le> y \<and> y \<le> t} = {(y, c). fmlookup (S p b) y = Some c \<and> x \<le> y \<and> y \<le> t}"
    using keep old by blast
  moreover have "t |\<in>| fmdom (S p b)" using t keep by (auto simp: fmlookup_dom_iff)
  ultimately show ?thesis using assms(1) by (simp add: page_def)
qed

lemma msg_ok_grown:
  assumes "msg_ok ns m" and "length ns' = length ns" and "grown (shelf ns) (shelf ns')"
  shows "msg_ok ns' m"
proof -
  have "event_ok (shelf ns') ev" if "event_ok (shelf ns) ev" for ev
    using that page_grown [OF _ assms(3)] by (cases ev) simp_all
  with assms show ?thesis by (cases m) simp_all
qed

lemma append_grown:
  assumes ok: "server_ok U (ns ! i)" and U: "fcard U < 2 ^ 32" and c: "c |\<notin>| index (ns ! i)" "c |\<in>| U" and i: "i < length ns"
    and n: "reserve n = reserve (append_entry c (ns ! i))"
  shows "grown (shelf ns) (shelf (ns[i := n]))"
proof -
  note app = sim_head_append [OF ok U c]
  have other: "shelf (ns[i := n]) p = shelf ns p" if "unat p \<noteq> i" for p
    using that by (simp add: shelf_def nth_list_update)
  have this_one: "shelf (ns[i := n]) p b = bin_shelf (append_entry c (ns ! i)) b" "shelf ns p b = bin_shelf (ns ! i) b"
    if "unat p = i" for p b
    using that i n by (simp_all add: shelf_def bin_shelf_def)
  have old: "y < sim_head (ns ! i) (sim_bin_of c) + 1" if "y |\<in>| fmdom (bin_shelf (ns ! i) (sim_bin_of c))" for y
    using head_spec(1) [OF that] app(1) by (rule le_less_trans)
  show ?thesis
    unfolding grown_def
  proof (intro conjI allI impI)
    fix p b x d assume d: "fmlookup (shelf ns p b) x = Some d"
    show "fmlookup (shelf (ns[i := n]) p b) x = Some d"
    proof (cases "unat p = i")
      case True
      then show ?thesis using d old [of x] by (auto simp: this_one app(3) fmdomI)
    qed (use d in \<open>simp add: other\<close>)
  next
    fix p b x y assume x: "x |\<in>| fmdom (shelf (ns[i := n]) p b)" "x |\<notin>| fmdom (shelf ns p b)"
    then have p: "unat p = i" using other by metis
    with x have b: "b = sim_bin_of c" and x': "x = sim_head (ns ! i) (sim_bin_of c) + 1"
      by (auto simp: this_one app(3) split: if_splits)
    show "0 < x" using app(1) word_zero_le unfolding x' by (rule le_less_trans [rotated])
    show "y < x" if "y |\<in>| fmdom (shelf ns p b)" using that p b old x' by (simp add: this_one)
  qed
qed

text \<open>Parked offers that are answered move from the node to the queue, obligation by obligation.\<close>

lemma answered_parked:
  assumes "\<And>r b x. (r, b, x) \<in> set ps \<Longrightarrow> P (r, b, x) \<Longrightarrow> pays (g b x) = [Stream_of (peer_id i) b x]"
  shows "mset (map (\<lambda>(_, b, x). Stream_of (peer_id i) b x) (filter (\<lambda>(r, _). r = j) (filter (\<lambda>e. \<not> P e) ps)))
     + flying j (map (\<lambda>(r, b, x). Resp r (g b x)) (filter P ps))
   = mset (map (\<lambda>(_, b, x). Stream_of (peer_id i) b x) (filter (\<lambda>(r, _). r = j) ps))"
  using assms
proof (induction ps)
  case (Cons e ps)
  obtain r b x where e: "e = (r, b, x)" by (metis prod.exhaust)
  have "mset (map (\<lambda>(_, b, x). Stream_of (peer_id i) b x) (filter (\<lambda>(r, _). r = j) (filter (\<lambda>e. \<not> P e) ps)))
     + flying j (map (\<lambda>(r, b, x). Resp r (g b x)) (filter P ps))
   = mset (map (\<lambda>(_, b, x). Stream_of (peer_id i) b x) (filter (\<lambda>(r, _). r = j) ps))"
    by (rule Cons.IH) (use Cons.prems in auto)
  then show ?case using Cons.prems [of r b x] by (cases "P e"; cases "r = j") (simp_all add: e del: mset_map mset_filter)
qed simp

lemma store_ok:
  assumes ok: "net_ok U (nodes s) (queue s)" and i: "i < length (nodes s)" and c: "c |\<in>| U"
  shows "\<exists>t. sim_store i c s = Done t \<and> net_ok U (nodes t) (queue t) \<and> length (nodes t) = length (nodes s)
    \<and> (\<forall>j < length (nodes s). puller (nodes t ! j) = puller (nodes s ! j)
         \<and> index (nodes t ! j) = (if j = i then finsert c (index (nodes s ! j)) else index (nodes s ! j)))"
proof (cases "c |\<in>| index (nodes s ! i)")
  case True
  with i have "sim_store i c s = Done s" by (simp add: sim_store_def on_node_def)
  with ok True show ?thesis by (auto simp: finsert_absorb)
next
  case False
  let ?ns = "nodes s"
  define n where "n = ?ns ! i"
  define b0 where "b0 = sim_bin_of c"
  define P where "P = (\<lambda>(r :: nat, b, x). b = b0 \<and> x \<le> sim_head n b0 + 1)"
  define n2 where "n2 = (append_entry c n)\<lparr>parked := filter (\<lambda>e. \<not> P e) (parked n)\<rparr>"
  let ?ns' = "?ns[i := n2]"
  let ?out = "map (\<lambda>(r, b, x). Resp r (offer_response i b x n2)) (filter P (parked n))"
  have nok: "node_ok U ?ns i" using ok i by (rule net_okD(3))
  have srv: "server_ok U n" using node_okD(3) [OF nok] by (simp add: n_def)
  have U: "fcard U < 2 ^ 32" using ok by (rule net_okD)
  have new: "c |\<notin>| index n" using False by (simp add: n_def)
  note app = sim_head_append [OF srv U new c, folded b0_def]
  have same: "parked (append_entry c n) = parked n" "puller (append_entry c n) = puller n" "index (append_entry c n) = finsert c (index n)"
    by (simp_all add: append_entry_def Let_def)
  have head2: "sim_head n2 b = (if b = b0 then sim_head n b0 + 1 else sim_head n b)" for b
  proof -
    have "sim_head n2 b = sim_head (append_entry c n) b" by (simp add: sim_head_def n2_def)
    then show ?thesis by (simp add: app(4))
  qed
  have store: "sim_store i c s = Done (push ?out (set_node i n2 s))"
  proof -
    have "filter (\<lambda>(_, b, start). b = b0 \<and> start \<le> sim_head (append_entry c n) b0) (parked n) = filter P (parked n)"
      by (rule filter_cong) (auto simp: P_def app(4))
    moreover have "filter (\<lambda>(_, b, start). \<not> (b = b0 \<and> start \<le> sim_head n b0 + 1)) (parked n) = filter (\<lambda>e. \<not> P e) (parked n)"
      by (rule filter_cong) (auto simp: P_def)
    ultimately show ?thesis
      using i new by (simp add: sim_store_def on_node_def Let_def n2_def same flip: n_def b0_def)
  qed
  have grow: "grown (shelf ?ns) (shelf ?ns')"
    by (rule append_grown) (use srv U new c i in \<open>simp_all add: n_def n2_def\<close>)
  have answer: "\<exists>refs t. offer_response i b x n2 = OfferResult (peer_id i) b x refs t \<and> page (bin_shelf n2 b) x refs t"
    if "(r, b, x) \<in> set (parked n)" "P (r, b, x)" for r b x
  proof -
    have "sim_head n b < x" using node_okD(4) [OF nok] that(1) by (simp add: n_def)
    then have "0 < x" using word_zero_le by (rule le_less_trans [rotated])
    moreover have "x \<le> sim_head n2 b" using that(2) by (simp add: P_def head2)
    ultimately show ?thesis using offer_response_page [of x n2 b i] by metis
  qed
  have unat_i: "unat (peer_id i) = i" using net_okD(1) [OF ok] i by (simp add: unat_peer_id)
  have "node_ok U ?ns' j" if "j < length ?ns" for j
  proof -
    note okj = node_okD [OF net_okD(3) [OF ok that]]
    have p: "puller (?ns' ! j) = puller (?ns ! j)" using same(2) that i by (auto simp: nth_list_update n2_def n_def)
    have "server_ok U (?ns' ! j)"
      using okj(3) app(5) that i by (auto simp: nth_list_update server_ok_def n2_def bin_shelf_def)
    moreover have "r < length ?ns' \<and> sim_head (?ns' ! j) b < x" if "(r, b, x) \<in> set (parked (?ns' ! j))" for r b x
    proof (cases "j = i")
      case True
      with that i have "(r, b, x) \<in> set (parked n)" "\<not> P (r, b, x)" by (simp_all add: n2_def)
      with node_okD(4) [OF nok, of r b x] True i show ?thesis by (auto simp: n_def P_def head2)
    qed (use that okj(4) in simp)
    ultimately show ?thesis using okj(1,2) calm_grown [OF okj(1) grow] by (simp add: node_ok_def p)
  qed
  moreover have "msg_ok ?ns' m" if "m \<in> set (queue s @ ?out)" for m
  proof (cases "m \<in> set (queue s)")
    case True
    then show ?thesis by (intro msg_ok_grown [OF net_okD(4) [OF ok True] _ grow]) simp
  next
    case False
    with that obtain r b x where e: "(r, b, x) \<in> set (parked n)" "P (r, b, x)" and m: "m = Resp r (offer_response i b x n2)" by auto
    from answer [OF e] obtain refs t where "offer_response i b x n2 = OfferResult (peer_id i) b x refs t"
      "page (bin_shelf n2 b) x refs t" by blast
    moreover have "r < length ?ns" using node_okD(4) [OF nok] e(1) by (simp add: n_def)
    ultimately show ?thesis using i by (simp add: m shelf_def unat_i)
  qed
  moreover have "flying j (queue s @ ?out) + waiting j ?ns' = mset_set (duties (puller (?ns' ! j)))" if j: "j < length ?ns" for j
  proof -
    have "mset (parked_duties j i n2) + flying j ?out = mset (parked_duties j i n)"
      unfolding parked_duties_def n2_def
      using answered_parked [of "parked n" P "\<lambda>b x. offer_response i b x n2" i j] answer n2_def by fastforce
    then have "waiting j ?ns' + flying j ?out = waiting j ?ns"
      using waiting_update [OF i, of j n2 "flying j ?out" "{#}"] by (simp add: n_def)
    moreover have "puller (?ns' ! j) = puller (?ns ! j)" using same(2) j i by (auto simp: nth_list_update n2_def n_def)
    ultimately show ?thesis using net_okD(5) [OF ok j] by (simp add: ac_simps)
  qed
  ultimately have "net_ok U ?ns' (queue s @ ?out)"
    using net_okD(1,2) [OF ok] by (simp add: net_ok_def)
  moreover have "index n2 = finsert c (index n)" "puller n2 = puller n" by (simp_all add: n2_def same)
  ultimately show ?thesis
    unfolding store using i by (simp add: push_def set_node_def nth_list_update n_def)
qed

lemma stores_ok:
  assumes "net_ok U (nodes s) (queue s)" and "i < length (nodes s)" and "\<forall>c \<in> set cs. c |\<in>| U"
  shows "\<exists>t. sim_each (sim_store i) cs s = Done t \<and> net_ok U (nodes t) (queue t) \<and> length (nodes t) = length (nodes s)
    \<and> (\<forall>j < length (nodes s). puller (nodes t ! j) = puller (nodes s ! j)
         \<and> index (nodes t ! j) = (if j = i then index (nodes s ! j) |\<union>| fset_of_list cs else index (nodes s ! j)))"
  using assms
proof (induction cs arbitrary: s)
  case (Cons c cs)
  from store_ok [OF Cons.prems(1,2), of c] Cons.prems(3) obtain u where
    u: "sim_store i c s = Done u" "net_ok U (nodes u) (queue u)" "length (nodes u) = length (nodes s)"
    "\<forall>j < length (nodes s). puller (nodes u ! j) = puller (nodes s ! j)
         \<and> index (nodes u ! j) = (if j = i then finsert c (index (nodes s ! j)) else index (nodes s ! j))" by auto
  from Cons.IH [OF u(2)] Cons.prems u(3) obtain t where
    "sim_each (sim_store i) cs u = Done t" "net_ok U (nodes t) (queue t)" "length (nodes t) = length (nodes u)"
    "\<forall>j < length (nodes u). puller (nodes t ! j) = puller (nodes u ! j)
         \<and> index (nodes t ! j) = (if j = i then index (nodes u ! j) |\<union>| fset_of_list cs else index (nodes u ! j))" by auto
  with u show ?case by (intro exI [of _ t]) auto
qed auto

subsection \<open>A message is delivered\<close>

text \<open>Nodes only gain chunks, and see the same peers.\<close>

definition grew :: "sim \<Rightarrow> sim \<Rightarrow> bool" where
  "grew s t \<longleftrightarrow> kept s t \<and> (\<forall>j < length (nodes s). index (nodes s ! j) |\<subseteq>| index (nodes t ! j))"

lemma grew_same: "nodes t = nodes s \<Longrightarrow> grew s t"
  by (simp add: grew_def kept_def)

lemma grew_trans: "grew s t \<Longrightarrow> grew t u \<Longrightarrow> grew s u"
  unfolding grew_def by (metis kept_def kept_trans order_trans)

definition sim_inv :: "triple fset \<Rightarrow> sim \<Rightarrow> bool" where
  "sim_inv U s \<longleftrightarrow> net_ok U (nodes s) (queue s) \<and> in_sync (nodes s)"

definition serves :: "triple fset \<Rightarrow> msg \<Rightarrow> sim \<Rightarrow> bool" where
  "serves U m s \<longleftrightarrow> (\<exists>t. sim_deliver m s = Done t \<and> sim_inv U t \<and> grew s t)"

lemma request_peer:
  assumes ok: "net_ok U ns (Req i e # q)" and d: "d \<in> set (asks e)"
  shows "d \<in> duties (puller (ns ! i))" "i < length ns" "follows (shelf ns) (puller (ns ! i))"
proof -
  have "msg_ok ns (Req i e)" using ok by (rule net_okD) simp
  then show i: "i < length ns" by simp
  show "d \<in> duties (puller (ns ! i))" using d by (intro owed_duty [OF ok i]) simp
  show "follows (shelf ns) (puller (ns ! i))" using net_okD(3) [OF ok i] by (intro calm_follows node_okD)
qed

lemma served_peer: "net_ok U ns q \<Longrightarrow> i < length ns \<Longrightarrow> p |\<in>| peers (puller (ns ! i)) \<Longrightarrow> unat p < length ns"
  using net_okD(3) node_okD(2) by blast

lemma serves_cursors:
  assumes inv: "net_ok U (nodes s) (Req i (GetCursors p) # queue s)" and sy: "in_sync (nodes s)"
  shows "serves U (Req i (GetCursors p)) s"
proof -
  have due: "Cursors_of p \<in> duties (puller (nodes s ! i))" and i: "i < length (nodes s)"
    and f: "follows (shelf (nodes s)) (puller (nodes s ! i))" using request_peer [OF inv] by simp_all
  then have "unat p < length (nodes s)" using served_peer [OF inv i duty_peer(1) [OF f]] by blast
  moreover have "net_ok U (nodes s) (queue s @ [Resp i (CursorsResult p (map (\<lambda>b. (b, sim_head (nodes s ! unat p) b)) bins))])"
    using i by (intro replaced_ok [OF inv]) (simp_all add: comp_def)
  ultimately show ?thesis
    using sy by (simp add: serves_def sim_inv_def on_node_def push_def grew_same)
qed

lemma serves_offer:
  assumes inv: "net_ok U (nodes s) (Req i (Offer p b x) # queue s)" and sy: "in_sync (nodes s)"
  shows "serves U (Req i (Offer p b x)) s"
proof -
  let ?ns = "nodes s"
  have due: "Stream_of p b x \<in> duties (puller (?ns ! i))" and i: "i < length ?ns"
    and f: "follows (shelf ?ns) (puller (?ns ! i))" using request_peer [OF inv] by simp_all
  have x: "0 < x" and j: "unat p < length ?ns" using duty_peer(2) [OF f due] served_peer [OF inv i] by blast+
  let ?j = "unat p" let ?n = "?ns ! ?j"
  show ?thesis
  proof (cases "x \<le> sim_head ?n b")
    case True
    from offer_response_page [OF this x] obtain refs t where
      r: "offer_response ?j b x ?n = OfferResult p b x refs t" "page (bin_shelf ?n b) x refs t" by (metis peer_id_unat)
    have "net_ok U ?ns (queue s @ [Resp i (offer_response ?j b x ?n)])"
      using i j r by (intro replaced_ok [OF inv]) (simp_all add: shelf_def)
    then show ?thesis using True j sy by (simp add: serves_def sim_inv_def on_node_def push_def grew_same)
  next
    case False
    let ?n' = "?n\<lparr>parked := parked ?n @ [(i, b, x)]\<rparr>" let ?ns' = "?ns[?j := ?n']"
    have sh: "shelf ?ns' = shelf ?ns" using j by (intro shelf_same) simp_all
    have look: "puller (?ns' ! k) = puller (?ns ! k)" "index (?ns' ! k) = index (?ns ! k)" "reserve (?ns' ! k) = reserve (?ns ! k)"
      if "k < length ?ns" for k using that j by (auto simp: nth_list_update)
    have "node_ok U ?ns' k" if k: "k < length ?ns" for k
    proof -
      note okk = node_okD [OF net_okD(3) [OF inv k]]
      have heads: "sim_head (?ns' ! k) b' = sim_head (?ns ! k) b'" for b' by (simp add: sim_head_def look(3) [OF k])
      have "r < length ?ns' \<and> sim_head (?ns' ! k) b' < y" if "(r, b', y) \<in> set (parked (?ns' ! k))" for r b' y
        using that okk(4) [of r b' y] False i k unfolding heads by (cases "k = ?j") (auto simp: not_le)
      moreover have "server_ok U (?ns' ! k)" using okk(3) by (simp add: server_ok_def bin_shelf_def look [OF k])
      ultimately show ?thesis using okk(1,2) by (simp add: node_ok_def look [OF k] sh)
    qed
    moreover have "msg_ok ?ns' m" if "m \<in> set (queue s)" for m
      using that net_okD(4) [OF inv, of m] msg_ok_same [of ?ns' ?ns m, OF _ sh] by simp
    moreover have "flying k (queue s) + waiting k ?ns' = mset_set (duties (puller (?ns' ! k)))" if k: "k < length ?ns" for k
    proof -
      have "waiting k ?ns' + {#} = waiting k ?ns + flying k [Req i (Offer p b x)]"
        using j by (intro waiting_update) (simp_all add: parked_duties_def)
      then show ?thesis using net_okD(5) [OF inv k] look(1) [OF k] by (simp add: ac_simps)
    qed
    ultimately have "net_ok U ?ns' (queue s)" using net_okD(1,2) [OF inv] by (simp add: net_ok_def)
    moreover have "in_sync ?ns'" using sy look by (simp add: in_sync_def)
    moreover have "grew s (set_node ?j ?n' s)" using look by (simp add: grew_def kept_def set_node_def)
    ultimately show ?thesis using False j by (simp add: serves_def sim_inv_def on_node_def set_node_def)
  qed
qed

lemma serves_fetch:
  assumes inv: "net_ok U (nodes s) (Req i (Fetch p b ws) # queue s)" and sy: "in_sync (nodes s)"
  shows "serves U (Req i (Fetch p b ws)) s"
proof -
  have "msg_ok (nodes s) (Req i (Fetch p b ws))" using inv by (rule net_okD) simp
  then have i: "i < length (nodes s)" by simp
  have "ws = [] \<or> unat p < length (nodes s)"
  proof (cases ws)
    case (Cons c cs)
    then have "Lease_of p c \<in> set (asks (Fetch p b ws))" by simp
    note req = request_peer [OF inv this]
    show ?thesis using duty_peer(3) [OF req(3,1)] served_peer [OF inv i] by blast
  qed simp
  from fetch_outcomes_spec [OF this] obtain os t where t: "fetch_outcomes (unat p) ws s = Done (os, t)"
    "map fst os = ws" "Rejected \<notin> snd ` set os" "nodes t = nodes s" "queue t = queue s" by blast
  have "pays (FetchResult p b os) = map (Lease_of p) (map fst os)" by (simp add: case_prod_beta comp_def)
  then have "net_ok U (nodes s) (queue s @ [Resp i (FetchResult p b os)])"
    using i t by (intro replaced_ok [OF inv]) (simp_all del: map_map)
  then show ?thesis using t sy by (simp add: serves_def sim_inv_def push_def grew_same)
qed

lemma serves_response:
  assumes inv: "net_ok U (nodes s) (Resp i ev # queue s)" and sy: "in_sync (nodes s)"
  shows "serves U (Resp i ev) s"
proof -
  have "msg_ok (nodes s) (Resp i ev)" using inv by (rule net_okD) simp
  then have i: "i < length (nodes s)" by simp
  from response_ok [OF inv] obtain u where u: "sim_feed i ev s = Done u" "net_ok U (nodes u) (queue u)" "kept s u"
    and look: "\<forall>j < length (nodes s). index (nodes u ! j) = index (nodes s ! j)
         \<and> got (mach (puller (nodes u ! j))) =
             (if j = i then got (mach (puller (nodes s ! j))) |\<union>| fset_of_list (stores ev) else got (mach (puller (nodes s ! j))))"
    by blast
  have len: "length (nodes u) = length (nodes s)" using u(3) by (simp add: kept_def)
  have "c |\<in>| U" if c: "c \<in> set (stores ev)" for c
  proof -
    from c obtain p b os where ev: "ev = FetchResult p b os" by (cases ev) auto
    with c have "Lease_of p c \<in> set (pays ev)" by (force simp: delivered_def)
    then have due: "Lease_of p c \<in> duties (puller (nodes s ! i))" by (intro owed_duty [OF inv i]) simp
    have "follows (shelf (nodes s)) (puller (nodes s ! i))" using net_okD(3) [OF inv i] by (intro calm_follows node_okD)
    from duty_peer(3) [OF this due] have "shelved (shelf (nodes s)) p c" by blast
    then obtain y b' where y: "fmlookup (shelf (nodes s) p b') y = Some c" by (auto simp: shelved_def)
    then have p: "unat p < length (nodes s)" by (auto simp: shelf_def split: if_splits)
    have "server_ok U (nodes s ! unat p)" using net_okD(3) [OF inv p] by (rule node_okD)
    from server_okD(1,2) [OF this] y p show ?thesis by (auto simp: shelf_def)
  qed
  with stores_ok [OF u(2), of i "stores ev"] i len obtain t where
    t: "sim_each (sim_store i) (stores ev) u = Done t" "net_ok U (nodes t) (queue t)" "length (nodes t) = length (nodes s)"
    and look': "\<forall>j < length (nodes s). puller (nodes t ! j) = puller (nodes u ! j)
         \<and> index (nodes t ! j) = (if j = i then index (nodes u ! j) |\<union>| fset_of_list (stores ev) else index (nodes u ! j))"
    by auto
  have "(case ev of FetchResult _ _ os \<Rightarrow> map fst (filter (\<lambda>(_, out). out = Delivered) os) | _ \<Rightarrow> []) = stores ev"
    by (cases ev) (simp_all add: delivered_def)
  then have "sim_deliver (Resp i ev) s = Done t" using u(1) t(1) by simp
  moreover have "in_sync (nodes t)" using sy t(3) look look' by (simp add: in_sync_def)
  moreover have "grew s t" using u(3) t(3) look look' by (auto simp: grew_def kept_def)
  ultimately show ?thesis using t(2) by (simp add: serves_def sim_inv_def)
qed

lemma deliver_ok:
  assumes "net_ok U (nodes s) (m # queue s)" and "in_sync (nodes s)"
  shows "serves U m s"
proof (cases m)
  case (Req i e)
  show ?thesis
  proof (cases e)
    case (Settled p b u)
    then have "net_ok U (nodes s) (queue s)" using assms(1) Req by (intro dropped_ok [OF assms(1)]) simp
    then show ?thesis using assms(2) Req Settled by (simp add: serves_def sim_inv_def grew_same)
  qed (use assms Req in \<open>auto intro: serves_cursors serves_offer serves_fetch\<close>)
qed (use assms in \<open>auto intro: serves_response\<close>)

subsection \<open>A step\<close>

lemma mset_swap_remove: "i < length xs \<Longrightarrow> mset (xs ! i # swap_remove i xs) = mset xs"
proof -
  assume i: "i < length xs"
  then obtain ys y where xs: "xs = ys @ [y]" by (cases xs rule: rev_cases) auto
  show ?thesis
  proof (cases "i = length ys")
    case False
    then have "i < length ys" using i xs by simp
    then show ?thesis using mset_update [of i ys y] by (simp add: xs swap_remove_def nth_append mset_update)
  qed (simp add: xs swap_remove_def)
qed

lemma unat_mod_of_nat: "0 < k \<Longrightarrow> unat (z mod (of_nat k :: u64)) < k"
proof -
  assume k: "0 < k"
  show ?thesis
  proof (cases "(of_nat k :: u64) = 0")
    case True
    then have "2 ^ 64 \<le> k" using k by (simp add: of_nat_eq_0_iff word_of_nat_eq_0_iff dvd_imp_le)
    then show ?thesis using unsigned_less [of z, where ?'a = nat] True by simp
  next
    case False
    then have "z mod of_nat k < (of_nat k :: u64)" by (rule word_mod_less_divisor [unfolded word_neq_0_conv [symmetric]])
    then have "unat (z mod of_nat k) < unat (of_nat k :: u64)" by (simp add: word_less_nat_alt)
    also have "\<dots> \<le> k" by (simp add: unat_of_nat)
    finally show ?thesis .
  qed
qed

lemma pool_range:
  assumes "queue s \<noteq> []"
  shows "pool s \<noteq> []" and "i \<in> set (pool s) \<Longrightarrow> i < length (queue s)"
  using assms by (auto simp: pool_def Let_def split: if_splits)

lemma step_ok:
  assumes inv: "sim_inv U s" and q: "queue s \<noteq> []" and st: "steps s + 1 < 2000000"
  shows "\<exists>t. sim_step s = Done (True, t) \<and> sim_inv U t \<and> grew s t"
proof -
  obtain z r where z: "splitmix (rng s) = (z, r)" by fastforce
  define i where "i = pool s ! unat (z mod of_nat (length (pool s)))"
  define s1 where "s1 = s\<lparr>steps := steps s + 1, rng := r, queue := swap_remove i (queue s)\<rparr>"
  have "i \<in> set (pool s)" unfolding i_def using pool_range(1) [OF q] by (intro nth_mem unat_mod_of_nat) simp
  then have i: "i < length (queue s)" using pool_range(2) [OF q] by blast
  have "net_ok U (nodes s1) (queue s ! i # queue s1)"
    using inv mset_swap_remove [OF i] by (auto simp: s1_def sim_inv_def intro: net_ok_cong)
  moreover have "in_sync (nodes s1)" using inv by (simp add: s1_def sim_inv_def)
  ultimately obtain t where t: "sim_deliver (queue s ! i) s1 = Done t" "sim_inv U t" "grew s1 t"
    using deliver_ok unfolding serves_def by blast
  have "sim_step s = Done (True, t)" using q st z t(1) by (simp add: sim_step_def Let_def i_def s1_def)
  moreover have "grew s t" using t(3) by (simp add: grew_def kept_def s1_def)
  ultimately show ?thesis using t(2) by blast
qed

end
