(* ===== verification/Sim_Props.thy ===== *)
theory Sim_Props
  imports Sim_Steps
begin

section \<open>A simulation that falls silent has converged\<close>

text \<open>
  Seeds, a start over the full mesh or the ring, then steps in any order, fresh arrivals and injected
  misses at any moment: no node panics or breaks an invariant on the way, and when the queue is empty
  every node holds every chunk.
\<close>

declare split_paired_All [simp del] split_paired_Ex [simp del]

subsection \<open>Runs\<close>

definition sim_begin :: "triple fset \<Rightarrow> sim \<Rightarrow> bool" where
  "sim_begin U s \<longleftrightarrow> (\<exists>k byz sd pol seeds s0 s1. k \<le> 256 \<and> 0 < window pol \<and> fcard U < 2 ^ 32
     \<and> (\<forall>(i, c) \<in> set seeds. i < k \<and> c |\<in>| U)
     \<and> sim_each (\<lambda>(i, c). sim_seed i c) seeds (sim_with_policy k byz sd pol) = Done s0
     \<and> s1 \<in> {s0, staggered s0}
     \<and> (sim_start s1 = Done s \<or> (\<exists>f > 0. start_ring f s1 = Done s)))"

inductive sim_move :: "triple fset \<Rightarrow> sim \<Rightarrow> sim \<Rightarrow> bool" for U where
  stepped: "sim_step s = Done (True, t) \<Longrightarrow> sim_move U s t"
| arrived: "sim_arrive i c s = Done t \<Longrightarrow> i < length (nodes s) \<Longrightarrow> c |\<in>| U \<Longrightarrow>
    (\<forall>j < length (nodes s). c |\<notin>| index (nodes s ! j)) \<Longrightarrow> sim_move U s t"
| lossy: "sim_move U s (s\<lparr>spurious_budget := b\<rparr>)"

inductive_cases sim_moveE: "sim_move U s t"

lemma sim_each_rule:
  assumes "P [] s" and "\<And>ks x rest t. xs = ks @ x # rest \<Longrightarrow> P ks t \<Longrightarrow> \<exists>u. f x t = Done u \<and> P (ks @ [x]) u"
  shows "\<exists>t. sim_each f xs s = Done t \<and> P xs t"
proof -
  have "\<exists>u. sim_each f rest t = Done u \<and> P xs u" if "xs = ks @ rest" "P ks t" for ks rest t
    using that
  proof (induction rest arbitrary: ks t)
    case (Cons x rest)
    from assms(2) [OF Cons.prems] obtain u where u: "f x t = Done u" "P (ks @ [x]) u" by blast
    from Cons.IH [OF _ u(2)] Cons.prems(1) u(1) show ?case by simp
  qed simp
  from this [of "[]" xs s] assms(1) show ?thesis by simp
qed

subsection \<open>The start\<close>

lemma preloaded_ok:
  assumes ok: "net_ok U ns q" and i: "i < length ns"
    and fresh: "\<And>p. p |\<in>| peers (puller (ns ! i)) \<Longrightarrow> \<not> shelved (shelf ns) p c"
  shows "net_ok U (ns[i := (ns ! i)\<lparr>puller := snd (Node_preload c (puller (ns ! i)))\<rparr>]) q"
proof -
  have "calm (shelf ns) (puller (ns ! i))" using net_okD(3) [OF ok i] by (rule node_okD)
  from preload_calm [OF this fresh] answered_ok [of U ns "[]" q i "snd (Node_preload c (puller (ns ! i)))" "[]"]
    ok i node_okD(2) [OF net_okD(3) [OF ok i]]
  show ?thesis by simp
qed

lemma preload_frame [simp]: "got (mach (snd (Node_preload c p))) = finsert c (got (mach p))" "peers (snd (Node_preload c p)) = peers p"
  by (auto simp: Node_preload_def preload_def Let_def)

definition lonely :: "sim \<Rightarrow> bool" where
  "lonely s \<longleftrightarrow> (\<forall>i < length (nodes s). peers (puller (nodes s ! i)) = {||})"

lemma created_ok:
  assumes "k \<le> 256" "0 < window pol" "fcard U < 2 ^ 32"
  shows "sim_inv U (sim_with_policy k byz sd pol) \<and> lonely (sim_with_policy k byz sd pol)"
proof -
  let ?s = "sim_with_policy k byz sd pol"
  let ?p = "with_policy PRODUCTION RADIUS pol"
  have node: "nodes ?s ! i = \<lparr>puller = ?p, byzantine = i \<in> set byz, reserve = fmempty, index = {||}, parked = []\<rparr>"
    if "i < k" for i using that by (simp add: sim_with_policy_def)
  have len: "length (nodes ?s) = k" "queue ?s = []" by (simp_all add: sim_with_policy_def)
  have p: "peers ?p = {||}" "got (mach ?p) = {||}" by (simp_all add: with_policy_def PullState_new_def)
  have "duties ?p = {}"
    by (rule duty_set_eqI) (simp_all add: with_policy_def PullState_new_def Discovery_new_def)
  moreover have "waiting i (nodes ?s) = {#}" for i
    unfolding waiting_def by (rule sum.neutral) (simp add: len node parked_duties_def)
  moreover have "node_ok U (nodes ?s) i" if "i < k" for i
    using that calm_start [OF assms(2)] by (simp add: node_ok_def node p server_ok_def bin_shelf_def)
  ultimately show ?thesis
    using assms by (simp add: sim_inv_def net_ok_def in_sync_def lonely_def len node p)
qed

lemma seed_ok:
  assumes inv: "sim_inv U s" and l: "lonely s" and i: "i < length (nodes s)" and c: "c |\<in>| U"
  shows "\<exists>t. sim_seed i c s = Done t \<and> sim_inv U t \<and> lonely t \<and> length (nodes t) = length (nodes s)"
proof -
  have ok: "net_ok U (nodes s) (queue s)" and sy: "in_sync (nodes s)" using inv by (simp_all add: sim_inv_def)
  from store_ok [OF ok i c] obtain u where u: "sim_store i c s = Done u" "net_ok U (nodes u) (queue u)"
    "length (nodes u) = length (nodes s)"
    and look: "\<forall>j < length (nodes s). puller (nodes u ! j) = puller (nodes s ! j)
       \<and> index (nodes u ! j) = (if j = i then finsert c (index (nodes s ! j)) else index (nodes s ! j))" by blast
  let ?t = "set_node i ((nodes u ! i)\<lparr>puller := snd (Node_preload c (puller (nodes u ! i)))\<rparr>) u"
  have lu: "peers (puller (nodes u ! j)) = {||}" if "j < length (nodes s)" for j using l look that by (simp add: lonely_def)
  have "net_ok U (nodes ?t) (queue ?t)"
    using preloaded_ok [OF u(2), of i c] i u(3) lu by (simp add: set_node_def)
  moreover have "in_sync (nodes ?t)" using sy look i u(3) by (auto simp: in_sync_def set_node_def nth_list_update)
  moreover have "lonely ?t" using lu u(3) i by (auto simp: lonely_def set_node_def nth_list_update)
  moreover have "sim_seed i c s = Done ?t" using u(1,3) i by (simp add: sim_seed_def sim_preload_def on_node_def)
  ultimately show ?thesis using u(3) by (auto simp: sim_inv_def set_node_def)
qed

lemma seeds_ok:
  assumes "sim_inv U s" "lonely s" "\<forall>(i, c) \<in> set seeds. i < length (nodes s) \<and> c |\<in>| U"
  shows "\<exists>t. sim_each (\<lambda>(i, c). sim_seed i c) seeds s = Done t \<and> sim_inv U t \<and> length (nodes t) = length (nodes s)"
proof -
  have "\<exists>t. sim_each (\<lambda>(i, c). sim_seed i c) seeds s = Done t
      \<and> sim_inv U t \<and> lonely t \<and> length (nodes t) = length (nodes s)"
  proof (rule sim_each_rule [where P = "\<lambda>_ t. sim_inv U t \<and> lonely t \<and> length (nodes t) = length (nodes s)"])
    fix ks x rest t assume xs: "seeds = ks @ x # rest" and P: "sim_inv U t \<and> lonely t \<and> length (nodes t) = length (nodes s)"
    obtain i c where x: "x = (i, c)" by (cases x)
    with assms(3) xs P have "i < length (nodes t)" "c |\<in>| U" by auto
    with seed_ok [of U t i c] P x show "\<exists>u. (\<lambda>(i, c). sim_seed i c) x t = Done u \<and> sim_inv U u \<and> lonely u \<and> length (nodes u) = length (nodes s)"
      by auto
  qed (use assms in simp)
  then show ?thesis by blast
qed

text \<open>Who sees whom, and what each holds, after some peers were seen.\<close>

definition met :: "sim \<Rightarrow> (nat \<times> PeerId) set \<Rightarrow> sim \<Rightarrow> bool" where
  "met s E t \<longleftrightarrow> length (nodes t) = length (nodes s)
     \<and> (\<forall>i < length (nodes s). index (nodes t ! i) = index (nodes s ! i))
     \<and> (\<forall>(i, p) \<in> E. p |\<in>| peers (puller (nodes t ! i)))"

lemma see_one:
  assumes inv: "sim_inv U t" and m: "met s E t" and E: "fst ` E \<subseteq> {..<length (nodes s)}"
    and i: "i < length (nodes s)" and p: "unat p < length (nodes s)"
  shows "\<exists>u. sim_feed i (PeerSeen p) t = Done u \<and> sim_inv U u \<and> met s (insert (i, p) E) u"
proof -
  have len: "length (nodes t) = length (nodes s)" using m by (simp add: met_def)
  from seen_ok [of U t i p] inv i p len obtain u where u: "sim_feed i (PeerSeen p) t = Done u" "net_ok U (nodes u) (queue u)"
    "length (nodes u) = length (nodes t)"
    and look: "\<forall>j < length (nodes t). index (nodes u ! j) = index (nodes t ! j)
         \<and> got (mach (puller (nodes u ! j))) = got (mach (puller (nodes t ! j)))
         \<and> peers (puller (nodes u ! j)) = (if j = i then finsert p (peers (puller (nodes t ! j))) else peers (puller (nodes t ! j)))"
    by (auto simp: sim_inv_def)
  have "in_sync (nodes u)" using inv u(3) look by (simp add: sim_inv_def in_sync_def)
  moreover have "q |\<in>| peers (puller (nodes u ! j))" if "(j, q) \<in> insert (i, p) E" for j q
  proof -
    have "j < length (nodes t)" using that E i len by auto
    with look m that show ?thesis by (auto simp: met_def)
  qed
  ultimately show ?thesis using u look m len by (auto simp: sim_inv_def met_def)
qed

lemma product_mem: "List.product [0..<k] ys = ks @ x # rest \<Longrightarrow> fst x < k \<and> snd x \<in> set ys"
proof -
  assume "List.product [0..<k] ys = ks @ x # rest"
  then have "x \<in> set (List.product [0..<k] ys)" by simp
  then show ?thesis by (simp add: mem_Times_iff)
qed

lemma prefix_fst: "List.product [0..<k] ys = ks @ rest \<Longrightarrow> x \<in> set ks \<Longrightarrow> fst x < k"
proof -
  assume "List.product [0..<k] ys = ks @ rest" "x \<in> set ks"
  then have "x \<in> set (List.product [0..<k] ys)" by simp
  then show ?thesis by (simp add: mem_Times_iff)
qed

lemma start_ok:
  assumes "sim_inv U s"
  shows "\<exists>t. sim_start s = Done t \<and> sim_inv U t \<and>
    met s {(i, peer_id j) |i j. i < length (nodes s) \<and> j < length (nodes s) \<and> i \<noteq> j} t"
proof -
  let ?k = "length (nodes s)"
  let ?E = "\<lambda>ks. {(i, peer_id j) |i j. (i, j) \<in> set ks \<and> i \<noteq> j}"
  have k: "?k \<le> 256" using assms net_okD(1) by (auto simp: sim_inv_def)
  have "\<exists>t. sim_start s = Done t \<and> sim_inv U t \<and> met s (?E (List.product [0..<?k] [0..<?k])) t"
    unfolding sim_start_def Let_def
  proof (rule sim_each_rule [where P = "\<lambda>ks t. sim_inv U t \<and> met s (?E ks) t"])
    show "sim_inv U s \<and> met s (?E []) s" using assms by (simp add: met_def)
    fix ks x rest t assume xs: "List.product [0..<?k] [0..<?k] = ks @ x # rest" and P: "sim_inv U t \<and> met s (?E ks) t"
    obtain i j where x: "x = (i, j)" by (cases x)
    have ij: "i < ?k" "j < ?k" using product_mem [OF xs] by (simp_all add: x)
    show "\<exists>u. (case x of (i, j) \<Rightarrow> if i = j then Done else sim_feed i (PeerSeen (peer_id j))) t = Done u
        \<and> sim_inv U u \<and> met s (?E (ks @ [x])) u"
    proof (cases "i = j")
      case True
      then have "?E (ks @ [x]) = ?E ks" by (auto simp: x)
      with True P show ?thesis by (simp add: x)
    next
      case False
      then have E: "?E (ks @ [x]) = insert (i, peer_id j) (?E ks)" by (auto simp: x)
      have "fst ` ?E ks \<subseteq> {..<?k}" using prefix_fst [OF xs] by force
      moreover have "unat (peer_id j) < ?k" using ij(2) k by (simp add: unat_peer_id)
      ultimately show ?thesis using see_one [of U t s "?E ks" i "peer_id j"] P ij(1) False unfolding E by (simp add: x)
    qed
  qed
  moreover have "?E (List.product [0..<?k] [0..<?k]) = {(i, peer_id j) |i j. i < ?k \<and> j < ?k \<and> i \<noteq> j}" by auto
  ultimately show ?thesis by simp
qed

lemma ring_ok:
  assumes "sim_inv U s" and f: "0 < f"
  shows "\<exists>t. start_ring f s = Done t \<and> sim_inv U t \<and> met s {(i, peer_id ((i + 1) mod length (nodes s))) |i. i < length (nodes s)} t"
proof (cases "length (nodes s) = 0")
  case True
  then show ?thesis using assms by (intro exI [of _ s]) (simp add: start_ring_def met_def)
next
  case False
  let ?k = "length (nodes s)"
  let ?E = "\<lambda>ks. {(i, peer_id ((i + d) mod ?k)) |i d. (i, d) \<in> set ks}"
  let ?f = "\<lambda>(i, d) s. bind_exec (sim_feed i (PeerSeen (peer_id (unat (of_nat (i + ?k) - of_nat d :: u64) mod ?k))) s)
      (sim_feed i (PeerSeen (peer_id ((i + d) mod ?k))))"
  have k: "?k \<le> 256" using assms net_okD(1) by (auto simp: sim_inv_def)
  have id: "unat (peer_id (m mod ?k)) < ?k" for m
  proof -
    have "m mod ?k < ?k" using False by simp
    then show ?thesis using k by (simp add: unat_peer_id)
  qed
  have "\<exists>t. sim_each ?f (List.product [0..<?k] [1..<f + 1]) s = Done t \<and> sim_inv U t \<and> met s (?E (List.product [0..<?k] [1..<f + 1])) t"
  proof (rule sim_each_rule [where P = "\<lambda>ks t. sim_inv U t \<and> met s (?E ks) t"])
    show "sim_inv U s \<and> met s (?E []) s" using assms by (simp add: met_def)
    fix ks x rest t assume xs: "List.product [0..<?k] [1..<f + 1] = ks @ x # rest" and P: "sim_inv U t \<and> met s (?E ks) t"
    obtain i d where x: "x = (i, d)" by (cases x)
    have i: "i < ?k" using product_mem [OF xs] by (simp add: x)
    have E: "fst ` ?E ks \<subseteq> {..<?k}" using prefix_fst [OF xs] by force
    let ?p = "peer_id (unat (of_nat (i + ?k) - of_nat d :: u64) mod ?k)" let ?q = "peer_id ((i + d) mod ?k)"
    from see_one [OF _ _ E i id] P obtain u where u: "sim_feed i (PeerSeen ?p) t = Done u" "sim_inv U u" "met s (insert (i, ?p) (?E ks)) u" by blast
    have "fst ` insert (i, ?p) (?E ks) \<subseteq> {..<?k}" using E i by simp
    from see_one [OF u(2,3) this i id, of "i + d"] obtain v where
      v: "sim_feed i (PeerSeen ?q) u = Done v" "sim_inv U v" "met s (insert (i, ?q) (insert (i, ?p) (?E ks))) v" by blast
    have "?E (ks @ [x]) = insert (i, ?q) (?E ks)" by (auto simp: x)
    then have "met s (?E (ks @ [x])) v" using v(3) by (simp add: met_def)
    then show "\<exists>u. ?f x t = Done u \<and> sim_inv U u \<and> met s (?E (ks @ [x])) u" using u(1) v(1,2) by (simp add: x)
  qed
  then obtain t where t: "start_ring f s = Done t" "sim_inv U t" "met s (?E (List.product [0..<?k] [1..<f + 1])) t"
    using False f unfolding start_ring_def Let_def by auto
  have "(i, 1) \<in> set (List.product [0..<?k] [1..<f + 1])" if "i < ?k" for i using f that by auto
  then have "{(i, peer_id ((i + 1) mod ?k)) |i. i < ?k} \<subseteq> ?E (List.product [0..<?k] [1..<f + 1])" by blast
  with t show ?thesis by (fastforce simp: met_def)
qed

subsection \<open>Every run keeps the invariant\<close>

text \<open>\<open>(i, j)\<close>: node \<open>i\<close> pulls from \<open>j\<close>, directly or through others.\<close>

definition pulls :: "sim \<Rightarrow> (nat \<times> nat) set" where
  "pulls s = {(i, j). i < length (nodes s) \<and> j < length (nodes s) \<and> peer_id j |\<in>| peers (puller (nodes s ! i))}\<^sup>*"

definition connected :: "sim \<Rightarrow> bool" where
  "connected s \<longleftrightarrow> (\<forall>i < length (nodes s). \<forall>j < length (nodes s). (i, j) \<in> pulls s)"

lemma connected_grew: "grew s t \<Longrightarrow> connected s \<Longrightarrow> connected t"
proof -
  assume g: "grew s t" and c: "connected s"
  have "pulls t = pulls s"
    unfolding pulls_def using g by (intro arg_cong [where f = rtrancl]) (auto simp: grew_def kept_def)
  with c g show ?thesis by (simp add: connected_def grew_def kept_def)
qed

lemma connected_mesh:
  assumes "met s {(i, peer_id j) |i j. i < length (nodes s) \<and> j < length (nodes s) \<and> i \<noteq> j} t"
  shows "connected t"
  unfolding connected_def
proof (intro allI impI)
  fix i j assume "i < length (nodes t)" "j < length (nodes t)"
  then show "(i, j) \<in> pulls t"
    using assms by (cases "i = j") (auto simp: pulls_def met_def intro!: r_into_rtrancl)
qed

lemma connected_ring:
  assumes m: "met s {(i, peer_id ((i + 1) mod length (nodes s))) |i. i < length (nodes s)} t"
  shows "connected t"
  unfolding connected_def
proof (intro allI impI)
  fix i j assume i: "i < length (nodes t)" and j: "j < length (nodes t)"
  let ?k = "length (nodes t)"
  have k: "length (nodes s) = ?k" using m by (simp add: met_def)
  have next_one: "(l, (l + 1) mod ?k) \<in> pulls t" if "l < ?k" for l
  proof -
    have "peer_id ((l + 1) mod ?k) |\<in>| peers (puller (nodes t ! l))" using m that by (auto simp: met_def k)
    moreover have "(l + 1) mod ?k < ?k" using that by (intro mod_less_divisor) linarith
    ultimately show ?thesis using that unfolding pulls_def by (intro r_into_rtrancl) simp
  qed
  have far: "(i, (i + d) mod ?k) \<in> pulls t" for d
  proof (induction d)
    case 0
    then show ?case using i by (simp add: pulls_def)
  next
    case (Suc d)
    have "0 < ?k" using i by linarith
    then have "(i + d) mod ?k < ?k" by (rule mod_less_divisor)
    from next_one [OF this] have "((i + d) mod ?k, (i + Suc d) mod ?k) \<in> pulls t" by (simp add: mod_Suc_eq)
    with Suc show ?case unfolding pulls_def by (rule rtrancl_trans)
  qed
  have "i + (j + ?k - i) = j + ?k" using i by linarith
  then have "(i + (j + ?k - i)) mod ?k = j" using j by simp
  with far [of "j + ?k - i"] show "(i, j) \<in> pulls t" by simp
qed

lemma begin_inv: "sim_begin U s \<Longrightarrow> sim_inv U s \<and> connected s"
proof -
  assume "sim_begin U s"
  then obtain k byz sd pol seeds s0 s1 where b: "k \<le> 256" "0 < window pol" "fcard U < 2 ^ 32"
    "\<forall>(i, c) \<in> set seeds. i < k \<and> c |\<in>| U"
    "sim_each (\<lambda>(i, c). sim_seed i c) seeds (sim_with_policy k byz sd pol) = Done s0"
    "s1 \<in> {s0, staggered s0}" "sim_start s1 = Done s \<or> (\<exists>f > 0. start_ring f s1 = Done s)"
    unfolding sim_begin_def by blast
  have "length (nodes (sim_with_policy k byz sd pol)) = k" by (simp add: sim_with_policy_def)
  with seeds_ok [of U "sim_with_policy k byz sd pol" seeds] created_ok [OF b(1-3), of byz sd] b(4,5) have "sim_inv U s0" by auto
  then have s1: "sim_inv U s1" using b(6) by (auto simp: sim_inv_def staggered_def)
  show ?thesis
  proof (cases "sim_start s1 = Done s")
    case True
    obtain t where t: "sim_start s1 = Done t" "sim_inv U t"
      "met s1 {(i, peer_id j) |i j. i < length (nodes s1) \<and> j < length (nodes s1) \<and> i \<noteq> j} t"
      using start_ok [OF s1] by blast
    have "t = s" using t(1) True by simp
    with t(2) connected_mesh [OF t(3)] show ?thesis by simp
  next
    case False
    then obtain f where "0 < f" "start_ring f s1 = Done s" using b(7) by blast
    obtain t where t: "start_ring f s1 = Done t" "sim_inv U t"
      "met s1 {(i, peer_id ((i + 1) mod length (nodes s1))) |i. i < length (nodes s1)} t"
      using ring_ok [OF s1 \<open>0 < f\<close>] by blast
    have "t = s" using t(1) \<open>start_ring f s1 = Done s\<close> by simp
    with t(2) connected_ring [OF t(3)] show ?thesis by simp
  qed
qed

lemma arrive_ok:
  assumes inv: "sim_inv U s" and a: "sim_arrive i c s = Done t" and i: "i < length (nodes s)" and c: "c |\<in>| U"
    and fresh: "\<forall>j < length (nodes s). c |\<notin>| index (nodes s ! j)"
  shows "sim_inv U t \<and> grew s t"
proof -
  have ok: "net_ok U (nodes s) (queue s)" and sy: "in_sync (nodes s)" using inv by (simp_all add: sim_inv_def)
  have "\<not> shelved (shelf (nodes s)) p c" for p
  proof
    assume "shelved (shelf (nodes s)) p c"
    then obtain y b where y: "fmlookup (shelf (nodes s) p b) y = Some c" by (auto simp: shelved_def)
    then have p: "unat p < length (nodes s)" by (auto simp: shelf_def split: if_splits)
    have "server_ok U (nodes s ! unat p)" using net_okD(3) [OF ok p] by (rule node_okD)
    from server_okD(2) [OF this] y p fresh show False by (auto simp: shelf_def)
  qed
  note pre = preloaded_ok [OF ok i this]
  let ?u = "set_node i ((nodes s ! i)\<lparr>puller := snd (Node_preload c (puller (nodes s ! i)))\<rparr>) s"
  have u: "sim_preload i c s = Done ?u" "net_ok U (nodes ?u) (queue ?u)" "length (nodes ?u) = length (nodes s)"
    using i pre by (simp_all add: sim_preload_def on_node_def set_node_def)
  from store_ok [OF u(2) _ c, of i] i u(3) obtain v where v: "sim_store i c ?u = Done v" "net_ok U (nodes v) (queue v)"
    "length (nodes v) = length (nodes s)"
    and look: "\<forall>j < length (nodes s). puller (nodes v ! j) = puller (nodes ?u ! j)
       \<and> index (nodes v ! j) = (if j = i then finsert c (index (nodes ?u ! j)) else index (nodes ?u ! j))" by auto
  have "v = t" using a u(1) v(1) by (simp add: sim_arrive_def)
  moreover have "in_sync (nodes v)" using sy look v(3) i by (auto simp: in_sync_def set_node_def nth_list_update)
  moreover have "grew s v" using look v(3) i by (auto simp: grew_def kept_def set_node_def nth_list_update)
  ultimately show ?thesis using v(2) by (simp add: sim_inv_def)
qed

lemma move_ok: "sim_inv U s \<Longrightarrow> sim_move U s t \<Longrightarrow> sim_inv U t \<and> grew s t"
proof (erule sim_moveE)
  assume inv: "sim_inv U s" and st: "sim_step s = Done (True, t)"
  then have "queue s \<noteq> []" "steps s + 1 < 2000000" using steps_step [OF st] by (auto simp: sim_step_def)
  from step_ok [OF inv this] st show "sim_inv U t \<and> grew s t" by auto
next
  show "sim_inv U t \<and> grew s t" if "sim_inv U s" "t = s\<lparr>spurious_budget := b\<rparr>" for b
    using that by (simp add: sim_inv_def grew_same)
qed (rule arrive_ok)

interpretation net: safety "sim_begin U" "sim_move U" "\<lambda>s. sim_inv U s \<and> connected s" for U
  by unfold_locales (auto dest: begin_inv move_ok intro: connected_grew)

text \<open>A step fails only at the limit of two million.\<close>

lemma step_panic:
  assumes "sim_inv U s" and "sim_step s = Panic"
  shows "queue s \<noteq> [] \<and> \<not> steps s + 1 < 2000000"
proof -
  have q: "queue s \<noteq> []" using assms(2) by (auto simp: sim_step_def)
  with step_ok [OF assms(1)] assms(2) show ?thesis by fastforce
qed

lemma node_checks:
  assumes inv: "sim_inv U s" and i: "i < length (nodes s)"
  shows "\<not> Node_conflict (puller (nodes s ! i)) \<and> Node_check_invariants (puller (nodes s ! i)) = Inr ()
    \<and> ndeliv (mach (puller (nodes s ! i))) + npre (mach (puller (nodes s ! i))) = of_nat (fcard (index (nodes s ! i)))"
proof -
  let ?p = "puller (nodes s ! i)"
  have ok: "net_ok U (nodes s) (queue s)" and got: "got (mach ?p) = index (nodes s ! i)"
    using inv i by (simp_all add: sim_inv_def in_sync_def)
  note nok = node_okD [OF net_okD(3) [OF ok i]]
  have m: "machine_inv (mach ?p)" using followsD(1) [OF calm_follows [OF nok(1)]] by (simp add: node_inv_def)
  have "fcard (index (nodes s ! i)) < 2 ^ 32"
    using fcard_mono [OF server_okD(1) [OF nok(3)]] net_okD(2) [OF ok] by linarith
  with check_invariants_machine_inv [OF m] m got show ?thesis
    by (simp add: Node_conflict_def Node_check_invariants_def machine_inv_def)
qed

lemma checks_pass: "sim_inv U s \<Longrightarrow> assert_invariants s = Done ()"
  using node_checks [of U s] by (simp add: assert_invariants_def list_all_length)

subsection \<open>Silence\<close>

text \<open>With an empty queue all that is owed is parked: offers on streams whose server has nothing past their start.\<close>

lemma silent_duties:
  assumes inv: "sim_inv U s" and q: "queue s = []" and i: "i < length (nodes s)" and d: "d \<in> duties (puller (nodes s ! i))"
  shows "\<exists>j b x. j < length (nodes s) \<and> d = Stream_of (peer_id j) b x \<and> sim_head (nodes s ! j) b < x"
proof -
  have ok: "net_ok U (nodes s) []" using inv q by (simp add: sim_inv_def)
  have "d \<in># waiting i (nodes s)" using net_okD(5) [OF ok i] d by simp
  then obtain j where j: "j < length (nodes s)" "d \<in># mset (parked_duties i j (nodes s ! j))"
    by (auto simp: waiting_def set_mset_sum)
  then obtain b x where "d = Stream_of (peer_id j) b x" "(i, b, x) \<in> set (parked (nodes s ! j))"
    by (auto simp: parked_duties_def)
  with node_okD(4) [OF net_okD(3) [OF ok j(1)]] j(1) show ?thesis by blast
qed

lemma silent_stored:
  assumes inv: "sim_inv U s" and q: "queue s = []" and i: "i < length (nodes s)" and c: "c |\<in>| arrived (mach (puller (nodes s ! i)))"
  shows "c |\<in>| got (mach (puller (nodes s ! i)))"
proof (rule ccontr)
  let ?n = "puller (nodes s ! i)"
  assume "c |\<notin>| got (mach ?n)"
  moreover have "rested ?n" using inv net_okD(3) [of U "nodes s" "queue s" i] i by (auto simp: sim_inv_def calm_def dest: node_okD(1))
  ultimately obtain d p where "Lease_of p d \<in> duties ?n" using c unfolding rested_def duties_iff by blast
  from silent_duties [OF inv q i this] show False by blast
qed

lemma silent_pulled:
  assumes inv: "sim_inv U s" and q: "queue s = []" and i: "i < length (nodes s)" and j: "j < length (nodes s)"
    and p: "peer_id j |\<in>| peers (puller (nodes s ! i))"
  shows "index (nodes s ! j) |\<subseteq>| index (nodes s ! i)"
proof
  fix c assume c: "c |\<in>| index (nodes s ! j)"
  let ?n = "puller (nodes s ! i)" let ?R = "shelf (nodes s)"
  have ok: "net_ok U (nodes s) (queue s)" and got: "got (mach ?n) = index (nodes s ! i)"
    using inv i by (simp_all add: sim_inv_def in_sync_def)
  have calm: "follows ?R ?n" "rested ?n" using node_okD(1) [OF net_okD(3) [OF ok i]] by (simp_all add: calm_def)
  have uj: "unat (peer_id j) = j" using net_okD(1) [OF ok] j by (simp add: unat_peer_id)
  obtain b x where b: "b \<in> set bins" "fmlookup (bin_shelf (nodes s ! j) b) x = Some c"
    using server_okD(3) [OF node_okD(3) [OF net_okD(3) [OF ok j]] c] by blast
  have "Cursors_of (peer_id j) \<notin> duties ?n" using silent_duties [OF inv q i] by blast
  then have "(peer_id j, b) |\<in>| fmdom (logs ?n)" using p b(1) followsD(4) [OF calm(1)] by (auto simp: open_ok_def)
  then obtain l where l: "fmlookup (logs ?n) (peer_id j, b) = Some l" by (auto simp: fmlookup_dom_iff)
  have tr: "tracks (bin_shelf (nodes s ! j) b) ?n l" using logs_okD(3) [OF followsD(3) [OF calm(1)] l] j by (simp add: shelf_def uj)
  have at_top: "interval l = topmost l"
  proof (rule ccontr)
    assume "interval l \<noteq> topmost l"
    then obtain y d where "fmlookup (entries l) y = Some d" "d |\<notin>| got (mach ?n)" using calm(2) l unfolding rested_def by metis
    with tr silent_stored [OF inv q i, of d] show False unfolding tracks_def by blast
  qed
  then have "(peer_id j, b) |\<in>| offer_open (disc ?n)" using calm(2) l unfolding rested_def by metis
  then have "Stream_of (peer_id j) b (covered ?n (peer_id j, b) + 1) \<in> duties ?n" by simp
  from silent_duties [OF inv q i this] obtain j' where j': "j' < length (nodes s)" "peer_id j' = peer_id j"
    "sim_head (nodes s ! j') b < covered ?n (peer_id j, b) + 1" by auto
  have "j' = j" using j'(1,2) uj net_okD(1) [OF ok] by (metis order_less_le_trans unat_peer_id)
  with j'(3) l have "sim_head (nodes s ! j) b < topmost l + 1" by (simp add: covered_def)
  then have "sim_head (nodes s ! j) b \<le> topmost l"
    using word_less_add_one [of "topmost l" "sim_head (nodes s ! j) b"] by (meson leD not_le)
  then have "x \<le> topmost l" using head_spec(1) [of x "nodes s ! j" b] b(2) by (meson fmdomI order_trans)
  moreover have "fmlookup (entries l) x = None"
  proof (cases "fmlookup (entries l) x")
    case (Some d)
    with at_top log_inv_at [OF followsD(1) [OF calm(1)] l] show ?thesis by (auto simp: log_inv_def)
  qed
  moreover have "fmlookup (entries l) x = Some c \<or> c |\<in>| got (mach ?n)" if "x \<le> topmost l"
    using tr b(2) that unfolding tracks_def by blast
  ultimately show "c |\<in>| index (nodes s ! i)" using got by simp
qed

lemma silent_same:
  assumes inv: "sim_inv U s" and q: "queue s = []" and con: "connected s" and i: "i < length (nodes s)" and j: "j < length (nodes s)"
  shows "index (nodes s ! j) |\<subseteq>| index (nodes s ! i)"
proof -
  have "(i, j) \<in> pulls s" using con i j by (simp add: connected_def)
  then show ?thesis unfolding pulls_def
  proof (induction rule: rtrancl_induct)
    case (step a b)
    then have "index (nodes s ! b) |\<subseteq>| index (nodes s ! a)" using silent_pulled [OF inv q, of a b] by simp
    with step.IH show ?case by (meson order_trans)
  qed simp
qed

lemma silent_converged:
  assumes inv: "sim_inv U s" and q: "queue s = []" and con: "connected s"
    and all: "\<forall>c \<in> set universe. \<exists>j < length (nodes s). c |\<in>| index (nodes s ! j)"
  shows "assert_converged universe s = Done ()"
proof -
  have "Node_deficit (puller (nodes s ! i)) = 0" if "i < length (nodes s)" for i
    using silent_stored [OF inv q that] by (auto simp: Node_deficit_def deficit_def)
  moreover have "c |\<in>| index (nodes s ! i)" if "i < length (nodes s)" "c \<in> set universe" for i c
    using all that silent_same [OF inv q con that(1)] by (meson fsubsetD)
  ultimately show ?thesis
    using checks_pass [OF inv] by (simp add: assert_converged_def list_all_length list_all_iff)
qed

subsection \<open>The properties\<close>

lemma run_moves:
  "case run s of Done t \<Rightarrow> (sim_move U)\<^sup>*\<^sup>* s t \<and> queue t = [] | Panic \<Rightarrow> \<exists>t. (sim_move U)\<^sup>*\<^sup>* s t \<and> sim_step t = Panic"
proof (induction s rule: run.induct)
  case (1 s)
  show ?case
  proof (cases "sim_step s")
    case Panic
    then show ?thesis by (subst run.simps) auto
  next
    case (Done r)
    obtain b t where r: "r = (b, t)" by (cases r)
    show ?thesis
    proof (cases b)
      case False
      with Done r have "t = s" "queue s = []" by (auto simp: sim_step_def Let_def bind_exec_eq_Done case_prod_beta split: if_splits)
      with Done r False show ?thesis by (subst run.simps) simp
    next
      case True
      with Done r have st: "sim_step s = Done (True, t)" by simp
      then have m: "sim_move U s t" by (rule stepped)
      have eq: "run s = run t" by (subst run.simps) (simp add: st)
      from "1" [OF _ refl] st have "case run t of Done u \<Rightarrow> (sim_move U)\<^sup>*\<^sup>* t u \<and> queue u = [] | Panic \<Rightarrow> \<exists>u. (sim_move U)\<^sup>*\<^sup>* t u \<and> sim_step u = Panic"
        by simp
      then show ?thesis unfolding eq using m by (auto split: exec.splits intro: converse_rtranclp_into_rtranclp)
    qed
  qed
qed

text \<open>
  C4: Silence is convergence. Seed nodes in any way, honest or Byzantine, let everyone see everyone or
  the ring, then mix steps, fresh arrivals and injected misses in any order: if the run that follows
  ends, the queue is empty, every node holds every chunk of the universe, none has a deficit and all
  invariant checks pass. The only other outcome is the limit on the number of steps.
\<close>

theorem run_converges:
  assumes "sim_begin U s" and "(sim_move U)\<^sup>*\<^sup>* s t"
    and "\<forall>c \<in> set universe. \<exists>j < sim_k t. node_has j c t = Done True"
  shows "case run t of Done u \<Rightarrow> queue u = [] \<and> assert_converged universe u = Done ()
    | Panic \<Rightarrow> \<exists>u. (sim_move U)\<^sup>*\<^sup>* t u \<and> queue u \<noteq> [] \<and> \<not> steps u + 1 < 2000000"
proof -
  have inv: "sim_inv U t" "connected t" using net.inv_run [OF assms(1,2)] by simp_all
  have inv_later: "sim_inv U u" "connected u" if "(sim_move U)\<^sup>*\<^sup>* t u" for u
    using net.inv_steps [OF that] inv by simp_all
  show ?thesis
  proof (cases "run t")
    case Panic
    then obtain u where "(sim_move U)\<^sup>*\<^sup>* t u" "sim_step u = Panic" using run_moves [of U t] by auto
    with step_panic [OF inv_later(1)] Panic show ?thesis by auto
  next
    case (Done u)
    then have u: "(sim_move U)\<^sup>*\<^sup>* t u" "queue u = []" using run_moves [of U t] by auto
    have "grew t u"
    proof (rule net.run_relation [OF u(1)])
      show "sim_inv U t \<and> connected t" using inv ..
      show "grew v w" if "sim_inv U v \<and> connected v" "sim_move U v w" for v w using that move_ok by blast
    qed (auto intro: grew_same elim: grew_trans)
    have "\<exists>j < length (nodes u). c |\<in>| index (nodes u ! j)" if "c \<in> set universe" for c
    proof -
      from assms(3) that obtain j where "j < length (nodes t)" "c |\<in>| index (nodes t ! j)"
        by (auto simp: sim_k_def node_has_def on_node_def split: if_splits)
      with \<open>grew t u\<close> show ?thesis unfolding grew_def kept_def by (metis fsubsetD)
    qed
    then have "\<forall>c \<in> set universe. \<exists>j < length (nodes u). c |\<in>| index (nodes u ! j)" by blast
    with silent_converged [OF inv_later(1) u(2) inv_later(2)] u Done show ?thesis by simp
  qed
qed

lemma sample_started:
  "\<exists>s. sample_sim = Done s \<and> sim_k s = 2 \<and> node_has 0 (mock 1) s = Done True \<and> sim_begin {|mock 1|} s"
proof -
  obtain s where s: "sample_sim = Done s" "sim_k s = 2" "node_has 0 (mock 1) s = Done True"
    using sample_begin by (auto split: exec.splits)
  then obtain s0 where "sim_seed 0 (mock 1) (sim_with_policy 2 [] 42 SHIPPED) = Done s0" "sim_start s0 = Done s"
    by (auto simp: sample_sim_def Sim_new_def bind_exec_eq_Done)
  then have "sim_begin {|mock 1|} s"
    unfolding sim_begin_def
    by (intro exI [of _ 2] exI [of _ "[]"] exI [of _ 42] exI [of _ SHIPPED] exI [of _ "[(0, mock 1)]"] exI [of _ s0])
       (auto simp: SHIPPED_def fcard_finsert_disjoint)
  with s show ?thesis by blast
qed

theorem run_converges_witness:
  "case bind_exec sample_sim run of Panic \<Rightarrow> False | Done u \<Rightarrow> queue u = [] \<and> assert_converged [mock 1] u = Done ()"
proof -
  obtain s where s: "sample_sim = Done s" "sim_k s = 2" "node_has 0 (mock 1) s = Done True" "sim_begin {|mock 1|} s"
    using sample_started by blast
  have "\<forall>c \<in> set [mock 1]. \<exists>j < sim_k s. node_has j c s = Done True" using s(2,3) by force
  then have "case run s of Done u \<Rightarrow> queue u = [] \<and> assert_converged [mock 1] u = Done ()
    | Panic \<Rightarrow> \<exists>u. (sim_move {|mock 1|})\<^sup>*\<^sup>* s u \<and> queue u \<noteq> [] \<and> \<not> steps u + 1 < 2000000"
    using run_converges [of "{|mock 1|}" s s "[mock 1]"] s(4) by simp
  then show ?thesis using sample_run unfolding s(1) bind_exec.simps by (auto split: exec.splits)
qed



end
