(* ===== verification/Wasm.thy ===== *)
theory Wasm
  imports Sim Complex_Main
begin

section \<open>The browser's reserve: \<open>crates/wasm/src/lib.rs\<close>\<close>

text \<open>
  A simulation of 26 nodes on a ring, one for each letter; a word is a chunk that arrives at the node of its
  first letter. \<open>held\<close> mirrors which node stores which word, and the page reads it with the event log.
  Words are ASCII: on them \<open>trim\<close> and \<open>to_lowercase\<close> are the functions below. A fraction (\<open>f64\<close> in the
  source) is the quotient before rounding.
\<close>

definition WASM_K :: nat where
  "WASM_K = 26"

definition SEED :: u64 where
  "SEED = 0xC0FFEE"

definition RING_FANOUT :: nat where
  "RING_FANOUT = 2"

definition word_triple :: "u32 \<Rightarrow> triple" where
  "word_triple wid = mock wid"

record Reserve =
  rv_sim :: sim
  texts :: "string list"
  origins :: "u8 list"
  text_index :: "string \<Rightarrow> u32 option"
  held :: "bool list list"
  rv_events :: "string list"
  rv_deliveries :: u32
  rv_converged :: bool

definition Reserve_new :: "Reserve exec" where
  "Reserve_new = bind_exec (start_ring RING_FANOUT (Sim_new WASM_K [] SEED)) (\<lambda>s.
     Done \<lparr>rv_sim = s, texts = [], origins = [], text_index = (\<lambda>_. None), held = replicate WASM_K [],
           rv_events = [], rv_deliveries = 0, rv_converged = False\<rparr>)"

subsection \<open>Text\<close>

definition is_space :: "char \<Rightarrow> bool" where
  "is_space ch \<longleftrightarrow> (let c = of_char ch :: nat in c = 32 \<or> 9 \<le> c \<and> c \<le> 13)"

definition trim_text :: "string \<Rightarrow> string" where
  "trim_text s = rev (dropWhile is_space (rev (dropWhile is_space s)))"

definition lower :: "char \<Rightarrow> char" where
  "lower ch = (let c = of_char ch :: nat in if 65 \<le> c \<and> c \<le> 90 then char_of (c + 32) else ch)"

definition to_lowercase :: "string \<Rightarrow> string" where
  "to_lowercase s = map lower s"

definition letter_path :: "string \<Rightarrow> u8 list" where
  "letter_path w = List.map_filter (\<lambda>ch. let c = of_char ch - 97 :: u8 in if c < 26 then Some c else None) w"

text \<open>Numbers as \<open>format!\<close> prints them.\<close>

fun decimal :: "nat \<Rightarrow> string" where
  "decimal n = (if n < 10 then [char_of (48 + n)] else decimal (n div 10) @ [char_of (48 + n mod 10)])"

declare decimal.simps [simp del]

subsection \<open>Words in\<close>

definition set_held :: "nat \<Rightarrow> nat \<Rightarrow> Reserve \<Rightarrow> Reserve" where
  "set_held node wid r = r\<lparr>held := (held r)[node := (held r ! node)[wid := True]]\<rparr>"

text \<open>The result has the bits of the \<open>u32\<close> it is cast from; \<open>-1\<close> is all ones.\<close>

definition Reserve_ingest :: "string \<Rightarrow> Reserve \<Rightarrow> (32 word \<times> Reserve) exec" where
  "Reserve_ingest text r =
     (let w = to_lowercase (trim_text text); path = letter_path w
      in if w = [] then Done (- 1, r)
         else if path = [] then Done (- 1, r)
         else (let origin = hd path
               in case text_index r w of
                    Some wid \<Rightarrow>
                      Done (push_bit 1 wid, r\<lparr>rv_events := rv_events r @
                        [''recur:'' @ decimal (unat wid) @ '':'' @ decimal (unat origin)]\<rparr>)
                  | None \<Rightarrow>
                      (let wid = of_nat (length (texts r)) :: u32;
                           r1 = r\<lparr>texts := texts r @ [w], origins := origins r @ [origin],
                             text_index := (text_index r)(w \<mapsto> wid), held := map (\<lambda>row. row @ [False]) (held r)\<rparr>
                       in bind_exec (sim_arrive (unat origin) (word_triple wid) (rv_sim r)) (\<lambda>s.
                            Done (or (push_bit 1 wid) 1,
                                  (set_held (unat origin) (unat wid) (r1\<lparr>rv_sim := s\<rparr>))\<lparr>rv_converged := False,
                                    rv_events := rv_events r @
                                      [''arrive:'' @ decimal (unat wid) @ '':'' @ decimal (unat origin)]\<rparr>)))))"

subsection \<open>Deliveries out\<close>

definition ring_dist :: "u8 \<Rightarrow> u8 \<Rightarrow> u8" where
  "ring_dist a b = (let d = (if a < b then b - a else a - b) in min d (of_nat WASM_K - d))"

definition nearest_holder :: "nat \<Rightarrow> u8 \<Rightarrow> Reserve \<Rightarrow> u8" where
  "nearest_holder wid to r = fst (fold (\<lambda>i (best, bd).
       let h = of_nat i
       in if h = to \<or> \<not> held r ! i ! wid then (best, bd)
          else if ring_dist h to < bd then (h, ring_dist h to) else (best, bd))
     [0..<WASM_K] (0, - 1))"

definition note_delivery :: "nat \<Rightarrow> nat \<Rightarrow> Reserve \<Rightarrow> Reserve" where
  "note_delivery node wid r =
     (let r1 = (set_held node wid r)\<lparr>rv_deliveries := rv_deliveries r + 1\<rparr>
      in r1\<lparr>rv_events := rv_events r1 @ [''deliver:'' @ decimal wid @ '':''
           @ decimal (unat (nearest_holder wid (of_nat node) r1)) @ '':'' @ decimal node]\<rparr>)"

text \<open>The two loops of \<open>scan_holds\<close>, over the cells of the table.\<close>

fun scan_cells :: "(nat \<times> nat) list \<Rightarrow> Reserve \<Rightarrow> Reserve exec" where
  "scan_cells [] r = Done r"
| "scan_cells ((node, wid) # cells) r =
     (if held r ! node ! wid then scan_cells cells r
      else bind_exec (node_has node (word_triple (of_nat wid)) (rv_sim r)) (\<lambda>has.
             scan_cells cells (if has then note_delivery node wid r else r)))"

definition scan_holds :: "Reserve \<Rightarrow> Reserve exec" where
  "scan_holds r = scan_cells (List.product [0..<WASM_K] [0..<length (texts r)]) r"

fun all_settled :: "nat list \<Rightarrow> sim \<Rightarrow> bool exec" where
  "all_settled [] s = Done True"
| "all_settled (i # is) s = bind_exec (sim_deficit i s) (\<lambda>d. if d = 0 then all_settled is s else Done False)"

definition sim_deficit_zero :: "Reserve \<Rightarrow> bool exec" where
  "sim_deficit_zero r = all_settled [0..<WASM_K] (rv_sim r)"

text \<open>The \<open>while n < budget\<close> of \<open>step\<close>, with \<open>left = budget - n\<close>.\<close>

fun step_loop :: "nat \<Rightarrow> u32 \<Rightarrow> Reserve \<Rightarrow> (u32 \<times> Reserve) exec" where
  "step_loop 0 n r = Done (n, r)"
| "step_loop (Suc left) n r = bind_exec (sim_step (rv_sim r)) (\<lambda>(more, s).
     if \<not> more then Done (n, r\<lparr>rv_sim := s\<rparr>)
     else bind_exec (scan_holds (r\<lparr>rv_sim := s\<rparr>)) (step_loop left (n + 1)))"

definition Reserve_step :: "u32 \<Rightarrow> Reserve \<Rightarrow> (u32 \<times> Reserve) exec" where
  "Reserve_step budget r = bind_exec (step_loop (unat budget) 0 r) (\<lambda>(n, r1).
     if \<not> rv_converged r1 \<and> texts r1 \<noteq> [] then
       bind_exec (sim_deficit_zero r1) (\<lambda>zero.
         Done (n, if zero then r1\<lparr>rv_converged := True, rv_events := rv_events r1 @ [''converged'']\<rparr> else r1))
     else Done (n, r1))"

subsection \<open>What the page reads\<close>

definition drain_events :: "Reserve \<Rightarrow> string \<times> Reserve" where
  "drain_events r =
     (if rv_events r = [] then ([], r)
      else (concat (hd (rv_events r) # map (\<lambda>e. CHR 0x0A # e) (tl (rv_events r))), r\<lparr>rv_events := []\<rparr>))"

definition word_count :: "Reserve \<Rightarrow> u32" where
  "word_count r = of_nat (length (texts r))"

definition held_count :: "u32 \<Rightarrow> Reserve \<Rightarrow> u32" where
  "held_count word_id r =
     (if length (texts r) \<le> unat word_id then 0 else of_nat (length (filter (\<lambda>row. row ! unat word_id) (held r))))"

definition reserve_frac :: "u32 \<Rightarrow> Reserve \<Rightarrow> rat" where
  "reserve_frac node r =
     (if WASM_K \<le> unat node \<or> texts r = [] then 0
      else of_nat (length (filter (\<lambda>h. h) (held r ! unat node))) / of_nat (length (texts r)))"

text \<open>The cast \<open>node as u8\<close> truncates.\<close>

definition has_origin :: "u32 \<Rightarrow> Reserve \<Rightarrow> bool" where
  "has_origin node r \<longleftrightarrow> ucast node \<in> set (origins r)"

definition progress :: "Reserve \<Rightarrow> rat" where
  "progress r =
     (if texts r = [] then 0
      else of_nat (unat (rv_deliveries r)) / of_nat (length (texts r) * (WASM_K - 1)))"

text \<open>The calls of a page, in order, that change what is stored.\<close>

datatype page_call = Word string | Budget u32

fun on_page :: "page_call \<Rightarrow> Reserve \<Rightarrow> Reserve exec" where
  "on_page (Word t) r = bind_exec (Reserve_ingest t r) (\<lambda>(_, r1). Done r1)"
| "on_page (Budget b) r = bind_exec (Reserve_step b r) (\<lambda>(_, r1). Done r1)"

fun page_calls :: "page_call list \<Rightarrow> Reserve \<Rightarrow> Reserve exec" where
  "page_calls [] r = Done r"
| "page_calls (c # cs) r = bind_exec (on_page c r) (page_calls cs)"

end
