(* ===== verification/Wasm_Props.thy ===== *)
theory Wasm_Props
  imports Wasm Sim_Props
begin

section \<open>The browser's reserve shows what the simulation does\<close>

text \<open>
  The table of marks is exactly who stores what, the counters are its sums, and a \<open>step\<close> that stops before
  its budget has spread every word to every node. The flag \<open>converged\<close> is weaker than it reads.
\<close>

declare split_paired_All [simp del] split_paired_Ex [simp del]

subsection \<open>The table\<close>

definition words_of :: "nat \<Rightarrow> triple fset" where
  "words_of n = fset_of_list (map (\<lambda>i. mock (of_nat i)) [0..<n])"

definition marks :: "bool list list \<Rightarrow> nat" where
  "marks rows = sum_list (map (\<lambda>row. length (filter (\<lambda>h. h) row)) rows)"

definition table :: "nat \<Rightarrow> Reserve \<Rightarrow> bool" where
  "table n r \<longleftrightarrow> length (held r) = WASM_K \<and> (\<forall>i < WASM_K. length (held r ! i) = n)
     \<and> rv_deliveries r + of_nat n = of_nat (marks (held r))"

definition view_ok :: "Reserve \<Rightarrow> bool" where
  "view_ok r \<longleftrightarrow> sim_inv (words_of (length (texts r))) (rv_sim r) \<and> connected (rv_sim r)
     \<and> length (nodes (rv_sim r)) = WASM_K \<and> table (length (texts r)) r
     \<and> length (origins r) = length (texts r) \<and> distinct (texts r) \<and> length (texts r) < 2 ^ 32
     \<and> (\<forall>w wid. text_index r w = Some wid \<longleftrightarrow> unat wid < length (texts r) \<and> texts r ! unat wid = w)
     \<and> (\<forall>i < WASM_K. \<forall>j < length (texts r). held r ! i ! j \<longleftrightarrow> mock (of_nat j) |\<in>| index (nodes (rv_sim r) ! i))
     \<and> (\<forall>j < length (texts r). \<exists>i < WASM_K. held r ! i ! j)"

lemma view_okD:
  assumes "view_ok r"
  shows "sim_inv (words_of (length (texts r))) (rv_sim r)" "connected (rv_sim r)" "length (nodes (rv_sim r)) = WASM_K"
    "table (length (texts r)) r" "length (origins r) = length (texts r)" "distinct (texts r)" "length (texts r) < 2 ^ 32"
    "text_index r w = Some wid \<longleftrightarrow> unat wid < length (texts r) \<and> texts r ! unat wid = w"
    "i < WASM_K \<Longrightarrow> j < length (texts r) \<Longrightarrow> held r ! i ! j \<longleftrightarrow> mock (of_nat j) |\<in>| index (nodes (rv_sim r) ! i)"
    "j < length (texts r) \<Longrightarrow> \<exists>i < WASM_K. held r ! i ! j"
  using assms by (simp_all add: view_ok_def)

lemma mock_inj: "mock m = mock n \<Longrightarrow> m = n"
  using mock_less [of m n] mock_less [of n m] by (metis linorder_neq_iff)

lemma mem_words_of: "n < 2 ^ 32 \<Longrightarrow> j < 2 ^ 32 \<Longrightarrow> mock (of_nat j) |\<in>| words_of n \<longleftrightarrow> j < n"
proof -
  assume n: "n < 2 ^ 32" "j < 2 ^ 32"
  have "i = j" if "mock (of_nat i) = mock (of_nat j)" "i < n" for i
  proof -
    have "(of_nat i :: u32) = of_nat j" using that(1) by (rule mock_inj)
    then have "unat (of_nat i :: u32) = unat (of_nat j :: u32)" by simp
    then show ?thesis using that n by (simp add: unat_of_nat)
  qed
  then show ?thesis by (auto simp: words_of_def fset_of_list_elem)
qed

lemma fcard_words_of: "fcard (words_of n) \<le> n"
proof -
  have "fcard (words_of n) = card (set (map (\<lambda>i. mock (of_nat i)) [0..<n]))"
    by (simp add: words_of_def fcard.rep_eq fset_of_list.rep_eq)
  also have "\<dots> \<le> n" using card_length [of "map (\<lambda>i. mock (of_nat i)) [0..<n]"] by simp
  finally show ?thesis .
qed

lemma words_of_mono: "m \<le> n \<Longrightarrow> words_of m |\<subseteq>| words_of n"
  by (auto simp: words_of_def fset_of_list_elem)

lemma sim_inv_mono: "sim_inv U s \<Longrightarrow> U |\<subseteq>| V \<Longrightarrow> fcard V < 2 ^ 32 \<Longrightarrow> sim_inv V s"
proof -
  assume inv: "sim_inv U s" and V: "U |\<subseteq>| V" "fcard V < 2 ^ 32"
  have "server_ok V n" if "server_ok U n" for n using that V by (auto simp: server_ok_def)
  then show ?thesis using inv V by (simp add: sim_inv_def net_ok_def node_ok_def)
qed

lemma stored_words:
  assumes "view_ok r" and "i < WASM_K"
  shows "index (nodes (rv_sim r) ! i) |\<subseteq>| words_of (length (texts r))"
proof -
  have "net_ok (words_of (length (texts r))) (nodes (rv_sim r)) (queue (rv_sim r))"
    using view_okD(1) [OF assms(1)] by (simp add: sim_inv_def)
  from node_okD(3) [OF net_okD(3) [OF this]] assms show ?thesis by (simp add: view_okD(3) server_okD(1))
qed

lemma marks_update: "i < length rows \<Longrightarrow> j < length (rows ! i) \<Longrightarrow> \<not> rows ! i ! j \<Longrightarrow>
    marks (rows[i := (rows ! i)[j := True]]) = marks rows + 1"
proof -
  assume i: "i < length rows" and j: "j < length (rows ! i)" and h: "\<not> rows ! i ! j"
  let ?f = "\<lambda>row. length (filter (\<lambda>h. h) row)"
  have "?f (row[j := True]) = ?f row + 1" if "j < length row" "\<not> row ! j" for row
    using that by (induction row arbitrary: j) (auto split: nat.splits)
  from this [OF j h] have row: "?f ((rows ! i)[j := True]) = ?f (rows ! i) + 1" .
  have "?f (rows ! i) \<le> sum_list (map ?f rows)"
    using i by (intro member_le_sum_list) auto
  with row i show ?thesis by (simp add: marks_def map_update sum_list_update)
qed

lemma table_set:
  assumes t: "table n r" and i: "i < WASM_K" and j: "j < n" and h: "\<not> held r ! i ! j"
    and h': "held r' = (held r)[i := (held r ! i)[j := True]]" and d: "rv_deliveries r' = rv_deliveries r + 1"
  shows "table n r'"
proof -
  have len: "length (held r) = WASM_K" "length (held r ! i) = n" using t i by (simp_all add: table_def)
  have "marks (held r') = marks (held r) + 1" unfolding h' by (rule marks_update) (use len i j h in simp_all)
  moreover have "length (held r' ! k) = n" if "k < WASM_K" for k
    using that t i by (cases "k = i") (simp_all add: h' table_def)
  ultimately show ?thesis using t d len by (simp add: table_def h' algebra_simps)
qed

lemma note_delivery_frame [simp]:
  "rv_sim (note_delivery i j r) = rv_sim r" "texts (note_delivery i j r) = texts r" "origins (note_delivery i j r) = origins r"
  "text_index (note_delivery i j r) = text_index r" "rv_converged (note_delivery i j r) = rv_converged r"
  "held (note_delivery i j r) = (held r)[i := (held r ! i)[j := True]]"
  "rv_deliveries (note_delivery i j r) = rv_deliveries r + 1"
  by (simp_all add: note_delivery_def set_held_def Let_def)

lemma scan_cells_ok:
  assumes "table n r" and "length (nodes (rv_sim r)) = WASM_K" and "set cells \<subseteq> {..<WASM_K} \<times> {..<n}"
  shows "\<exists>r'. scan_cells cells r = Done r' \<and> table n r' \<and> rv_sim r' = rv_sim r \<and> texts r' = texts r \<and> origins r' = origins r
    \<and> text_index r' = text_index r \<and> rv_converged r' = rv_converged r
    \<and> (\<forall>i < WASM_K. \<forall>j < n. held r' ! i ! j \<longleftrightarrow> held r ! i ! j
        \<or> (i, j) \<in> set cells \<and> mock (of_nat j) |\<in>| index (nodes (rv_sim r) ! i))"
  using assms
proof (induction cells arbitrary: r)
  case (Cons cell cells)
  obtain i j where c: "cell = (i, j)" by (cases cell)
  have ij: "i < WASM_K" "j < n" and rest: "set cells \<subseteq> {..<WASM_K} \<times> {..<n}" using Cons.prems(3) by (auto simp: c)
  let ?here = "mock (of_nat j) |\<in>| index (nodes (rv_sim r) ! i)"
  show ?case
  proof (cases "held r ! i ! j \<or> \<not> ?here")
    case True
    then have "scan_cells (cell # cells) r = scan_cells cells r"
      using Cons.prems(2) ij by (auto simp: c node_has_def on_node_def word_triple_def)
    with Cons.IH [OF Cons.prems(1,2) rest] True show ?thesis by (fastforce simp: c)
  next
    case False
    let ?r = "note_delivery i j r"
    have "scan_cells (cell # cells) r = scan_cells cells ?r"
      using Cons.prems(2) ij False by (simp add: c node_has_def on_node_def word_triple_def)
    moreover have "table n ?r" by (rule table_set [OF Cons.prems(1) ij]) (use False in simp_all)
    from Cons.IH [OF this _ rest] Cons.prems(2) obtain r' where r': "scan_cells cells ?r = Done r'" "table n r'" "rv_sim r' = rv_sim r"
      "texts r' = texts r" "origins r' = origins r" "text_index r' = text_index r" "rv_converged r' = rv_converged r"
      "\<forall>i' < WASM_K. \<forall>j' < n. held r' ! i' ! j' \<longleftrightarrow> held ?r ! i' ! j'
        \<or> (i', j') \<in> set cells \<and> mock (of_nat j') |\<in>| index (nodes (rv_sim r) ! i')" by auto
    have "held ?r ! i' ! j' \<longleftrightarrow> held r ! i' ! j' \<or> (i' = i \<and> j' = j)" if "i' < WASM_K" "j' < n" for i' j'
      using that Cons.prems(1) ij by (auto simp: table_def nth_list_update)
    then have "\<forall>i' < WASM_K. \<forall>j' < n. held r' ! i' ! j' \<longleftrightarrow> held r ! i' ! j'
        \<or> (i', j') \<in> set (cell # cells) \<and> mock (of_nat j') |\<in>| index (nodes (rv_sim r) ! i')"
      using r'(8) False by (auto simp: c)
    ultimately show ?thesis using r' by (intro exI [of _ r']) simp
  qed
qed simp


subsection \<open>A fresh page\<close>

lemma steps_start_ring: "start_ring f s = Done t \<Longrightarrow> steps t = steps s"
  by (auto simp: start_ring_def Let_def bind_exec_eq_Done split: if_splits elim!: steps_each dest!: steps_feed)

lemma Reserve_new_ok: "\<exists>r. Reserve_new = Done r \<and> view_ok r \<and> texts r = [] \<and> steps (rv_sim r) = 0"
proof -
  let ?s = "sim_with_policy WASM_K [] SEED SHIPPED"
  have s: "sim_inv (words_of 0) ?s" "length (nodes ?s) = WASM_K"
    using created_ok [of WASM_K SHIPPED "words_of 0" "[]" SEED]
    by (simp_all add: WASM_K_def SHIPPED_def words_of_def sim_with_policy_def)
  obtain t where t: "start_ring RING_FANOUT ?s = Done t" "sim_inv (words_of 0) t"
    "met ?s {(i, peer_id ((i + 1) mod length (nodes ?s))) |i. i < length (nodes ?s)} t"
    using ring_ok [OF s(1), of RING_FANOUT] by (auto simp: RING_FANOUT_def)
  have "connected t" using connected_ring [OF t(3)] .
  moreover have "steps t = 0" using steps_start_ring [OF t(1)] by (simp add: sim_with_policy_def)
  moreover have "length (nodes t) = WASM_K" using t(3) s(2) by (simp add: met_def)
  ultimately show ?thesis
    using t(1,2) by (simp add: Reserve_new_def Sim_new_def view_ok_def table_def marks_def sum_list_replicate)
qed

subsection \<open>A word arrives\<close>

lemma store_done: "i < length (nodes s) \<Longrightarrow> \<exists>t. sim_store i c s = Done t"
  by (simp add: sim_store_def on_node_def Let_def)

lemma arrive_done:
  assumes inv: "sim_inv U s" and i: "i < length (nodes s)" and c: "c |\<in>| U"
    and fresh: "\<forall>j < length (nodes s). c |\<notin>| index (nodes s ! j)"
  shows "\<exists>t. sim_arrive i c s = Done t \<and> sim_inv U t \<and> grew s t \<and> steps t = steps s
    \<and> (\<forall>j < length (nodes s). index (nodes t ! j) = (if j = i then finsert c (index (nodes s ! j)) else index (nodes s ! j)))"
proof -
  let ?u = "set_node i ((nodes s ! i)\<lparr>puller := snd (Node_preload c (puller (nodes s ! i)))\<rparr>) s"
  obtain t where "sim_store i c ?u = Done t" using store_done [of i ?u c] i by (auto simp: set_node_def)
  then have t: "sim_arrive i c s = Done t" using i by (simp add: sim_arrive_def sim_preload_def on_node_def)
  have "index (nodes t ! j) = (if j = i then finsert c (index (nodes s ! j)) else index (nodes s ! j))"
    if "j < length (nodes s)" for j
    using t i that fresh by (auto simp: sim_arrive_def sim_preload_def sim_store_def on_node_def set_node_def push_def
        append_entry_def Let_def nth_list_update)
  moreover have "steps t = steps s"
    using t i by (auto simp: sim_arrive_def sim_preload_def on_node_def bind_exec_eq_Done dest: steps_store)
  ultimately show ?thesis using t arrive_ok [OF inv t i c fresh] by blast
qed

lemma letter_path_Nil [simp]: "letter_path [] = []"
  by (simp add: letter_path_def List.map_filter_def)

lemma letter_path_small: "origin \<in> set (letter_path w) \<Longrightarrow> unat origin < WASM_K"
  by (auto simp: letter_path_def List.map_filter_def Let_def WASM_K_def word_less_nat_alt split: if_splits)

text \<open>What a call of \<open>ingest\<close> does, by its three cases.\<close>

definition blank :: "string \<Rightarrow> bool" where
  "blank t \<longleftrightarrow> letter_path (to_lowercase (trim_text t)) = []"

definition word_of :: "string \<Rightarrow> string" where
  "word_of t = to_lowercase (trim_text t)"

lemma ingest_blank: "blank t \<Longrightarrow> Reserve_ingest t r = Done (- 1, r)"
  by (simp add: Reserve_ingest_def blank_def Let_def)

lemma ingest_known:
  assumes "\<not> blank t" and "text_index r (word_of t) = Some wid"
  shows "\<exists>e. Reserve_ingest t r = Done (push_bit 1 wid, r\<lparr>rv_events := e\<rparr>)"
  using assms by (auto simp: Reserve_ingest_def blank_def word_of_def Let_def)

lemma view_ok_events [simp]: "view_ok (r\<lparr>rv_events := e\<rparr>) = view_ok r" "view_ok (r\<lparr>rv_converged := b\<rparr>) = view_ok r"
  by (simp_all add: view_ok_def table_def)

lemma text_index_None: "view_ok r \<Longrightarrow> text_index r w = None \<longleftrightarrow> w \<notin> set (texts r)"
proof -
  assume v: "view_ok r"
  have "w \<in> set (texts r) \<longleftrightarrow> (\<exists>wid. text_index r w = Some wid)"
  proof
    assume "w \<in> set (texts r)"
    then obtain j where j: "j < length (texts r)" "texts r ! j = w" by (auto simp: in_set_conv_nth)
    then have "unat (of_nat j :: u32) = j" using view_okD(7) [OF v] by (simp add: unat_of_nat)
    with j show "\<exists>wid. text_index r w = Some wid" using view_okD(8) [OF v, of w "of_nat j"] by auto
  next
    assume "\<exists>wid. text_index r w = Some wid"
    then show "w \<in> set (texts r)" using view_okD(8) [OF v] by auto
  qed
  then show ?thesis by auto
qed

lemma ingest_new:
  assumes v: "view_ok r" and b: "\<not> blank t" and new: "word_of t \<notin> set (texts r)" and n: "length (texts r) + 1 < 2 ^ 32"
  shows "\<exists>r' i. Reserve_ingest t r = Done (or (push_bit 1 (word_count r)) 1, r') \<and> view_ok r' \<and> texts r' = texts r @ [word_of t]
    \<and> steps (rv_sim r') = steps (rv_sim r) \<and> \<not> rv_converged r' \<and> i < WASM_K \<and> (\<forall>j < WASM_K. held r' ! j = held r ! j @ [j = i])"
proof -
  let ?n = "length (texts r)" let ?w = "word_of t" let ?wid = "of_nat ?n :: u32"
  define origin where "origin = hd (letter_path ?w)"
  have "origin \<in> set (letter_path ?w)" using b by (auto simp: origin_def blank_def word_of_def)
  then have o: "unat origin < WASM_K" by (rule letter_path_small)
  have wid: "unat ?wid = ?n" using n by (simp add: unat_of_nat)
  have inv: "sim_inv (words_of (?n + 1)) (rv_sim r)"
    by (rule sim_inv_mono [OF view_okD(1) [OF v] words_of_mono]) (use fcard_words_of [of "?n + 1"] n in simp_all)
  have fresh: "mock ?wid |\<notin>| index (nodes (rv_sim r) ! j)" if "j < WASM_K" for j
    using stored_words [OF v that] mem_words_of [of ?n ?n] n by (auto dest: fsubsetD)
  have "mock ?wid |\<in>| words_of (?n + 1)" using mem_words_of [of "?n + 1" ?n] n by simp
  from arrive_done [OF inv _ this, of "unat origin"] fresh o view_okD(3) [OF v] obtain s where
    s: "sim_arrive (unat origin) (mock ?wid) (rv_sim r) = Done s" "sim_inv (words_of (?n + 1)) s" "grew (rv_sim r) s" "steps s = steps (rv_sim r)"
    "\<forall>j < WASM_K. index (nodes s ! j) = (if j = unat origin then finsert (mock ?wid) (index (nodes (rv_sim r) ! j)) else index (nodes (rv_sim r) ! j))"
    by auto
  define r1 where "r1 = r\<lparr>texts := texts r @ [?w], origins := origins r @ [origin], text_index := (text_index r)(?w \<mapsto> ?wid),
    held := map (\<lambda>row. row @ [False]) (held r)\<rparr>"
  define r' where "r' = (set_held (unat origin) ?n (r1\<lparr>rv_sim := s\<rparr>))\<lparr>rv_converged := False,
    rv_events := rv_events r @ [''arrive:'' @ decimal ?n @ '':'' @ decimal (unat origin)]\<rparr>"
  have ing: "Reserve_ingest t r = Done (or (push_bit 1 ?wid) 1, r')"
  proof -
    have "text_index r ?w = None" using text_index_None [OF v] new by blast
    moreover have "?w \<noteq> []" using b by (auto simp: blank_def word_of_def)
    ultimately show ?thesis
      using b s(1) unfolding blank_def word_of_def r'_def r1_def origin_def by (simp add: Reserve_ingest_def Let_def wid word_triple_def)
  qed
  have tab: "length (held r) = WASM_K" "\<And>j. j < WASM_K \<Longrightarrow> length (held r ! j) = ?n"
    "rv_deliveries r + of_nat ?n = of_nat (marks (held r))" using view_okD(4) [OF v] by (simp_all add: table_def)
  have held1: "held r1 ! j = held r ! j @ [False]" if "j < WASM_K" for j using that tab(1) by (simp add: r1_def)
  have held: "held r' ! j = held r ! j @ [j = unat origin]" if "j < WASM_K" for j
  proof -
    have "held r' ! j = (if j = unat origin then (held r1 ! j)[?n := True] else held r1 ! j)"
      using that tab(1) by (simp add: r'_def set_held_def r1_def nth_list_update)
    moreover have "(held r ! j @ [False])[?n := True] = held r ! j @ [True]"
      using tab(2) [OF that] by (simp add: list_update_append)
    ultimately show ?thesis using held1 [OF that] by auto
  qed
  have "marks (held r1) = marks (held r)" by (simp add: r1_def marks_def comp_def)
  moreover have "marks ((held r1)[unat origin := (held r1 ! unat origin)[?n := True]]) = marks (held r1) + 1"
    by (rule marks_update) (use o tab in \<open>simp_all add: r1_def nth_append\<close>)
  moreover have "held r' = (held r1)[unat origin := (held r1 ! unat origin)[?n := True]]"
    by (simp add: r'_def set_held_def)
  ultimately have "marks (held r') = marks (held r) + 1" by simp
  then have table: "table (?n + 1) r'"
    using tab held by (simp add: table_def r'_def set_held_def r1_def algebra_simps)
  have idx: "((text_index r)(?w \<mapsto> ?wid)) w = Some k \<longleftrightarrow> unat k < ?n + 1 \<and> (texts r @ [?w]) ! unat k = w" for w k
  proof (cases "unat k = ?n")
    case True
    then have "k = ?wid" using wid by (simp add: word_unat_eq_iff)
    moreover have "text_index r w \<noteq> Some k" using view_okD(8) [OF v, of w k] True by auto
    ultimately show ?thesis using wid by auto
  next
    case False
    then have "k \<noteq> ?wid" using wid by auto
    moreover have "w = ?w \<Longrightarrow> \<not> (unat k < ?n \<and> texts r ! unat k = w)" using new by (metis nth_mem)
    ultimately show ?thesis using view_okD(8) [OF v, of w k] False by (auto simp: nth_append less_Suc_eq)
  qed
  have same: "mock (of_nat j) \<noteq> mock ?wid" if "j < ?n" for j
  proof
    assume "mock (of_nat j) = mock ?wid"
    then have "unat (of_nat j :: u32) = unat ?wid" using mock_inj by metis
    with that n show False by (simp add: unat_of_nat wid)
  qed
  have mirror: "held r' ! i ! j \<longleftrightarrow> mock (of_nat j) |\<in>| index (nodes s ! i)" if "i < WASM_K" "j < ?n + 1" for i j
  proof (cases "j = ?n")
    case True
    then show ?thesis using held [OF that(1)] tab(2) [OF that(1)] s(5) that(1) fresh by (auto simp: nth_append)
  next
    case False
    then have j: "j < ?n" using that(2) by simp
    then show ?thesis
      using held [OF that(1)] tab(2) [OF that(1)] s(5) that(1) same [OF j] view_okD(9) [OF v that(1) j] by (auto simp: nth_append)
  qed
  have some: "\<exists>i < WASM_K. held r' ! i ! j" if "j < ?n + 1" for j
  proof (cases "j = ?n")
    case True
    then show ?thesis using held [OF o] tab(2) [OF o] o by (intro exI [of _ "unat origin"]) (simp add: nth_append)
  next
    case False
    then have j: "j < ?n" using that by simp
    from view_okD(10) [OF v this] obtain i where "i < WASM_K" "held r ! i ! j" by blast
    then show ?thesis using held tab(2) j by (intro exI [of _ i]) (simp add: nth_append)
  qed
  have "texts r' = texts r @ [?w]" "rv_sim r' = s" "origins r' = origins r @ [origin]" "text_index r' = (text_index r)(?w \<mapsto> ?wid)"
    by (simp_all add: r'_def r1_def set_held_def)
  moreover have "length (nodes s) = WASM_K" using s(3) view_okD(3) [OF v] by (simp add: grew_def kept_def)
  ultimately have "view_ok r'"
    using s(2) connected_grew [OF s(3) view_okD(2) [OF v]] table view_okD(5,6) [OF v] new n idx mirror some
    by (simp add: view_ok_def)
  moreover have "\<not> rv_converged r'" by (simp add: r'_def)
  moreover have "steps (rv_sim r') = steps (rv_sim r)" using s(4) by (simp add: r'_def set_held_def)
  ultimately show ?thesis using ing held o \<open>texts r' = _\<close> unfolding word_count_def by blast
qed

lemma ingest_ok:
  assumes "view_ok r" and "length (texts r) + 1 < 2 ^ 32"
  shows "\<exists>v r'. Reserve_ingest t r = Done (v, r') \<and> view_ok r' \<and> length (texts r') \<le> length (texts r) + 1
    \<and> steps (rv_sim r') = steps (rv_sim r)"
proof (cases "blank t")
  case True
  with assms(1) show ?thesis by (simp add: ingest_blank)
next
  case False
  show ?thesis
  proof (cases "text_index r (word_of t)")
    case None
    with ingest_new [OF assms(1) False _ assms(2)] text_index_None [OF assms(1)] show ?thesis by fastforce
  next
    case (Some wid)
    from ingest_known [OF False this] assms(1) show ?thesis by auto
  qed
qed


subsection \<open>Steps\<close>

lemma scan_ok:
  assumes v: "view_ok r" and st: "sim_step (rv_sim r) = Done (True, s)"
  shows "\<exists>r'. scan_holds (r\<lparr>rv_sim := s\<rparr>) = Done r' \<and> view_ok r' \<and> texts r' = texts r \<and> rv_sim r' = s
    \<and> rv_converged r' = rv_converged r"
proof -
  let ?n = "length (texts r)" let ?r = "r\<lparr>rv_sim := s\<rparr>"
  have s: "sim_inv (words_of ?n) s" "grew (rv_sim r) s"
    using move_ok [OF view_okD(1) [OF v] sim_move.stepped [OF st]] by simp_all
  have len: "length (nodes s) = WASM_K" using s(2) view_okD(3) [OF v] by (simp add: grew_def kept_def)
  have "table ?n ?r" using view_okD(4) [OF v] by (simp add: table_def)
  moreover have "set (List.product [0..<WASM_K] [0..<?n]) \<subseteq> {..<WASM_K} \<times> {..<?n}" by auto
  ultimately obtain r' where
    r': "scan_holds ?r = Done r'" "table ?n r'" "rv_sim r' = s" "texts r' = texts r" "origins r' = origins r"
      "text_index r' = text_index r" "rv_converged r' = rv_converged r"
    and h: "\<forall>i < WASM_K. \<forall>j < ?n. held r' ! i ! j \<longleftrightarrow> held r ! i ! j \<or> mock (of_nat j) |\<in>| index (nodes s ! i)"
    using scan_cells_ok [of ?n ?r "List.product [0..<WASM_K] [0..<?n]"] len
    by (auto simp: scan_holds_def lessThan_atLeast0)
  have "held r' ! i ! j \<longleftrightarrow> mock (of_nat j) |\<in>| index (nodes s ! i)" if "i < WASM_K" "j < ?n" for i j
    using h that view_okD(9) [OF v that] s(2) view_okD(3) [OF v] by (auto simp: grew_def dest: fsubsetD)
  moreover have "\<exists>i < WASM_K. held r' ! i ! j" if "j < ?n" for j using view_okD(10) [OF v that] h that by blast
  ultimately have "view_ok r'"
    using r' s(1) len connected_grew [OF s(2) view_okD(2) [OF v]] view_okD(5-8) [OF v] by (simp add: view_ok_def)
  with r' show ?thesis by blast
qed

lemma step_loop_ok:
  assumes "view_ok r" and "unat (steps (rv_sim r)) + k < 1999999" and "unat n + k < 2 ^ 32"
  shows "\<exists>m r'. step_loop k n r = Done (m, r') \<and> view_ok r' \<and> texts r' = texts r \<and> rv_converged r' = rv_converged r
    \<and> unat (steps (rv_sim r')) \<le> unat (steps (rv_sim r)) + k \<and> (unat m < unat n + k \<longrightarrow> queue (rv_sim r') = [])"
  using assms
proof (induction k arbitrary: n r)
  case (Suc k)
  show ?case
  proof (cases "queue (rv_sim r) = []")
    case True
    then have "step_loop (Suc k) n r = Done (n, r)" by (simp add: sim_step_def)
    with Suc.prems(1) True show ?thesis by simp
  next
    case False
    have u: "unat (steps (rv_sim r) + 1) = unat (steps (rv_sim r)) + 1" "unat (n + 1) = unat n + 1"
      using Suc.prems(2,3) by (simp_all add: unat_word_ariths)
    then have "steps (rv_sim r) + 1 < 2000000" using Suc.prems(2) by (simp add: word_less_nat_alt)
    from step_ok [OF view_okD(1) [OF Suc.prems(1)] False this] obtain s where st: "sim_step (rv_sim r) = Done (True, s)" by blast
    from scan_ok [OF Suc.prems(1) st] obtain r1 where r1: "scan_holds (r\<lparr>rv_sim := s\<rparr>) = Done r1" "view_ok r1" "texts r1 = texts r"
      "rv_sim r1 = s" "rv_converged r1 = rv_converged r" by blast
    have "unat (steps (rv_sim r1)) = unat (steps (rv_sim r)) + 1" using steps_step [OF st] r1(4) u by simp
    with Suc.IH [OF r1(2), of "n + 1"] Suc.prems(2,3) u(2) obtain m r' where
      "step_loop k (n + 1) r1 = Done (m, r')" "view_ok r'" "texts r' = texts r1" "rv_converged r' = rv_converged r1"
      "unat (steps (rv_sim r')) \<le> unat (steps (rv_sim r)) + 1 + k" "unat m < unat n + 1 + k \<longrightarrow> queue (rv_sim r') = []" by auto
    with st r1 show ?thesis by simp
  qed
qed simp

lemma quiet_full:
  assumes v: "view_ok r" and q: "queue (rv_sim r) = []"
  shows "(\<forall>i < WASM_K. Node_deficit (puller (nodes (rv_sim r) ! i)) = 0) \<and> (\<forall>i < WASM_K. \<forall>j < length (texts r). held r ! i ! j)"
proof -
  let ?U = "map (\<lambda>j. mock (of_nat j)) [0..<length (texts r)]"
  have "\<exists>i < length (nodes (rv_sim r)). c |\<in>| index (nodes (rv_sim r) ! i)" if "c \<in> set ?U" for c
  proof -
    from that obtain j where j: "j < length (texts r)" "c = mock (of_nat j)" by auto
    from view_okD(10) [OF v j(1)] obtain i where "i < WASM_K" "held r ! i ! j" by blast
    then show ?thesis using view_okD(9) [OF v _ j(1)] view_okD(3) [OF v] j(2) by auto
  qed
  then have "assert_converged ?U (rv_sim r) = Done ()"
    by (intro silent_converged [OF view_okD(1) [OF v] q view_okD(2) [OF v]]) blast
  then have c: "Node_deficit (puller (nodes (rv_sim r) ! i)) = 0" "list_all (\<lambda>c. c |\<in>| index (nodes (rv_sim r) ! i)) ?U"
    if "i < WASM_K" for i
    using view_okD(3) [OF v] that by (simp_all add: assert_converged_def list_all_length [of _ "nodes (rv_sim r)"] split: if_splits)
  have "held r ! i ! j" if "i < WASM_K" "j < length (texts r)" for i j
    using c(2) [OF that(1)] that(2) view_okD(9) [OF v that] by (simp add: list_all_iff)
  with c(1) show ?thesis by blast
qed

lemma all_settled_eq:
  "\<forall>i \<in> set is. i < length (nodes s) \<Longrightarrow> all_settled is s = Done (\<forall>i \<in> set is. Node_deficit (puller (nodes s ! i)) = 0)"
  by (induction "is") (auto simp: sim_deficit_def on_node_def)

lemma Reserve_step_ok:
  assumes v: "view_ok r" and b: "unat (steps (rv_sim r)) + unat b < 1999999"
  shows "\<exists>m r'. Reserve_step b r = Done (m, r') \<and> view_ok r' \<and> texts r' = texts r
    \<and> unat (steps (rv_sim r')) \<le> unat (steps (rv_sim r)) + unat b
    \<and> (m < b \<longrightarrow> (\<forall>i < WASM_K. \<forall>j < length (texts r'). held r' ! i ! j) \<and> (texts r' \<noteq> [] \<longrightarrow> rv_converged r'))"
proof -
  have "unat b < 2 ^ 32" using unsigned_less [of b] by simp
  with step_loop_ok [OF v b, of 0] obtain m r1 where r1: "step_loop (unat b) 0 r = Done (m, r1)" "view_ok r1" "texts r1 = texts r"
    "unat (steps (rv_sim r1)) \<le> unat (steps (rv_sim r)) + unat b" "m < b \<longrightarrow> queue (rv_sim r1) = []"
    by (auto simp: word_less_nat_alt)
  define z where "z \<longleftrightarrow> (\<forall>i < WASM_K. Node_deficit (puller (nodes (rv_sim r1) ! i)) = 0)"
  have z: "sim_deficit_zero r1 = Done z"
    using all_settled_eq [of "[0..<WASM_K]" "rv_sim r1"] view_okD(3) [OF r1(2)] by (auto simp: sim_deficit_zero_def z_def)
  let ?r = "if \<not> rv_converged r1 \<and> texts r1 \<noteq> [] \<and> z then r1\<lparr>rv_converged := True, rv_events := rv_events r1 @ [''converged'']\<rparr> else r1"
  have "Reserve_step b r = Done (m, ?r)" using r1(1) z by (simp add: Reserve_step_def)
  moreover have "view_ok ?r" using r1(2) by simp
  moreover have "m < b \<longrightarrow> z \<and> (\<forall>i < WASM_K. \<forall>j < length (texts r1). held r1 ! i ! j)"
    using quiet_full [OF r1(2)] r1(5) by (simp add: z_def)
  ultimately show ?thesis using r1(3,4) by (intro exI [of _ m] exI [of _ ?r]) auto
qed

fun words_sent :: "page_call list \<Rightarrow> nat" where
  "words_sent [] = 0"
| "words_sent (Word t # cs) = Suc (words_sent cs)"
| "words_sent (Budget b # cs) = words_sent cs"

fun steps_asked :: "page_call list \<Rightarrow> nat" where
  "steps_asked [] = 0"
| "steps_asked (Word t # cs) = steps_asked cs"
| "steps_asked (Budget b # cs) = unat b + steps_asked cs"

lemma page_calls_ok:
  assumes "view_ok r" and "length (texts r) + words_sent cs < 2 ^ 32" and "unat (steps (rv_sim r)) + steps_asked cs < 1999999"
  shows "\<exists>r'. page_calls cs r = Done r' \<and> view_ok r' \<and> length (texts r') \<le> length (texts r) + words_sent cs
    \<and> unat (steps (rv_sim r')) \<le> unat (steps (rv_sim r)) + steps_asked cs"
  using assms
proof (induction cs arbitrary: r)
  case (Cons c cs)
  show ?case
  proof (cases c)
    case (Word t)
    with Cons.prems have "length (texts r) + 1 < 2 ^ 32" by simp
    from ingest_ok [OF Cons.prems(1) this, of t] obtain v r1 where r1: "Reserve_ingest t r = Done (v, r1)" "view_ok r1"
      "length (texts r1) \<le> length (texts r) + 1" "steps (rv_sim r1) = steps (rv_sim r)" by blast
    with Cons.IH [OF r1(2)] Cons.prems(2,3) Word show ?thesis by fastforce
  next
    case (Budget b)
    with Cons.prems have "unat (steps (rv_sim r)) + unat b < 1999999" by simp
    from Reserve_step_ok [OF Cons.prems(1) this] obtain m r1 where r1: "Reserve_step b r = Done (m, r1)" "view_ok r1"
      "texts r1 = texts r" "unat (steps (rv_sim r1)) \<le> unat (steps (rv_sim r)) + unat b" by blast
    with Cons.IH [OF r1(2)] Cons.prems(2,3) Budget show ?thesis by fastforce
  qed
qed simp


lemma page_reached:
  assumes "words_sent cs < 2 ^ 32" and "steps_asked cs < 1999999"
  shows "\<exists>r. bind_exec Reserve_new (page_calls cs) = Done r \<and> view_ok r \<and> length (texts r) \<le> words_sent cs
    \<and> unat (steps (rv_sim r)) \<le> steps_asked cs"
proof -
  obtain r0 where r0: "Reserve_new = Done r0" "view_ok r0" "texts r0 = []" "steps (rv_sim r0) = 0" using Reserve_new_ok by blast
  with page_calls_ok [of r0 cs] assms obtain r where "page_calls cs r0 = Done r" "view_ok r"
    "length (texts r) \<le> words_sent cs" "unat (steps (rv_sim r)) \<le> steps_asked cs" by auto
  then show ?thesis unfolding r0(1) by auto
qed

subsection \<open>The counters\<close>

lemma count_cells: "length (filter P xs) = (\<Sum>i<length xs. of_bool (P (xs ! i)))"
proof (induction xs)
  case (Cons x xs)
  then show ?case by (simp only: length_Cons sum.lessThan_Suc_shift) simp
qed simp

lemma table_columns:
  assumes "table n r"
  shows "marks (held r) = (\<Sum>j<n. length (filter (\<lambda>row. row ! j) (held r)))"
proof -
  have t: "length (held r) = WASM_K" "\<And>i. i < WASM_K \<Longrightarrow> length (held r ! i) = n" using assms by (simp_all add: table_def)
  have "marks (held r) = (\<Sum>i<WASM_K. length (filter (\<lambda>h. h) (held r ! i)))"
    by (simp add: marks_def sum_list_sum_nth t(1) lessThan_atLeast0)
  also have "\<dots> = (\<Sum>i<WASM_K. \<Sum>j<n. of_bool (held r ! i ! j))" by (rule sum.cong) (simp_all add: count_cells t(2))
  also have "\<dots> = (\<Sum>j<n. \<Sum>i<WASM_K. of_bool (held r ! i ! j))" by (rule sum.swap)
  finally show ?thesis by (simp add: count_cells t(1))
qed

lemma column_all:
  assumes "length rows = k"
  shows "length (filter P rows) = k \<longleftrightarrow> (\<forall>i < k. P (rows ! i))"
proof
  assume full: "length (filter P rows) = k"
  show "\<forall>i < k. P (rows ! i)"
  proof (intro allI impI, rule ccontr)
    fix i assume "i < k" "\<not> P (rows ! i)"
    then have "length (filter P rows) < length rows" using assms by (intro length_filter_less [of "rows ! i"]) simp_all
    with full assms show False by simp
  qed
next
  assume "\<forall>i < k. P (rows ! i)"
  then have "\<forall>row \<in> set rows. P row" using assms by (auto simp: in_set_conv_nth)
  then show "length (filter P rows) = k" using assms by simp
qed

lemma sum_full: "\<lbrakk>\<And>j. j < n \<Longrightarrow> f j \<le> (k :: nat); sum f {..<n} = k * n\<rbrakk> \<Longrightarrow> j < n \<Longrightarrow> f j = k"
proof (rule ccontr)
  assume le: "\<And>j. j < n \<Longrightarrow> f j \<le> k" and s: "sum f {..<n} = k * n" and j: "j < n" and ne: "f j \<noteq> k"
  have "sum f {..<n} < sum (\<lambda>_. k) {..<n}"
    by (rule sum_strict_mono_ex1) (use le j ne in \<open>auto intro: bexI [of _ j] simp: order_le_less\<close>)
  then show False using s by (simp add: mult.commute)
qed

lemma counters:
  assumes v: "view_ok r" and n: "26 * length (texts r) < 2 ^ 32"
  shows "j < length (texts r) \<Longrightarrow> unat (held_count (of_nat j) r) = length (filter (\<lambda>row. row ! j) (held r))"
    and "unat (rv_deliveries r) + length (texts r) = (\<Sum>j<length (texts r). length (filter (\<lambda>row. row ! j) (held r)))"
    and "texts r \<noteq> [] \<Longrightarrow> progress r = 1 \<longleftrightarrow> (\<forall>i < WASM_K. \<forall>j < length (texts r). held r ! i ! j)"
proof -
  let ?n = "length (texts r)" let ?c = "\<lambda>j. length (filter (\<lambda>row. row ! j) (held r))"
  have t: "length (held r) = 26" "rv_deliveries r + of_nat ?n = of_nat (marks (held r))"
    using view_okD(4) [OF v] by (simp_all add: table_def WASM_K_def)
  have le: "?c j \<le> 26" for j using length_filter_le [of "\<lambda>row. row ! j" "held r"] t(1) by simp
  show hc: "unat (held_count (of_nat j) r) = ?c j" if j: "j < ?n"
  proof -
    have "unat (of_nat j :: u32) = j" "unat (of_nat (?c j) :: u32) = ?c j"
      using j n le [of j] by (simp_all add: unat_of_nat)
    with j show ?thesis by (simp add: held_count_def)
  qed
  have cols: "marks (held r) = (\<Sum>j<?n. ?c j)" by (rule table_columns [OF view_okD(4) [OF v]])
  have "(\<Sum>j<?n. ?c j) \<le> (\<Sum>j<?n. 26)" by (rule sum_mono) (rule le)
  then have up: "marks (held r) \<le> 26 * ?n" using cols by simp
  have one: "1 \<le> ?c j" if j: "j < ?n" for j
  proof -
    obtain i where "i < WASM_K" "held r ! i ! j" using view_okD(10) [OF v j] by blast
    then have "held r ! i \<in> set (filter (\<lambda>row. row ! j) (held r))" using t(1) by (simp add: WASM_K_def)
    then have "filter (\<lambda>row. row ! j) (held r) \<noteq> []" by (metis list.distinct(1) list.set_cases)
    then show ?thesis by (simp add: Suc_le_eq)
  qed
  have "(\<Sum>j<?n. 1) \<le> (\<Sum>j<?n. ?c j)" by (rule sum_mono) (use one in simp)
  then have low: "?n \<le> marks (held r)" using cols by simp
  have "rv_deliveries r = of_nat (marks (held r) - ?n)" using t(2) low by (simp add: of_nat_diff eq_diff_eq)
  then have d: "unat (rv_deliveries r) = marks (held r) - ?n" using up n by (simp add: unat_of_nat)
  then show "unat (rv_deliveries r) + ?n = (\<Sum>j<?n. ?c j)" using low cols by simp
  assume ne: "texts r \<noteq> []"
  then have "(of_nat ?n :: rat) \<noteq> 0" by simp
  then have "progress r = 1 \<longleftrightarrow> (of_nat (marks (held r) - ?n) :: rat) = of_nat (?n * 25)"
    using ne by (auto simp: progress_def WASM_K_def d)
  also have "\<dots> \<longleftrightarrow> marks (held r) - ?n = ?n * 25" by (rule of_nat_eq_iff)
  also have "\<dots> \<longleftrightarrow> (\<Sum>j<?n. ?c j) = 26 * ?n" using low cols by auto
  also have "\<dots> \<longleftrightarrow> (\<forall>j < ?n. ?c j = 26)"
  proof
    show "\<forall>j < ?n. ?c j = 26" if "(\<Sum>j<?n. ?c j) = 26 * ?n"
      using sum_full [of ?n ?c 26] le that by blast
  qed simp
  finally show "progress r = 1 \<longleftrightarrow> (\<forall>i < WASM_K. \<forall>j < ?n. held r ! i ! j)"
    using column_all [OF t(1)] by (auto simp: WASM_K_def)
qed

subsection \<open>Properties\<close>

text \<open>
  C10: Whatever words a page sends and whatever it steps, below the two limits no call panics, and what it
  shows is what the simulation holds: a mark for each node that stores the word, a count for each word of at
  least one, deliveries that with the words add up to the counts, and a progress of one exactly when every
  node holds every word.
\<close>

theorem page_shows_simulation:
  assumes "26 * words_sent cs < 2 ^ 32" and "steps_asked cs < 1999999"
  shows "\<exists>r. bind_exec Reserve_new (page_calls cs) = Done r
    \<and> (\<forall>node < WASM_K. \<forall>word < length (texts r).
        node_has node (word_triple (of_nat word)) (rv_sim r) = Done (held r ! node ! word))
    \<and> distinct (texts r) \<and> (\<forall>word < length (texts r). 0 < held_count (of_nat word) r)
    \<and> unat (rv_deliveries r) + length (texts r) = (\<Sum>word<length (texts r). unat (held_count (of_nat word) r))
    \<and> (texts r \<noteq> [] \<longrightarrow> (progress r = 1 \<longleftrightarrow> (\<forall>word < length (texts r). held_count (of_nat word) r = 26)))"
proof -
  obtain r where r: "bind_exec Reserve_new (page_calls cs) = Done r" "view_ok r" "length (texts r) \<le> words_sent cs"
    using page_reached [of cs] assms by auto
  have n: "26 * length (texts r) < 2 ^ 32" using r(3) assms(1) by linarith
  note counts = counters [OF r(2) n]
  have mirror: "node_has node (word_triple (of_nat word)) (rv_sim r) = Done (held r ! node ! word)"
    if "node < WASM_K" "word < length (texts r)" for node word
    using view_okD(9) [OF r(2) that] view_okD(3) [OF r(2)] that(1) by (simp add: node_has_def on_node_def word_triple_def)
  have len: "length (held r) = 26" using view_okD(4) [OF r(2)] by (simp add: table_def WASM_K_def)
  have full: "held_count (of_nat word) r = 26 \<longleftrightarrow> (\<forall>node < WASM_K. held r ! node ! word)"
    and some: "0 < held_count (of_nat word) r" if w: "word < length (texts r)" for word
  proof -
    show "held_count (of_nat word) r = 26 \<longleftrightarrow> (\<forall>node < WASM_K. held r ! node ! word)"
      using counts(1) [OF w] column_all [OF len] by (simp add: word_unat_eq_iff WASM_K_def)
    obtain i where "i < WASM_K" "held r ! i ! word" using view_okD(10) [OF r(2) w] by blast
    then have "filter (\<lambda>row. row ! word) (held r) \<noteq> []" using len by (auto simp: filter_empty_conv WASM_K_def)
    then show "0 < held_count (of_nat word) r" using counts(1) [OF w] by (simp add: word_less_nat_alt)
  qed
  show ?thesis
    using r(1) mirror view_okD(6) [OF r(2)] some counts(2,3) full by (intro exI [of _ r]) (auto simp: counts(1))
qed

theorem page_shows_simulation_witness:
  "\<exists>r. bind_exec Reserve_new (page_calls [Word ''Ada'', Word '' ada '', Budget 5]) = Done r
    \<and> unat (rv_deliveries r) + length (texts r) = (\<Sum>word<length (texts r). unat (held_count (of_nat word) r))"
  using page_shows_simulation [of "[Word ''Ada'', Word '' ada '', Budget 5]"] by (simp del: page_calls.simps) blast




text \<open>
  A text without a letter is refused and changes nothing; a word already sent gets its number again and
  leaves words and simulation as they are; a new word gets the next number, and its first letter's node alone holds it.
\<close>

theorem ingest_numbers_words:
  assumes "26 * words_sent cs + 26 < 2 ^ 32" and "steps_asked cs < 1999999"
    and "bind_exec Reserve_new (page_calls cs) = Done r"
  shows "if letter_path (to_lowercase (trim_text t)) = [] then Reserve_ingest t r = Done (- 1, r)
    else if to_lowercase (trim_text t) \<in> set (texts r) then \<exists>word r'. Reserve_ingest t r = Done (2 * of_nat word, r') \<and> word < length (texts r)
      \<and> texts r ! word = to_lowercase (trim_text t) \<and> texts r' = texts r \<and> rv_sim r' = rv_sim r \<and> held r' = held r
    else \<exists>r'. Reserve_ingest t r = Done (2 * word_count r + 1, r') \<and> texts r' = texts r @ [to_lowercase (trim_text t)]
      \<and> held_count (word_count r) r' = 1 \<and> \<not> rv_converged r'"
proof -
  obtain r1 where "bind_exec Reserve_new (page_calls cs) = Done r1" "view_ok r1" "length (texts r1) \<le> words_sent cs"
    using page_reached [of cs] assms(1,2) by auto
  then have v: "view_ok r" and n: "length (texts r) \<le> words_sent cs" using assms(3) by auto
  consider "blank t" | "\<not> blank t" "word_of t \<in> set (texts r)" | "\<not> blank t" "word_of t \<notin> set (texts r)" by blast
  then show ?thesis
  proof cases
    case 1
    then show ?thesis using ingest_blank [of t r] by (simp add: blank_def)
  next
    case 2
    then obtain wid where wid: "text_index r (word_of t) = Some wid" using text_index_None [OF v] by fastforce
    from ingest_known [OF 2(1) wid] obtain e where "Reserve_ingest t r = Done (push_bit 1 wid, r\<lparr>rv_events := e\<rparr>)" by blast
    then show ?thesis
      using 2 view_okD(8) [OF v, of "word_of t" wid] wid
      by (auto simp: blank_def word_of_def push_bit_eq_mult intro!: exI [of _ "unat wid"])
  next
    case 3
    have "length (texts r) + 1 < 2 ^ 32" using n assms(1) by linarith
    from ingest_new [OF v 3 this] obtain r' i where r': "Reserve_ingest t r = Done (or (push_bit 1 (word_count r)) 1, r')" "view_ok r'"
      "texts r' = texts r @ [word_of t]" "\<not> rv_converged r'" "i < WASM_K" "\<forall>j < WASM_K. held r' ! j = held r ! j @ [j = i]" by blast
    have "26 * length (texts r') < 2 ^ 32" using n assms(1) r'(3) by simp
    from counters(1) [OF r'(2) this, of "length (texts r)"] r'(3)
    have "unat (held_count (word_count r) r') = length (filter (\<lambda>row. row ! length (texts r)) (held r'))"
      by (simp add: word_count_def)
    also have "\<dots> = (\<Sum>j<WASM_K. of_bool (j = i))"
    proof -
      have "length (held r') = WASM_K" "length (held r ! j) = length (texts r)" if "j < WASM_K" for j
        using view_okD(4) [OF r'(2)] view_okD(4) [OF v] that by (simp_all add: table_def)
      then show ?thesis using r'(5,6) by (simp add: count_cells nth_append)
    qed
    also have "\<dots> = 1" using r'(5) by (simp add: of_bool_def)
    finally have "held_count (word_count r) r' = 1" by (simp add: word_unat_eq_iff)
    moreover have "or (push_bit 1 (word_count r)) 1 = 2 * word_count r + 1"
      by (simp add: or_one_eq push_bit_eq_mult)
    ultimately show ?thesis using 3 r' by (simp add: blank_def word_of_def)
  qed
qed

theorem ingest_numbers_words_witness:
  "\<exists>r r'. bind_exec Reserve_new (page_calls []) = Done r \<and> Reserve_ingest '' Zoe'' r = Done (2 * word_count r + 1, r')
    \<and> texts r' = [''zoe''] \<and> held_count (word_count r) r' = 1"
proof -
  obtain r where r: "Reserve_new = Done r" "texts r = []" using Reserve_new_ok by blast
  have "to_lowercase (trim_text '' Zoe'') = ''zoe''" "letter_path ''zoe'' \<noteq> []" by code_simp+
  moreover have "bind_exec Reserve_new (page_calls []) = Done r" unfolding r(1) by simp
  moreover from this ingest_numbers_words [of "[]" r "'' Zoe''"] r(2) calculation
  have "\<exists>r'. Reserve_ingest '' Zoe'' r = Done (2 * word_count r + 1, r') \<and> texts r' = [''zoe''] \<and> held_count (word_count r) r' = 1"
    by (simp del: page_calls.simps) blast
  ultimately show ?thesis by blast
qed

end
