(* ===== verification/Transport.thy ===== *)
theory Transport
  imports Hive Pullsync
begin

section \<open>The handshake over a stream: \<open>crates/net/src/transport.rs\<close>\<close>

text \<open>
  The byte pump between the handshake driver and a stream, the scripted one of \<open>Pullsync\<close>. A failed flush and
  a failed close are ignored by the source and have no effect here. The lemmas show that the pump joins
  whatever pieces the stream delivers.
\<close>

definition HANDSHAKE_PROTOCOL :: string where
  "HANDSHAKE_PROTOCOL = ''/swarm/handshake/15.0.0/handshake''"

function drive_handshake :: "crypto \<Rightarrow> bytes \<Rightarrow> handshake \<Rightarrow> stream \<Rightarrow> (bytes option \<times> handshake \<times> stream) exec" where
  "drive_handshake cr input h s = (case hs_poll cr input h of
      Panic \<Rightarrow> Panic
    | Done (HsSend b, h1) \<Rightarrow> (case stream_write b s of
          None \<Rightarrow> Done (None, h1, s)
        | Some s1 \<Rightarrow> drive_handshake cr [] h1 s1)
    | Done (HsNeed, h1) \<Rightarrow> (case stream_read s of
          None \<Rightarrow> Done (None, h1, s)
        | Some (b, s1) \<Rightarrow> drive_handshake cr b h1 s1)
    | Done (HsDone eth, h1) \<Rightarrow> Done (Some eth, h1, s)
    | Done (HsFailed, h1) \<Rightarrow> Done (None, h1, s))"
  by pat_completeness auto
termination
  by (relation "measure (\<lambda>(cr, input, h, s). st_writes s + length (st_reads s))")
     (auto split: nat.splits list.splits if_splits)

declare drive_handshake.simps [simp del]

definition run_handshake :: "crypto \<Rightarrow> stream \<Rightarrow> role \<Rightarrow> bzz_address \<Rightarrow> u64 \<Rightarrow> bool \<Rightarrow> bytes \<Rightarrow> bytes option exec" where
  "run_handshake cr s role mine network_id full_node observed =
     bind_exec (drive_handshake cr [] (Handshake_new role mine network_id full_node observed) s) (\<lambda>(eth, h, s1). Done eth)"

definition run_handshake_learn ::
  "crypto \<Rightarrow> stream \<Rightarrow> role \<Rightarrow> bzz_address \<Rightarrow> u64 \<Rightarrow> bool \<Rightarrow> bytes \<Rightarrow> (bytes \<times> bytes) option exec" where
  "run_handshake_learn cr s role mine network_id full_node observed =
     bind_exec (drive_handshake cr [] (Handshake_new role mine network_id full_node observed) s) (\<lambda>(eth, h, s1).
       Done (case eth of None \<Rightarrow> None | Some e \<Rightarrow> map_option (Pair e) (hs_peer_overlay h)))"

subsection \<open>Whatever the stream delivers\<close>

lemma drive_polled:
  assumes "drive_handshake cr input h s = Done (Some eth, h', s')"
  shows "\<exists>h1 i. (hs_polled cr)\<^sup>*\<^sup>* h h1 \<and> hs_poll cr i h1 = Done (HsDone eth, h')"
  using assms
proof (induction cr input h s rule: drive_handshake.induct)
  case (1 cr input h s)
  from "1.prems" obtain out h1 where p: "hs_poll cr input h = Done (out, h1)"
    by (subst (asm) drive_handshake.simps) (auto split: exec.splits)
  have step: "hs_polled cr h h1" using p by (rule hs_polled.polled)
  have later: ?case if "\<exists>h2 i. (hs_polled cr)\<^sup>*\<^sup>* h1 h2 \<and> hs_poll cr i h2 = Done (HsDone eth, h')"
    using that step by (meson converse_rtranclp_into_rtranclp)
  show ?case
  proof (cases out)
    case (HsSend b)
    with "1.prems" p obtain s1 where s1: "stream_write b s = Some s1" "drive_handshake cr [] h1 s1 = Done (Some eth, h', s')"
      by (subst (asm) drive_handshake.simps) (auto split: option.splits)
    from "1.IH"(1) [OF p refl HsSend s1] show ?thesis by (rule later)
  next
    case HsNeed
    with "1.prems" p obtain b s1 where s1: "stream_read s = Some (b, s1)" "drive_handshake cr b h1 s1 = Done (Some eth, h', s')"
      by (subst (asm) drive_handshake.simps) (auto split: option.splits)
    from "1.IH"(2) [OF p refl HsNeed s1(1) refl s1(2)] show ?thesis by (rule later)
  next
    case (HsDone e)
    with "1.prems" p show ?thesis by (subst (asm) drive_handshake.simps) auto
  next
    case HsFailed
    with "1.prems" p show ?thesis by (subst (asm) drive_handshake.simps) auto
  qed
qed

lemma drive_vouched:
  assumes "drive_handshake cr input (Handshake_new role mine net full obs) s = Done (Some eth, h', s')"
  shows "\<exists>a. bzz_verify cr a net = Some eth \<and> hs_peer_overlay h' = Some (bz_overlay a)"
proof -
  let ?h0 = "Handshake_new role mine net full obs"
  from drive_polled [OF assms] obtain h1 i where p: "(hs_polled cr)\<^sup>*\<^sup>* ?h0 h1" "hs_poll cr i h1 = Done (HsDone eth, h')" by blast
  have start: "hs_start ?h0" by (simp add: hs_start_def Handshake_new_def)
  have "hs_inv cr h1" by (rule hs.inv_run [OF start p(1)])
  moreover have "hs_network_id h1 = net"
    using hs_polled_keeps [OF p(1) hs.inv_start [OF start]] by (simp add: Handshake_new_def)
  ultimately show ?thesis using hs_poll_post [OF p(2)] by (auto simp: hs_post_def hs_inv_def vouched_def)
qed

subsection \<open>Pieces of a message\<close>

text \<open>A poll with new bytes is a poll of the driver that has them in its buffer.\<close>

lemma poll_buffered: "hs_poll cr i h = hs_poll cr [] (h\<lparr>hs_buf := hs_buf h @ i\<rparr>)"
  by (simp add: hs_poll_def)

lemma drive_buffered: "drive_handshake cr i h s = drive_handshake cr [] (h\<lparr>hs_buf := hs_buf h @ i\<rparr>) s"
  by (subst (1 2) drive_handshake.simps) (subst poll_buffered, rule refl)

definition waits :: "handshake \<Rightarrow> bool" where
  "waits h \<longleftrightarrow> hs_step h = AwaitSynAck \<and> hs_role h = Initiator
     \<or> (hs_step h = AwaitSyn \<or> hs_step h = AwaitAck) \<and> hs_role h = Responder"

lemma poll_waits: "waits h \<Longrightarrow> deframe (hs_buf h) = Done None \<Longrightarrow> hs_poll cr [] h = Done (HsNeed, h)"
  by (auto simp: waits_def hs_poll_def await_synack_def await_ack_def drive_responder_def)

definition on_wire :: "bytes list \<Rightarrow> nat \<Rightarrow> bytes \<Rightarrow> stream" where
  "on_wire pieces writes sent = \<lparr>st_reads = pieces, st_writes = writes, st_sent = sent\<rparr>"

lemma drive_reads:
  assumes w: "waits h" and m: "length msg \<le> MAX_FRAME"
    and "buf @ concat pieces = frame msg @ tail" and "[] \<notin> set pieces"
  shows "\<exists>rest pieces'. drive_handshake cr [] (h\<lparr>hs_buf := buf\<rparr>) (on_wire pieces k sent) =
      drive_handshake cr [] (h\<lparr>hs_buf := frame msg @ rest\<rparr>) (on_wire pieces' k sent)
    \<and> rest @ concat pieces' = tail \<and> [] \<notin> set pieces'"
  using assms(3,4)
proof (induction pieces arbitrary: buf)
  case Nil
  then show ?case by (intro exI [of _ tail] exI [of _ "[]"]) simp
next
  case (Cons b pieces)
  show ?case
  proof (cases "length (frame msg) \<le> length buf")
    case True
    then obtain rest where "buf = frame msg @ rest"
      using Cons.prems(1) by (metis append_eq_append_conv_if append_take_drop_id)
    with Cons.prems show ?thesis by (intro exI [of _ rest] exI [of _ "b # pieces"]) auto
  next
    case False
    then have "buf = take (length buf) (frame msg)"
      using Cons.prems(1) by (metis append_eq_append_conv_if append_take_drop_id linorder_le_cases take_all)
    then have "deframe buf = Done None" using deframe_prefix [OF m, of "length buf"] False by simp
    then have "hs_poll cr [] (h\<lparr>hs_buf := buf\<rparr>) = Done (HsNeed, h\<lparr>hs_buf := buf\<rparr>)"
      using poll_waits [of "h\<lparr>hs_buf := buf\<rparr>" cr] w by (simp add: waits_def)
    moreover have "stream_read (on_wire (b # pieces) k sent) = Some (b, on_wire pieces k sent)"
      using Cons.prems(2) by (auto simp: on_wire_def)
    ultimately have "drive_handshake cr [] (h\<lparr>hs_buf := buf\<rparr>) (on_wire (b # pieces) k sent) =
        drive_handshake cr [] (h\<lparr>hs_buf := buf @ b\<rparr>) (on_wire pieces k sent)"
      by (subst drive_handshake.simps) (simp add: drive_buffered [of cr b])
    with Cons.IH [of "buf @ b"] Cons.prems show ?thesis by simp
  qed
qed

lemma drive_sends:
  assumes "hs_poll cr i h = Done (HsSend b, h1)" and "0 < k"
  shows "drive_handshake cr i h (on_wire pieces k sent) = drive_handshake cr [] h1 (on_wire pieces (k - 1) (sent @ b))"
  by (subst drive_handshake.simps) (use assms in \<open>auto simp: on_wire_def split: nat.splits\<close>)

lemma drive_ends:
  "hs_poll cr i h = Done (HsDone eth, h1) \<Longrightarrow> drive_handshake cr i h s = Done (Some eth, h1, s)"
  by (subst drive_handshake.simps) simp

text \<open>An exchange on whole frames, with bytes of the next message behind them.\<close>

lemma hs_buf_new [simp]: "hs_buf (Handshake_new role mine net full obs) = []"
  by (simp add: Handshake_new_def)

lemma responder_replies_more:
  assumes "length obs \<le> 1024"
  shows "hs_poll cr [] ((Handshake_new Responder b net full obs_r)\<lparr>hs_step := AwaitSyn, hs_buf := frame (syn_of obs) @ rest\<rparr>) =
    Done (HsSend (frame (synack_of obs_r (Handshake_new Responder b net full obs_r))),
          (Handshake_new Responder b net full obs_r)\<lparr>hs_step := AwaitAck, hs_buf := rest\<rparr>)"
proof -
  have "length (syn_of obs) \<le> MAX_FRAME" using length_small_syn [OF assms] by (simp add: syn_of_def MAX_FRAME_def)
  moreover have "HsSyn_decode (syn_of obs) = Done (Some \<lparr>syn_observed = obs\<rparr>)"
    using hs_syn_wire.dec_enc [of "\<lparr>syn_observed = obs\<rparr>"] assms by (simp add: syn_of_def)
  ultimately show ?thesis
    by (simp add: hs_poll_def Handshake_new_def drive_responder_def deframe_frame Let_def synack_of_def my_ack_def)
qed

lemma responder_starts:
  "drive_handshake cr [] (Handshake_new Responder b net full obs_r) s =
   drive_handshake cr [] ((Handshake_new Responder b net full obs_r)\<lparr>hs_step := AwaitSyn\<rparr>) s"
proof -
  have "hs_poll cr [] (Handshake_new Responder b net full obs_r) =
      hs_poll cr [] ((Handshake_new Responder b net full obs_r)\<lparr>hs_step := AwaitSyn\<rparr>)"
    by (simp add: hs_poll_def Handshake_new_def)
  then show ?thesis by (subst (1 2) drive_handshake.simps) simp
qed

lemma initiator_over_stream:
  assumes b: "small_bzz b" "bzz_verify cr b net = Some eb" and obs': "obs' \<noteq> []" "length obs' \<le> 1024"
    and pieces: "concat pieces = frame (synack_of obs' (Handshake_new Responder b net full' obs'))" "[] \<notin> set pieces" and k: "2 \<le> k"
  shows "\<exists>h s. drive_handshake cr [] (Handshake_new Initiator a net full obs) (on_wire pieces k []) = Done (Some eb, h, s)
    \<and> st_sent s = frame (syn_of obs) @ frame (HsAck_encode (my_ack (Handshake_new Initiator a net full obs)))
    \<and> hs_peer_overlay h = Some (bz_overlay b)"
proof -
  let ?i = "Handshake_new Initiator a net full obs" and ?r = "Handshake_new Responder b net full' obs'"
  let ?i1 = "?i\<lparr>hs_step := AwaitSynAck\<rparr>" let ?i2 = "?i\<lparr>hs_step := Finish eb, hs_peer_overlay := Some (bz_overlay b)\<rparr>"
  have w: "waits ?i1" by (simp add: waits_def Handshake_new_def)
  have m: "length (synack_of obs' ?r) \<le> MAX_FRAME" using length_synack_of [of ?r obs'] b(1) obs'(2) by (simp add: Handshake_new_def)
  have "drive_handshake cr [] ?i (on_wire pieces k []) = drive_handshake cr [] ?i1 (on_wire pieces (k - 1) (frame (syn_of obs)))"
    using drive_sends [OF initiator_opens, of k] k by simp
  moreover have same: "?i1\<lparr>hs_buf := []\<rparr> = ?i1" by (simp add: Handshake_new_def)
  obtain rest pieces' where "drive_handshake cr [] ?i1 (on_wire pieces (k - 1) (frame (syn_of obs))) =
      drive_handshake cr [] (?i1\<lparr>hs_buf := frame (synack_of obs' ?r) @ rest\<rparr>) (on_wire pieces' (k - 1) (frame (syn_of obs)))"
    and "rest @ concat pieces' = []"
    using drive_reads [OF w m, of "[]" pieces "[]" cr "k - 1" "frame (syn_of obs)"] pieces unfolding same by auto
  moreover have "drive_handshake cr [] (?i1\<lparr>hs_buf := frame (synack_of obs' ?r) @ []\<rparr>) s = drive_handshake cr (frame (synack_of obs' ?r)) ?i1 s" for s
    using drive_buffered [of cr "frame (synack_of obs' ?r)" ?i1 s] by (simp add: Handshake_new_def)
  moreover have "drive_handshake cr (frame (synack_of obs' ?r)) ?i1 (on_wire pieces' (k - 1) (frame (syn_of obs))) =
      drive_handshake cr [] ?i2 (on_wire pieces' (k - 1 - 1) (frame (syn_of obs) @ frame (HsAck_encode (my_ack ?i))))"
    by (rule drive_sends [OF initiator_accepts [OF b(1,2) obs']]) (use k in simp)
  moreover have "hs_poll cr [] ?i2 = Done (HsDone eb, ?i2)" by (simp add: hs_poll_def Handshake_new_def)
  ultimately have "drive_handshake cr [] ?i (on_wire pieces k []) =
      Done (Some eb, ?i2, on_wire pieces' (k - 1 - 1) (frame (syn_of obs) @ frame (HsAck_encode (my_ack ?i))))"
    by (simp add: drive_ends)
  then show ?thesis by (simp add: on_wire_def)
qed

lemma responder_over_stream:
  assumes a: "small_bzz a" "bzz_verify cr a net = Some ea" and obs: "length obs \<le> 1024"
    and pieces: "concat pieces = frame (syn_of obs) @ frame (HsAck_encode (my_ack (Handshake_new Initiator a net full obs)))"
      "[] \<notin> set pieces" and k: "1 \<le> k"
  shows "\<exists>h s. drive_handshake cr [] (Handshake_new Responder b net full' obs') (on_wire pieces k []) = Done (Some ea, h, s)
    \<and> st_sent s = frame (synack_of obs' (Handshake_new Responder b net full' obs')) \<and> hs_peer_overlay h = Some (bz_overlay a)"
proof -
  let ?r = "Handshake_new Responder b net full' obs'"
  let ?ack = "HsAck_encode (my_ack (Handshake_new Initiator a net full obs))" let ?synack = "frame (synack_of obs' ?r)"
  let ?r1 = "?r\<lparr>hs_step := AwaitSyn\<rparr>" and ?r2 = "?r\<lparr>hs_step := AwaitAck\<rparr>"
  let ?r3 = "?r\<lparr>hs_step := Finish ea, hs_peer_overlay := Some (bz_overlay a)\<rparr>"
  have w: "waits ?r1" "waits ?r2" by (simp_all add: waits_def Handshake_new_def)
  have m1: "length (syn_of obs) \<le> MAX_FRAME" using length_small_syn [OF obs] by (simp add: syn_of_def MAX_FRAME_def)
  have m2: "length ?ack \<le> MAX_FRAME"
    using length_small_ack [of "Handshake_new Initiator a net full obs"] a(1) by (simp add: Handshake_new_def MAX_FRAME_def)
  have same: "?r1\<lparr>hs_buf := []\<rparr> = ?r1" by (simp add: Handshake_new_def)
  obtain rest pieces' where one: "drive_handshake cr [] (?r1\<lparr>hs_buf := []\<rparr>) (on_wire pieces k []) =
      drive_handshake cr [] (?r1\<lparr>hs_buf := frame (syn_of obs) @ rest\<rparr>) (on_wire pieces' k [])"
    "rest @ concat pieces' = frame ?ack" "[] \<notin> set pieces'"
    using drive_reads [OF w(1) m1, of "[]" pieces "frame ?ack" cr k "[]"] pieces by auto
  have two: "drive_handshake cr [] (?r1\<lparr>hs_buf := frame (syn_of obs) @ rest\<rparr>) (on_wire pieces' k []) =
      drive_handshake cr [] (?r2\<lparr>hs_buf := rest\<rparr>) (on_wire pieces' (k - 1) ([] @ ?synack))"
    by (rule drive_sends [OF responder_replies_more [OF obs]]) (use k in simp)
  obtain rest' pieces'' where three: "drive_handshake cr [] (?r2\<lparr>hs_buf := rest\<rparr>) (on_wire pieces' (k - 1) ([] @ ?synack)) =
      drive_handshake cr [] (?r2\<lparr>hs_buf := frame ?ack @ rest'\<rparr>) (on_wire pieces'' (k - 1) ([] @ ?synack))"
    "rest' @ concat pieces'' = []"
    using drive_reads [OF w(2) m2, of rest pieces' "[]" cr "k - 1" "[] @ ?synack"] one(2,3) by auto
  have four: "drive_handshake cr [] (?r2\<lparr>hs_buf := frame ?ack @ []\<rparr>) s = drive_handshake cr (frame ?ack) ?r2 s" for s
    using drive_buffered [of cr "frame ?ack" ?r2 s] by (simp add: Handshake_new_def)
  have "drive_handshake cr (frame ?ack) ?r2 s = Done (Some ea, ?r3, s)" for s
    by (rule drive_ends [OF responder_accepts [OF a]])
  with one two three four have "drive_handshake cr [] ?r (on_wire pieces k []) = Done (Some ea, ?r3, on_wire pieces'' (k - 1) ?synack)"
    by (simp add: responder_starts same)
  then show ?thesis by (simp add: on_wire_def)
qed

end
