(* ===== verification/Dnsaddr.thy ===== *)
theory Dnsaddr
  imports Prelude "HOL-Library.Sublist" "HOL-Library.Multiset"
begin

section \<open>Bootstrap resolution: \<open>crates/net/src/dnsaddr.rs\<close>\<close>

text \<open>
  The walk of \<open>dnsaddr=\<close> records, with the TXT lookup as a function from a name to its records or an error.
  Of \<open>libp2p::Multiaddr\<close> the code uses that it is a sequence of protocols; parsing and printing one are
  parameters, as is the lookup.
\<close>

definition MAX_DEPTH :: nat where
  "MAX_DEPTH = 16"

definition TESTNET_BOOTNODE :: string where
  "TESTNET_BOOTNODE = ''/ip4/49.12.172.37/tcp/32490/p2p/QmZsYCbkUXWpfR34PmUwMJvHwJtGfbcMMoAp1G2EydkpRA''"

definition apex_for :: "u64 \<Rightarrow> string option" where
  "apex_for network_id =
     (if network_id = 1 then Some ''/dnsaddr/mainnet.ethswarm.org''
      else if network_id = 10 then Some ''/dnsaddr/testnet.ethswarm.org''
      else None)"

datatype dns_addr_error = NotDnsAddr | Lookup string | NoAddresses

fun dns_error_text :: "dns_addr_error \<Rightarrow> string" where
  "dns_error_text NotDnsAddr = ''not a /dnsaddr/ multiaddr''"
| "dns_error_text (Lookup e) = ''DNS TXT lookup failed: '' @ e"
| "dns_error_text NoAddresses = ''dnsaddr resolved to no addresses''"

subsection \<open>The address text\<close>

definition strip_prefix :: "string \<Rightarrow> string \<Rightarrow> string option" where
  "strip_prefix p s = (if prefix p s then Some (drop (length p) s) else None)"

definition is_dnsaddr :: "string \<Rightarrow> bool" where
  "is_dnsaddr addr \<longleftrightarrow> prefix ''/dnsaddr/'' addr"

definition domain_of :: "string \<Rightarrow> string option" where
  "domain_of addr = (case strip_prefix ''/dnsaddr/'' addr of
      None \<Rightarrow> None
    | Some rest \<Rightarrow> (let s = takeWhile (\<lambda>ch. ch \<noteq> CHR ''/'') rest in if s = [] then None else Some s))"

subsection \<open>The walk\<close>

type_synonym lookup = "string \<Rightarrow> dns_addr_error + string list"
type_synonym dns_queue = "(string \<times> nat) list"

text \<open>The loop over the records of one answer: what it queues, and what it collects.\<close>

fun scan_records :: "nat \<Rightarrow> string list \<Rightarrow> dns_queue \<times> string set \<times> string list \<Rightarrow> dns_queue \<times> string set \<times> string list" where
  "scan_records depth [] st = st"
| "scan_records depth (record # records) (queue, concrete, out) =
     (case strip_prefix ''dnsaddr='' record of
        None \<Rightarrow> scan_records depth records (queue, concrete, out)
      | Some multiaddr \<Rightarrow>
          if is_dnsaddr multiaddr then scan_records depth records (queue @ [(multiaddr, depth + 1)], concrete, out)
          else if multiaddr \<notin> concrete then scan_records depth records (queue, insert multiaddr concrete, out @ [multiaddr])
          else scan_records depth records (queue, concrete, out))"

definition targets :: "string list \<Rightarrow> string list" where
  "targets records = List.map_filter (strip_prefix ''dnsaddr='') records"

lemma scan_records_eq:
  "scan_records depth records (queue, concrete, out) = (queue', concrete', out') \<Longrightarrow>
     queue' = queue @ map (\<lambda>m. (m, depth + 1)) (filter is_dnsaddr (targets records))
     \<and> concrete' = concrete \<union> {m \<in> set (targets records). \<not> is_dnsaddr m}
     \<and> (set out = concrete \<longrightarrow> set out' = concrete') \<and> (distinct out \<longrightarrow> set out = concrete \<longrightarrow> distinct out')"
proof (induction depth records "(queue, concrete, out)" arbitrary: queue concrete out rule: scan_records.induct)
  case (2 depth r rs queue concrete out)
  then show ?case
    by (cases "strip_prefix ''dnsaddr='' r")
       (auto simp: targets_def map_filter_simps split: if_splits)
qed (auto simp: targets_def map_filter_simps)

text \<open>
  The queue shrinks in the multiset order of the hops left: an entry at depth \<open>d\<close> is replaced by entries at
  depth \<open>d + 1\<close>, and entries at \<open>MAX_DEPTH\<close> are dropped.
\<close>

function resolve_loop :: "lookup \<Rightarrow> dns_queue \<Rightarrow> string set \<Rightarrow> string set \<Rightarrow> string list \<Rightarrow> dns_addr_error + string list" where
  "resolve_loop lookup [] visited concrete out = Inr out"
| "resolve_loop lookup ((cur, depth) # queue) visited concrete out =
     (if MAX_DEPTH \<le> depth \<or> cur \<in> visited then resolve_loop lookup queue visited concrete out
      else (case domain_of cur of
          None \<Rightarrow> resolve_loop lookup queue (insert cur visited) concrete out
        | Some domain \<Rightarrow> (case lookup (''_dnsaddr.'' @ domain) of
            Inl e \<Rightarrow> Inl e
          | Inr records \<Rightarrow> (case scan_records depth records (queue, concrete, out) of
              (queue1, concrete1, out1) \<Rightarrow> resolve_loop lookup queue1 (insert cur visited) concrete1 out1))))"
  by pat_completeness auto
termination
proof (relation "inv_image (mult less_than) (\<lambda>(l, q, v, c, out). mset (map (\<lambda>(_, d). MAX_DEPTH - d) q))", goal_cases)
  case 1
  show ?case by (intro wf_inv_image wf_mult wf_less_than)
next
  case (4 lookup cur depth queue visited concrete out domain records queue1 rest concrete1 out1)
  have "scan_records depth records (queue, concrete, out) = (queue1, concrete1, out1)" using 4(4-) by simp
  from scan_records_eq [OF this]
  have q: "queue1 = queue @ map (\<lambda>m. (m, depth + 1)) (filter is_dnsaddr (targets records))" by blast
  let ?M = "mset (map (\<lambda>(_, d). MAX_DEPTH - d) queue)"
    and ?K = "mset (map (\<lambda>m. MAX_DEPTH - (depth + 1)) (filter is_dnsaddr (targets records)))"
  have "(?M + ?K, ?M + {#MAX_DEPTH - depth#}) \<in> mult less_than"
    using 4(1) by (intro one_step_implies_mult) auto
  then show ?case by (simp add: q in_inv_image multiset.map_comp comp_def)
qed (auto intro: subset_implies_mult)

definition resolve_with :: "string \<Rightarrow> lookup \<Rightarrow> dns_addr_error + string list" where
  "resolve_with addr lookup =
     (if \<not> is_dnsaddr addr then Inl NotDnsAddr
      else (case resolve_loop lookup [(addr, 0)] {} {} [] of
          Inl e \<Rightarrow> Inl e
        | Inr out \<Rightarrow> if out = [] then Inl NoAddresses else Inr out))"

definition resolve_multiaddr :: "string \<Rightarrow> lookup \<Rightarrow> dns_addr_error + string list" where
  "resolve_multiaddr addr lookup = (if is_dnsaddr addr then resolve_with addr lookup else Inr [addr])"

subsection \<open>Parsed addresses\<close>

text \<open>The protocols of a multiaddr that the code builds or matches; the others are not looked at.\<close>

datatype 'o protocol = Tcp "16 word" | Sni string | Ws string | P2p bytes | Dns4 string | Tls | Other 'o

type_synonym 'o multiaddr = "'o protocol list"

definition resolve :: "lookup \<Rightarrow> (string \<Rightarrow> 'o multiaddr option) \<Rightarrow> string \<Rightarrow> dns_addr_error + 'o multiaddr list" where
  "resolve system_txt parse addr = (case resolve_with addr system_txt of
      Inl e \<Rightarrow> Inl e
    | Inr strings \<Rightarrow> (let addrs = List.map_filter parse strings
        in if addrs = [] then Inl NoAddresses else Inr addrs))"

definition tcp_bootnodes ::
  "lookup \<Rightarrow> (string \<Rightarrow> 'o multiaddr option) \<Rightarrow> ('o multiaddr \<Rightarrow> string) \<Rightarrow> u64 \<Rightarrow> dns_addr_error + 'o multiaddr list" where
  "tcp_bootnodes system_txt parse print network_id = (case apex_for network_id of
      None \<Rightarrow> Inl NoAddresses
    | Some apex \<Rightarrow> (case resolve system_txt parse apex of
        Inl e \<Rightarrow> Inl e
      | Inr addrs \<Rightarrow> (let dialable = filter (\<lambda>a. \<not> sublist ''/ws'' (print a) \<and> \<not> sublist ''/tls'' (print a)) addrs
          in if dialable = [] then Inl NoAddresses else Inr dialable)))"

text \<open>The loop of \<open>to_rust_wss\<close> keeps the last of each.\<close>

fun wss_parts :: "'o multiaddr \<Rightarrow> 16 word option \<times> string option \<times> bytes option \<times> bool \<Rightarrow>
    16 word option \<times> string option \<times> bytes option \<times> bool" where
  "wss_parts [] st = st"
| "wss_parts (p # ps) (port, sni, pid, is_ws) = wss_parts ps (case p of
       Tcp n \<Rightarrow> (Some n, sni, pid, is_ws)
     | Sni h \<Rightarrow> (port, Some h, pid, is_ws)
     | Ws _ \<Rightarrow> (port, sni, pid, True)
     | P2p i \<Rightarrow> (port, sni, Some i, is_ws)
     | _ \<Rightarrow> (port, sni, pid, is_ws))"

definition to_rust_wss :: "'o multiaddr \<Rightarrow> 'o multiaddr option" where
  "to_rust_wss a = (case wss_parts a (None, None, None, False) of
      (Some port, Some sni, Some pid, True) \<Rightarrow> Some [Dns4 sni, Tcp port, Tls, Ws ''/'', P2p pid]
    | _ \<Rightarrow> None)"

definition wss_bootnodes :: "lookup \<Rightarrow> (string \<Rightarrow> 'o multiaddr option) \<Rightarrow> u64 \<Rightarrow> dns_addr_error + 'o multiaddr list" where
  "wss_bootnodes system_txt parse network_id = (case apex_for network_id of
      None \<Rightarrow> Inl NoAddresses
    | Some apex \<Rightarrow> (case resolve system_txt parse apex of
        Inl e \<Rightarrow> Inl e
      | Inr addrs \<Rightarrow> (let dialable = List.map_filter to_rust_wss addrs
          in if dialable = [] then Inl NoAddresses else Inr dialable)))"

subsection \<open>What the walk should find\<close>

text \<open>
  The addresses a chain reaches, with the number of hops; an answer that fails counts as empty here, and is
  an error of the walk below.
\<close>

definition records_at :: "lookup \<Rightarrow> string \<Rightarrow> string list" where
  "records_at lookup a = (case domain_of a of None \<Rightarrow> [] | Some d \<Rightarrow> (case lookup (''_dnsaddr.'' @ d) of Inl e \<Rightarrow> [] | Inr rs \<Rightarrow> targets rs))"

definition fails_at :: "lookup \<Rightarrow> string \<Rightarrow> bool" where
  "fails_at lookup a \<longleftrightarrow> (\<exists>d e. domain_of a = Some d \<and> lookup (''_dnsaddr.'' @ d) = Inl e)"

inductive hops :: "lookup \<Rightarrow> string \<Rightarrow> string \<Rightarrow> nat \<Rightarrow> bool" for lookup addr where
  start: "hops lookup addr addr 0"
| follow: "hops lookup addr a d \<Longrightarrow> m \<in> set (records_at lookup a) \<Longrightarrow> is_dnsaddr m \<Longrightarrow> hops lookup addr m (Suc d)"

inductive_cases hops_SucE: "hops lookup addr m (Suc d)"
inductive_cases hops_0E: "hops lookup addr m 0"

definition near :: "lookup \<Rightarrow> string \<Rightarrow> string \<Rightarrow> bool" where
  "near lookup addr a \<longleftrightarrow> (\<exists>d < MAX_DEPTH. hops lookup addr a d)"

definition leaves :: "lookup \<Rightarrow> string \<Rightarrow> string set" where
  "leaves lookup addr = {m. \<not> is_dnsaddr m \<and> (\<exists>a. near lookup addr a \<and> m \<in> set (records_at lookup a))}"

definition dist :: "lookup \<Rightarrow> string \<Rightarrow> string \<Rightarrow> nat" where
  "dist lookup addr a = (LEAST d. hops lookup addr a d)"

lemma dist_hops: "hops lookup addr a d \<Longrightarrow> hops lookup addr a (dist lookup addr a)"
  unfolding dist_def by (rule LeastI)

lemma dist_le: "hops lookup addr a d \<Longrightarrow> dist lookup addr a \<le> d"
  unfolding dist_def by (rule Least_le)

lemma near_dist: "near lookup addr a \<longleftrightarrow> (\<exists>d. hops lookup addr a d) \<and> dist lookup addr a < MAX_DEPTH"
  unfolding near_def using dist_hops dist_le by (meson le_less_trans)

text \<open>A shortest chain goes through an address one hop nearer.\<close>

lemma dist_pred:
  assumes "hops lookup addr a d" and "dist lookup addr a = Suc k"
  obtains b where "hops lookup addr b k" "dist lookup addr b = k" "a \<in> set (records_at lookup b)" "is_dnsaddr a"
proof -
  from dist_hops [OF assms(1)] assms(2) have "hops lookup addr a (Suc k)" by simp
  then obtain b where b: "hops lookup addr b k" "a \<in> set (records_at lookup b)" "is_dnsaddr a" by (blast elim: hops_SucE)
  have "hops lookup addr a (Suc (dist lookup addr b))" using dist_hops [OF b(1)] b(2,3) by (rule hops.follow)
  from dist_le [OF this] dist_le [OF b(1)] assms(2) have "dist lookup addr b = k" by simp
  with b that show thesis by blast
qed

text \<open>
  The breadth-first invariant. \<open>k\<close> is the depth at the head of the queue: everything nearer is visited, the
  queue is in order of depth and spans at most one hop, and what a visited address names is visited or queued.
\<close>

definition walk_inv :: "lookup \<Rightarrow> string \<Rightarrow> nat \<Rightarrow> dns_queue \<Rightarrow> string set \<Rightarrow> string set \<Rightarrow> bool" where
  "walk_inv lookup addr k queue visited concrete \<longleftrightarrow>
     sorted (map snd queue) \<and> (\<forall>b e. (b, e) \<in> set queue \<longrightarrow> hops lookup addr b e \<and> k \<le> e \<and> e \<le> Suc k)
     \<and> (\<forall>a \<in> visited. near lookup addr a \<and> dist lookup addr a \<le> k \<and> \<not> fails_at lookup a)
     \<and> (\<forall>a. near lookup addr a \<longrightarrow> dist lookup addr a < k \<longrightarrow> a \<in> visited)
     \<and> (addr \<in> visited \<or> (addr, 0) \<in> set queue)
     \<and> (\<forall>a m. a \<in> visited \<longrightarrow> m \<in> set (records_at lookup a) \<longrightarrow> is_dnsaddr m \<longrightarrow> near lookup addr m \<longrightarrow>
          m \<in> visited \<or> (m, Suc (dist lookup addr a)) \<in> set queue)
     \<and> concrete = {m. \<not> is_dnsaddr m \<and> (\<exists>a \<in> visited. m \<in> set (records_at lookup a))}"

lemma walk_invD:
  assumes "walk_inv lookup addr k queue visited concrete"
  shows "sorted (map snd queue)"
    and "(b, e) \<in> set queue \<Longrightarrow> hops lookup addr b e \<and> k \<le> e \<and> e \<le> Suc k"
    and "a \<in> visited \<Longrightarrow> near lookup addr a \<and> dist lookup addr a \<le> k \<and> \<not> fails_at lookup a"
    and "near lookup addr a \<Longrightarrow> dist lookup addr a < k \<Longrightarrow> a \<in> visited"
    and "addr \<in> visited \<or> (addr, 0) \<in> set queue"
    and "a \<in> visited \<Longrightarrow> m \<in> set (records_at lookup a) \<Longrightarrow> is_dnsaddr m \<Longrightarrow> near lookup addr m \<Longrightarrow>
      m \<in> visited \<or> (m, Suc (dist lookup addr a)) \<in> set queue"
    and "concrete = {m. \<not> is_dnsaddr m \<and> (\<exists>a \<in> visited. m \<in> set (records_at lookup a))}"
  using assms unfolding walk_inv_def by blast+

lemma walk_invI:
  assumes "sorted (map snd queue)"
    and "\<And>b e. (b, e) \<in> set queue \<Longrightarrow> hops lookup addr b e \<and> k \<le> e \<and> e \<le> Suc k"
    and "\<And>a. a \<in> visited \<Longrightarrow> near lookup addr a \<and> dist lookup addr a \<le> k \<and> \<not> fails_at lookup a"
    and "\<And>a. near lookup addr a \<Longrightarrow> dist lookup addr a < k \<Longrightarrow> a \<in> visited"
    and "addr \<in> visited \<or> (addr, 0) \<in> set queue"
    and "\<And>a m. a \<in> visited \<Longrightarrow> m \<in> set (records_at lookup a) \<Longrightarrow> is_dnsaddr m \<Longrightarrow> near lookup addr m \<Longrightarrow>
      m \<in> visited \<or> (m, Suc (dist lookup addr a)) \<in> set queue"
    and "concrete = {m. \<not> is_dnsaddr m \<and> (\<exists>a \<in> visited. m \<in> set (records_at lookup a))}"
  shows "walk_inv lookup addr k queue visited concrete"
  using assms unfolding walk_inv_def by blast

text \<open>The start, or an address one hop beyond a visited one.\<close>

lemma near_cases:
  assumes "near lookup addr a"
  obtains (start) "a = addr" "dist lookup addr a = 0"
  | (hop) b where "near lookup addr b" "dist lookup addr a = Suc (dist lookup addr b)" "a \<in> set (records_at lookup b)" "is_dnsaddr a"
proof (cases "dist lookup addr a")
  case 0
  from assms obtain d where "hops lookup addr a d" by (auto simp: near_dist)
  from dist_hops [OF this] 0 have "a = addr" by (auto elim: hops_0E)
  with 0 start show thesis by blast
next
  case (Suc j)
  from assms obtain d where "hops lookup addr a d" by (auto simp: near_dist)
  from dist_pred [OF this Suc] obtain b where
    b: "hops lookup addr b j" "dist lookup addr b = j" "a \<in> set (records_at lookup b)" "is_dnsaddr a" .
  moreover have "near lookup addr b" using b(1,2) assms Suc by (auto simp: near_dist)
  ultimately show thesis using hop Suc by simp
qed

lemma walk_inv_advance:
  assumes inv: "walk_inv lookup addr k ((cur, depth) # queue) visited concrete"
  shows "walk_inv lookup addr depth ((cur, depth) # queue) visited concrete"
proof (cases "depth = k")
  case False
  note D = walk_invD [OF inv]
  have depth: "depth = Suc k" using False D(2) [of cur depth] by simp
  have all: "e = Suc k" if "(b, e) \<in> set ((cur, depth) # queue)" for b e
  proof -
    have "depth \<le> e" using that D(1) by auto
    with D(2) [OF that] depth show ?thesis by simp
  qed
  have "a \<in> visited" if a: "near lookup addr a" "dist lookup addr a = k" for a
    using a(1)
  proof (cases rule: near_cases)
    case start
    with D(5) all [of addr 0] show ?thesis by auto
  next
    case (hop b)
    with a(2) have "b \<in> visited" by (intro D(4)) simp_all
    from D(6) [OF this hop(3,4) a(1)] hop(2) a(2) all [of a k] show ?thesis by auto
  qed
  then have near: "a \<in> visited" if "near lookup addr a" "dist lookup addr a < Suc k" for a
    using D(4) [of a] that by (auto simp: less_Suc_eq)
  show ?thesis
  proof (rule walk_invI)
    show "hops lookup addr b e \<and> depth \<le> e \<and> e \<le> Suc depth" if "(b, e) \<in> set ((cur, depth) # queue)" for b e
      using D(2) [OF that] all [OF that] depth by simp
    show "near lookup addr a \<and> dist lookup addr a \<le> depth \<and> \<not> fails_at lookup a" if "a \<in> visited" for a
      using D(3) [OF that] depth by simp
    show "a \<in> visited" if "near lookup addr a" "dist lookup addr a < depth" for a
      using near that depth by simp
  qed (use D(1,5,6,7) in blast)+
qed (use inv in simp)

lemma walk_inv_drop:
  assumes inv: "walk_inv lookup addr depth ((cur, depth) # queue) visited concrete" and d: "MAX_DEPTH \<le> depth \<or> cur \<in> visited"
  shows "walk_inv lookup addr depth queue visited concrete"
proof -
  note D = walk_invD [OF inv]
  have seen: "cur \<in> visited" if "near lookup addr cur"
    using d D(4) [OF that] that by (auto simp: near_dist)
  have "near lookup addr addr"
    unfolding near_def by (rule exI [of _ 0]) (simp add: MAX_DEPTH_def hops.start)
  with seen D(5) have "addr \<in> visited \<or> (addr, 0) \<in> set queue" by auto
  moreover have "m \<in> visited \<or> (m, Suc (dist lookup addr a)) \<in> set queue"
    if "a \<in> visited" "m \<in> set (records_at lookup a)" "is_dnsaddr m" "near lookup addr m" for a m
    using D(6) [OF that] seen that(4) by auto
  moreover have "sorted (map snd queue)" using D(1) by simp
  moreover have "hops lookup addr b e \<and> depth \<le> e \<and> e \<le> Suc depth" if "(b, e) \<in> set queue" for b e
    using D(2) [of b e] that by simp
  ultimately show ?thesis using D(3,4,7) by (intro walk_invI) blast+
qed

lemma walk_inv_visit:
  assumes inv: "walk_inv lookup addr depth ((cur, depth) # queue) visited concrete"
    and new: "depth < MAX_DEPTH" "cur \<notin> visited" and ok: "\<not> fails_at lookup cur"
  shows "walk_inv lookup addr depth (queue @ map (\<lambda>m. (m, depth + 1)) (filter is_dnsaddr (records_at lookup cur)))
    (insert cur visited) (concrete \<union> {m \<in> set (records_at lookup cur). \<not> is_dnsaddr m})"
    (is "walk_inv lookup addr depth (queue @ ?more) _ _")
proof -
  note D = walk_invD [OF inv]
  have h: "hops lookup addr cur depth" using D(2) by simp
  then have near: "near lookup addr cur" using new(1) by (auto simp: near_def)
  have dist: "dist lookup addr cur = depth"
    using dist_le [OF h] D(4) [OF near] new(2) by (auto simp: order_le_less)
  show ?thesis
  proof (rule walk_invI)
    have "e \<le> Suc depth" if "e \<in> set (map snd queue)" for e using that D(2) by fastforce
    moreover have "map snd ?more = replicate (length ?more) (Suc depth)" by (simp add: comp_def map_replicate_const)
    moreover have "sorted (map snd queue)" using D(1) by simp
    ultimately show "sorted (map snd (queue @ ?more))" by (simp add: sorted_append)
    show "hops lookup addr b e \<and> depth \<le> e \<and> e \<le> Suc depth" if "(b, e) \<in> set (queue @ ?more)" for b e
    proof (cases "(b, e) \<in> set queue")
      case True
      with D(2) [of b e] show ?thesis by simp
    next
      case False
      with that have "b \<in> set (records_at lookup cur)" "is_dnsaddr b" "e = Suc depth" by auto
      with hops.follow [OF h] show ?thesis by simp
    qed
    show "near lookup addr a \<and> dist lookup addr a \<le> depth \<and> \<not> fails_at lookup a" if "a \<in> insert cur visited" for a
      using that D(3) near dist ok by auto
    show "a \<in> insert cur visited" if "near lookup addr a" "dist lookup addr a < depth" for a
      using D(4) [OF that] by simp
    show "addr \<in> insert cur visited \<or> (addr, 0) \<in> set (queue @ ?more)" using D(5) by auto
    show "m \<in> insert cur visited \<or> (m, Suc (dist lookup addr a)) \<in> set (queue @ ?more)"
      if "a \<in> insert cur visited" "m \<in> set (records_at lookup a)" "is_dnsaddr m" "near lookup addr m" for a m
    proof (cases "a = cur")
      case True
      with that dist show ?thesis by auto
    next
      case False
      with that(1) have "a \<in> visited" by simp
      from D(6) [OF this that(2-4)] show ?thesis by auto
    qed
    show "concrete \<union> {m \<in> set (records_at lookup cur). \<not> is_dnsaddr m}
        = {m. \<not> is_dnsaddr m \<and> (\<exists>a \<in> insert cur visited. m \<in> set (records_at lookup a))}"
      unfolding D(7) by blast
  qed
qed

lemma walk_inv_end:
  assumes inv: "walk_inv lookup addr k [] visited concrete"
  shows "near lookup addr a \<Longrightarrow> a \<in> visited"
proof (induction "dist lookup addr a" arbitrary: a rule: less_induct)
  case less
  from less.prems show ?case
  proof (cases rule: near_cases)
    case start
    with walk_invD(5) [OF inv] show ?thesis by simp
  next
    case (hop b)
    then have "b \<in> visited" by (intro less.hyps) simp_all
    from walk_invD(6) [OF inv this hop(3,4) less.prems] show ?thesis by simp
  qed
qed

definition walk_result :: "lookup \<Rightarrow> string \<Rightarrow> dns_addr_error + string list \<Rightarrow> bool" where
  "walk_result lookup addr res \<longleftrightarrow> (case res of
      Inr out \<Rightarrow> distinct out \<and> set out = leaves lookup addr \<and> (\<forall>a. near lookup addr a \<longrightarrow> \<not> fails_at lookup a)
    | Inl e \<Rightarrow> \<exists>a d. near lookup addr a \<and> domain_of a = Some d \<and> lookup (''_dnsaddr.'' @ d) = Inl e)"

lemma resolve_loop_result:
  assumes "walk_inv lookup addr k queue visited concrete" and "set out = concrete" and "distinct out"
  shows "walk_result lookup addr (resolve_loop lookup queue visited concrete out)"
  using assms
proof (induction lookup queue visited concrete out arbitrary: k rule: resolve_loop.induct)
  case (1 lookup visited concrete out)
  note D = walk_invD [OF 1(1)]
  have seen: "near lookup addr a \<longleftrightarrow> a \<in> visited" for a
    using walk_inv_end [OF 1(1)] D(3) by blast
  then have "leaves lookup addr = concrete" unfolding D(7) leaves_def by blast
  moreover have "\<not> fails_at lookup a" if "near lookup addr a" for a using D(3) that seen by blast
  ultimately show ?case using 1(2,3) by (simp add: walk_result_def)
next
  case (2 lookup cur depth queue visited concrete out)
  note inv = walk_inv_advance [OF 2(4)]
  show ?case
  proof (cases "MAX_DEPTH \<le> depth \<or> cur \<in> visited")
    case True
    then show ?thesis using 2(1) [OF True walk_inv_drop [OF inv True] 2(5,6)] by simp
  next
    case new: False
    then have new': "depth < MAX_DEPTH" "cur \<notin> visited" by auto
    have near: "near lookup addr cur" using walk_invD(2) [OF inv, of cur depth] new'(1) by (auto simp: near_def)
    show ?thesis
    proof (cases "domain_of cur")
      case None
      then have "records_at lookup cur = []" "\<not> fails_at lookup cur" by (simp_all add: records_at_def fails_at_def)
      with walk_inv_visit [OF inv new'] have "walk_inv lookup addr depth queue (insert cur visited) concrete" by simp
      from 2(2) [OF new None this 2(5,6)] new None show ?thesis by simp
    next
      case (Some d)
      show ?thesis
      proof (cases "lookup (''_dnsaddr.'' @ d)")
        case (Inl e)
        with Some new near show ?thesis by (auto simp: walk_result_def)
      next
        case (Inr records)
        with Some have r: "records_at lookup cur = targets records" "\<not> fails_at lookup cur"
          by (simp_all add: records_at_def fails_at_def)
        obtain queue1 concrete1 out1 where scan: "scan_records depth records (queue, concrete, out) = (queue1, concrete1, out1)"
          by (metis prod_cases3)
        from scan_records_eq [OF scan] walk_inv_visit [OF inv new' r(2)] 2(5,6)
        have "walk_inv lookup addr depth queue1 (insert cur visited) concrete1" "set out1 = concrete1" "distinct out1"
          by (simp_all add: r(1))
        from 2(3) [OF new Some Inr scan [symmetric] refl this] scan new Some Inr show ?thesis by simp
      qed
    qed
  qed
qed

lemma walk_inv_start: "walk_inv lookup addr 0 [(addr, 0)] {} {}"
  by (rule walk_invI) (auto intro: hops.start)

text \<open>
  C22: Bootstrap resolution finds exactly what the chain publishes. When the walk succeeds, the answer lists
  without repetition every concrete address in the records of an address fewer than 16 hops away, and
  nothing else; \<open>NoAddresses\<close> means that there is none; and a lookup error is the error of some address of
  the chain. Cycles among the records change nothing.
\<close>

theorem resolve_exact:
  assumes "is_dnsaddr addr"
  shows "case resolve_with addr lookup of
      Inr out \<Rightarrow> out \<noteq> [] \<and> distinct out \<and> set out = leaves lookup addr
    | Inl NotDnsAddr \<Rightarrow> (\<exists>a d. near lookup addr a \<and> domain_of a = Some d \<and> lookup (''_dnsaddr.'' @ d) = Inl NotDnsAddr)
    | Inl (Lookup e) \<Rightarrow> (\<exists>a d. near lookup addr a \<and> domain_of a = Some d \<and> lookup (''_dnsaddr.'' @ d) = Inl (Lookup e))
    | Inl NoAddresses \<Rightarrow> leaves lookup addr = {}
        \<or> (\<exists>a d. near lookup addr a \<and> domain_of a = Some d \<and> lookup (''_dnsaddr.'' @ d) = Inl NoAddresses)"
  using assms resolve_loop_result [OF walk_inv_start [of lookup addr], of "[]"]
  by (auto simp: resolve_with_def walk_result_def split: sum.splits dns_addr_error.splits if_splits)

definition zone :: lookup where
  "zone name = (if name = ''_dnsaddr.loop.example''
     then Inr [''dnsaddr=/dnsaddr/loop.example'', ''dnsaddr=/ip4/3.3.3.3/tcp/1634/p2p/QmC'', ''unrelated''] else Inr [])"

theorem resolve_exact_witness:
  "resolve_with ''/dnsaddr/loop.example'' zone = Inr [''/ip4/3.3.3.3/tcp/1634/p2p/QmC'']
   \<and> leaves zone ''/dnsaddr/loop.example'' = {''/ip4/3.3.3.3/tcp/1634/p2p/QmC''}"
proof -
  have r: "resolve_with ''/dnsaddr/loop.example'' zone = Inr [''/ip4/3.3.3.3/tcp/1634/p2p/QmC'']"
    by code_simp
  have "is_dnsaddr ''/dnsaddr/loop.example''" by code_simp
  from resolve_exact [OF this, of zone] r show ?thesis by simp
qed

end
