(* ===== verification/Runtime.thy ===== *)
theory Runtime
  imports Transport Dnsaddr
begin

section \<open>The node runtime: \<open>crates/net/src/runtime.rs\<close> and \<open>underlay.rs\<close>\<close>

text \<open>
  Discover, select, connect, pull. Below it libp2p is a parameter: a \<open>network\<close> says, from its own state, how
  the attempts to open a stream to a peer end, what stream comes in, and what a dial does to it; what other
  tasks of the process do at the same time is part of that state. A \<open>multiaddr\<close> is its sequence of
  protocols, as in \<open>Dnsaddr\<close>; parsing and printing one are parameters. A libp2p peer id is its bytes.
\<close>

record 'r network =
  nw_open :: "string \<Rightarrow> bytes \<Rightarrow> 'r \<Rightarrow> stream option list \<times> 'r"
  nw_accept :: "string \<Rightarrow> 'r \<Rightarrow> stream option \<times> 'r"
  nw_dial :: "bytes \<Rightarrow> 'r \<Rightarrow> 'r"

record 'o multiaddr_codec =
  ma_parse :: "bytes \<Rightarrow> 'o multiaddr option"
  ma_bytes :: "'o multiaddr \<Rightarrow> bytes"
  ma_local :: "'o multiaddr"

definition PEERS_PROTOCOL :: string where
  "PEERS_PROTOCOL = ''/swarm/hive/2.0.0/peers''"

definition CURSORS_PROTOCOL :: string where
  "CURSORS_PROTOCOL = ''/swarm/pullsync/1.4.0/cursors''"

definition PULLSYNC_PROTOCOL :: string where
  "PULLSYNC_PROTOCOL = ''/swarm/pullsync/1.4.0/pullsync''"

subsection \<open>Select\<close>

record neighbour =
  ng_peer :: discovered_peer
  ng_libp2p :: bytes
  ng_proximity :: u8

fun peer_of :: "'o multiaddr \<Rightarrow> bytes option" where
  "peer_of [] = None"
| "peer_of (P2p p # ps) = Some p"
| "peer_of (_ # ps) = peer_of ps"

definition libp2p_peer_of :: "'o multiaddr_codec \<Rightarrow> bytes \<Rightarrow> bytes option" where
  "libp2p_peer_of mc underlay = Option.bind (ma_parse mc underlay) peer_of"

definition select_neighbours :: "'o multiaddr_codec \<Rightarrow> overlay_neighbourhood \<Rightarrow> discovered_peer list \<Rightarrow> neighbour list" where
  "select_neighbours mc nbhd discovered =
     List.map_filter (\<lambda>p. map_option
         (\<lambda>libp2p. \<lparr>ng_peer = p, ng_libp2p = libp2p, ng_proximity = proximity (nb_overlay nbhd) (dp_overlay p)\<rparr>)
         (libp2p_peer_of mc (dp_underlay p)))
       (filter (\<lambda>p. is_neighbour nbhd (dp_overlay p)) discovered)"

subsection \<open>Grind\<close>

definition grind_nonce :: "u64 \<Rightarrow> bytes" where
  "grind_nonce i = u64_le_bytes i @ replicate 24 0"

text \<open>The \<open>for\<close> over \<open>0..max_tries\<close>, with \<open>left\<close> turns to go from \<open>i\<close>.\<close>

fun grind_loop :: "(bytes \<Rightarrow> u8) \<Rightarrow> u8 \<Rightarrow> nat \<Rightarrow> u64 \<Rightarrow> bytes \<times> u8 \<Rightarrow> bytes \<times> u8" where
  "grind_loop reach bits 0 i best = best"
| "grind_loop reach bits (Suc left) i best =
     (let nonce = grind_nonce i; po = reach nonce
      in if snd best < po
         then (if bits \<le> po then (nonce, po) else grind_loop reach bits left (i + 1) (nonce, po))
         else grind_loop reach bits left (i + 1) best)"

definition grind_overlay_nonce :: "crypto \<Rightarrow> bytes \<Rightarrow> u64 \<Rightarrow> bytes \<Rightarrow> u8 \<Rightarrow> u64 \<Rightarrow> bytes \<times> u8" where
  "grind_overlay_nonce cr eth network_id target bits max_tries =
     grind_loop (\<lambda>nonce. proximity (overlay_address cr eth network_id nonce) target) bits (unat max_tries) 0
       (replicate 32 0, 0)"

subsection \<open>Connect\<close>

record identity =
  id_bzz :: bzz_address
  id_network_id :: u64
  id_full_node :: bool
  id_neighbourhood :: overlay_neighbourhood

definition accept_hive_push ::
  "crypto \<Rightarrow> 'o multiaddr_codec \<Rightarrow> 'r network \<Rightarrow> u64 \<Rightarrow> overlay_neighbourhood \<Rightarrow> 'r \<Rightarrow> (neighbour list \<times> 'r) exec" where
  "accept_hive_push cr mc nw network_id nbhd r = (case nw_accept nw PEERS_PROTOCOL r of
      (None, r1) \<Rightarrow> Done ([], r1)
    | (Some s, r1) \<Rightarrow>
        bind_exec (receive_peers cr (st_reads s) network_id) (\<lambda>discovered. Done (select_neighbours mc nbhd discovered, r1)))"

definition handshake_neighbour ::
  "crypto \<Rightarrow> 'r network \<Rightarrow> bytes \<Rightarrow> bzz_address \<Rightarrow> u64 \<Rightarrow> bool \<Rightarrow> bytes \<Rightarrow> 'r \<Rightarrow> (bytes option \<times> 'r) exec" where
  "handshake_neighbour cr nw peer mine network_id full_node observed r =
     (let (attempts, r1) = nw_open nw HANDSHAKE_PROTOCOL peer r
      in case open_stream attempts of
           None \<Rightarrow> Done (None, r1)
         | Some s \<Rightarrow> bind_exec (run_handshake cr s Initiator mine network_id full_node observed) (\<lambda>eth. Done (eth, r1)))"

definition learn_peer_overlay ::
  "crypto \<Rightarrow> 'o multiaddr_codec \<Rightarrow> 'r network \<Rightarrow> 'o multiaddr \<Rightarrow> bzz_address \<Rightarrow> u64 \<Rightarrow> bool \<Rightarrow> 'r \<Rightarrow> (bytes option \<times> 'r) exec" where
  "learn_peer_overlay cr mc nw bootnode mine network_id full_node r = (case peer_of bootnode of
      None \<Rightarrow> Done (None, r)
    | Some boot \<Rightarrow>
        (let (attempts, r1) = nw_open nw HANDSHAKE_PROTOCOL boot (nw_dial nw (ma_bytes mc bootnode) r)
         in case open_stream attempts of
              None \<Rightarrow> Done (None, r1)
            | Some s \<Rightarrow> bind_exec (run_handshake_learn cr s Initiator mine network_id full_node (ma_bytes mc bootnode))
                (\<lambda>learned. Done (map_option snd learned, r1))))"

text \<open>
  \<open>drive_swarm\<close>: what its \<open>select!\<close> sees, in the order it comes, with the addresses dialed and the map of
  where each peer was observed. It ends when the sender of dials is gone.
\<close>

datatype 'o swarm_input =
    ConnectionEstablished bytes "'o multiaddr"
  | OtherEvent
  | DialRequest "'o multiaddr"
  | DialsClosed

fun drive_swarm :: "'o swarm_input list \<Rightarrow> 'o multiaddr list \<times> (bytes \<Rightarrow> 'o multiaddr option)
    \<Rightarrow> 'o multiaddr list \<times> (bytes \<Rightarrow> 'o multiaddr option)" where
  "drive_swarm [] st = st"
| "drive_swarm (ConnectionEstablished peer remote # inputs) (dialed, addrs) = drive_swarm inputs (dialed, addrs(peer \<mapsto> remote))"
| "drive_swarm (OtherEvent # inputs) st = drive_swarm inputs st"
| "drive_swarm (DialRequest a # inputs) (dialed, addrs) = drive_swarm inputs (dialed @ [a], addrs)"
| "drive_swarm (DialsClosed # inputs) st = st"

text \<open>The responder's side: what it echoes to a dialer, and the answer to each stream that comes in.\<close>

definition observed_of :: "'o multiaddr_codec \<Rightarrow> (bytes \<Rightarrow> 'o multiaddr option) \<Rightarrow> bytes \<Rightarrow> bytes" where
  "observed_of mc addrs peer = (case addrs peer of
      Some a \<Rightarrow> ma_bytes mc (if peer_of a = None then a @ [P2p peer] else a)
    | None \<Rightarrow> ma_bytes mc (ma_local mc))"

definition serve ::
  "crypto \<Rightarrow> 'o multiaddr_codec \<Rightarrow> (bytes \<Rightarrow> 'o multiaddr option) \<Rightarrow> bzz_address \<Rightarrow> u64 \<Rightarrow> bool \<Rightarrow> (bytes \<times> stream) list
     \<Rightarrow> bytes option exec list" where
  "serve cr mc addrs mine network_id full_node incoming =
     map (\<lambda>(peer, s). run_handshake cr s Responder mine network_id full_node (observed_of mc addrs peer)) incoming"

subsection \<open>The underlay\<close>

record active_peer =
  ap_overlay :: Address
  ap_libp2p :: bytes
  ap_full_node :: bool

record melissi_underlay =
  mu_peers :: "active_peer list"
  mu_identity :: bzz_address
  mu_network_id :: u64

record ant_underlay =
  au_peers :: "(Address \<times> bytes) list"
  au_identity :: bzz_address
  au_network_id :: u64

definition melissi_active_peers :: "melissi_underlay \<Rightarrow> active_peer list" where
  "melissi_active_peers u = mu_peers u"

definition ant_active_peers :: "ant_underlay \<Rightarrow> active_peer list" where
  "ant_active_peers u = map (\<lambda>(overlay, libp2p). \<lparr>ap_overlay = overlay, ap_libp2p = libp2p, ap_full_node = True\<rparr>) (au_peers u)"

subsection \<open>Pull\<close>

text \<open>The carrier: an operation goes to the first peer listed under its id.\<close>

definition libp2p_run ::
  "'r network \<Rightarrow> (PeerId \<times> bytes) list \<Rightarrow> triple_codec \<Rightarrow> op \<Rightarrow> 'r \<Rightarrow> (event option \<times> 'r) exec" where
  "libp2p_run nw route codec op1 r = (case find (\<lambda>(m, _). m = op_peer op1) route of
      None \<Rightarrow> Done (None, r)
    | Some (_, target) \<Rightarrow>
        (let (attempts, r1) = nw_open nw (case op1 of OpCursors _ \<Rightarrow> CURSORS_PROTOCOL | _ \<Rightarrow> PULLSYNC_PROTOCOL) target r
         in bind_exec (run_op codec attempts op1) (\<lambda>ev. Done (ev, r1))))"

text \<open>
  The loop of \<open>drive\<close> takes a carrier that returns. One that panics ends the process: its state is lost, and
  with it the result of the drive.
\<close>

definition guarded :: "(op \<Rightarrow> 'r \<Rightarrow> (event option \<times> 'r) exec) \<Rightarrow> 'r option op_runner" where
  "guarded run op1 st = (case st of
      None \<Rightarrow> (None, None)
    | Some r \<Rightarrow> (case run op1 r of Panic \<Rightarrow> (None, None) | Done (ev, r1) \<Rightarrow> (ev, Some r1)))"

fun add_peers :: "(PeerId \<times> bytes) list \<Rightarrow> session \<Rightarrow> session exec" where
  "add_peers [] s = Done s"
| "add_peers ((mid, _) # ns) s = bind_exec (add_peer mid s) (add_peers ns)"

definition assemble_and_pull ::
  "'r network \<Rightarrow> (PeerId \<times> bytes) list \<Rightarrow> session \<Rightarrow> triple_codec \<Rightarrow> 'r \<Rightarrow> (session \<times> 'r) exec" where
  "assemble_and_pull nw neighbours session codec r =
     bind_exec (add_peers neighbours session) (\<lambda>s.
     bind_exec (drive (guarded (libp2p_run nw neighbours codec)) s (Some r)) (\<lambda>(s1, st).
       case st of None \<Rightarrow> Panic | Some r1 \<Rightarrow> Done (s1, r1)))"

text \<open>The peers of the tile under the ids \<open>1, 2, \<dots>\<close>, eight bits wide.\<close>

fun number_tile :: "overlay_neighbourhood \<Rightarrow> PeerId \<Rightarrow> active_peer list \<Rightarrow> (PeerId \<times> bytes) list" where
  "number_tile nbhd n [] = []"
| "number_tile nbhd n (p # ps) =
     (if is_neighbour nbhd (ap_overlay p) then (n, ap_libp2p p) # number_tile nbhd (n + 1) ps else number_tile nbhd n ps)"

definition pull ::
  "'r network \<Rightarrow> active_peer list \<Rightarrow> overlay_neighbourhood \<Rightarrow> session \<Rightarrow> triple_codec \<Rightarrow> 'r \<Rightarrow> (session \<times> 'r) exec" where
  "pull nw active nbhd session codec r = assemble_and_pull nw (number_tile nbhd 1 active) session codec r"

subsection \<open>The whole client\<close>

fun connect_neighbours ::
  "crypto \<Rightarrow> 'o multiaddr_codec \<Rightarrow> 'r network \<Rightarrow> identity \<Rightarrow> neighbour list \<Rightarrow> 'r \<Rightarrow> (active_peer list \<times> 'r) exec" where
  "connect_neighbours cr mc nw i [] r = Done ([], r)"
| "connect_neighbours cr mc nw i (n # ns) r = (case ma_parse mc (dp_underlay (ng_peer n)) of
      None \<Rightarrow> connect_neighbours cr mc nw i ns r
    | Some addr \<Rightarrow>
        bind_exec (handshake_neighbour cr nw (ng_libp2p n) (id_bzz i) (id_network_id i) (id_full_node i) (ma_bytes mc addr)
            (nw_dial nw (ma_bytes mc addr) r)) (\<lambda>(eth, r1).
        bind_exec (connect_neighbours cr mc nw i ns r1) (\<lambda>(active, r2).
          Done (if eth = None then active
            else \<lparr>ap_overlay = dp_overlay (ng_peer n), ap_libp2p = ng_libp2p n, ap_full_node = True\<rparr> # active, r2))))"

definition Runtime_run ::
  "crypto \<Rightarrow> 'o multiaddr_codec \<Rightarrow> 'r network \<Rightarrow> 'o multiaddr \<Rightarrow> identity \<Rightarrow> session \<Rightarrow> triple_codec \<Rightarrow> 'r \<Rightarrow> (session \<times> 'r) exec" where
  "Runtime_run cr mc nw bootnode i session codec r = (case peer_of bootnode of
      None \<Rightarrow> Done (session, r)
    | Some boot_peer \<Rightarrow>
        bind_exec (handshake_neighbour cr nw boot_peer (id_bzz i) (id_network_id i) (id_full_node i) (ma_bytes mc bootnode)
            (nw_dial nw (ma_bytes mc bootnode) r)) (\<lambda>(eth, r1).
        if eth = None then Done (session, r1)
        else bind_exec (accept_hive_push cr mc nw (id_network_id i) (id_neighbourhood i) r1) (\<lambda>(neighbours, r2).
             bind_exec (connect_neighbours cr mc nw i neighbours r2) (\<lambda>(active, r3).
               pull nw (melissi_active_peers \<lparr>mu_peers = active, mu_identity = id_bzz i, mu_network_id = id_network_id i\<rparr>)
                 (id_neighbourhood i) session codec r3))))"

definition pull_direct ::
  "crypto \<Rightarrow> 'o multiaddr_codec \<Rightarrow> 'r network \<Rightarrow> 'o multiaddr \<Rightarrow> bzz_address \<Rightarrow> u64 \<Rightarrow> bool \<Rightarrow> session \<Rightarrow> triple_codec \<Rightarrow> 'r
     \<Rightarrow> (session \<times> 'r) exec" where
  "pull_direct cr mc nw peer_addr mine network_id full_node session codec r = (case peer_of peer_addr of
      None \<Rightarrow> Done (session, r)
    | Some peer \<Rightarrow>
        bind_exec (handshake_neighbour cr nw peer mine network_id full_node (ma_bytes mc peer_addr)
            (nw_dial nw (ma_bytes mc peer_addr) r)) (\<lambda>(eth, r1).
        if eth = None then Done (session, r1) else assemble_and_pull nw [(1, peer)] session codec r1))"

end
