(* ===== verification/Runtime_Props.thy ===== *)
theory Runtime_Props
  imports Runtime Net_Props
begin

section \<open>Properties of the transport and the runtime\<close>

text \<open>
  The handshake over any cut of the bytes, the nonce the grinder finds, the ids a tile is given, and whom a
  run may pull from: a network that keeps a log of the streams it was asked to open shows the last.
\<close>

subsection \<open>The handshake over a stream\<close>

text \<open>
  C24: Two honest nodes complete the handshake over any stream: each reads the other's bytes cut into any
  non-empty pieces, sends what the other reads, and ends with the other's verified address and overlay.
\<close>

theorem handshake_over_streams:
  assumes "small_bzz a" and "small_bzz b" and "bzz_verify cr a net = Some ea" and "bzz_verify cr b net = Some eb"
    and "length obs \<le> 1024" and "length obs' \<le> 1024" and "obs' \<noteq> []"
  shows "\<exists>greeting reply.
      (\<forall>pieces k. concat pieces = reply \<and> [] \<notin> set pieces \<and> 2 \<le> k \<longrightarrow>
        (\<exists>h s. drive_handshake cr [] (Handshake_new Initiator a net full obs) (on_wire pieces k []) = Done (Some eb, h, s)
          \<and> st_sent s = greeting \<and> hs_peer_overlay h = Some (bz_overlay b)))
    \<and> (\<forall>pieces k. concat pieces = greeting \<and> [] \<notin> set pieces \<and> 1 \<le> k \<longrightarrow>
        (\<exists>h s. drive_handshake cr [] (Handshake_new Responder b net full' obs') (on_wire pieces k []) = Done (Some ea, h, s)
          \<and> st_sent s = reply \<and> hs_peer_overlay h = Some (bz_overlay a)))"
  by (intro exI [of _ "frame (syn_of obs) @ frame (HsAck_encode (my_ack (Handshake_new Initiator a net full obs)))"]
      exI [of _ "frame (synack_of obs' (Handshake_new Responder b net full' obs'))"] conjI allI impI)
     (use assms in \<open>auto intro!: initiator_over_stream responder_over_stream\<close>)

theorem handshake_over_streams_witness:
  "\<exists>a b eb h s pieces. some_identity 7 = Some a \<and> some_identity 8 = Some b
    \<and> drive_handshake plain [] (Handshake_new Initiator a 1 True [1]) (on_wire pieces 2 []) = Done (Some eb, h, s)
    \<and> hs_peer_overlay h = Some (bz_overlay b)"
proof -
  obtain a ea where a: "some_identity 7 = Some a" "small_bzz a" "bzz_verify plain a 1 = Some ea" by (rule some_identity_ok)
  obtain b eb where b: "some_identity 8 = Some b" "small_bzz b" "bzz_verify plain b 1 = Some eb" by (rule some_identity_ok)
  have "length [1 :: u8] \<le> 1024" "length [2 :: u8] \<le> 1024" "[2 :: u8] \<noteq> []" by simp_all
  from handshake_over_streams [OF a(2) b(2) a(3) b(3) this, of True True] obtain greeting reply where
    r: "\<forall>pieces k. concat pieces = reply \<and> [] \<notin> set pieces \<and> 2 \<le> k \<longrightarrow>
      (\<exists>h s. drive_handshake plain [] (Handshake_new Initiator a 1 True [1]) (on_wire pieces k []) = Done (Some eb, h, s)
        \<and> st_sent s = greeting \<and> hs_peer_overlay h = Some (bz_overlay b))"
    by (elim exE conjE) (rule that)
  have "concat (map (\<lambda>x. [x]) reply) = reply \<and> [] \<notin> set (map (\<lambda>x. [x]) reply) \<and> 2 \<le> (2 :: nat)" by auto
  with r obtain h s where "drive_handshake plain [] (Handshake_new Initiator a 1 True [1]) (on_wire (map (\<lambda>x. [x]) reply) 2 []) = Done (Some eb, h, s)"
    "hs_peer_overlay h = Some (bz_overlay b)" by blast
  with a(1) b(1) show ?thesis by blast
qed

subsection \<open>The grinder\<close>

fun best_of :: "u8 \<Rightarrow> ('a \<times> u8) list \<Rightarrow> 'a \<times> u8 \<Rightarrow> 'a \<times> u8" where
  "best_of bits [] best = best"
| "best_of bits ((x, p) # tries) best =
     (if snd best < p then (if bits \<le> p then (x, p) else best_of bits tries (x, p)) else best_of bits tries best)"

definition reaches :: "u8 \<Rightarrow> u8 \<Rightarrow> bool" where
  "reaches bits p \<longleftrightarrow> bits \<le> p \<and> p \<noteq> 0"

lemma grind_loop_best:
  "grind_loop reach bits left i best =
     best_of bits (map (\<lambda>k. (grind_nonce (i + of_nat k), reach (grind_nonce (i + of_nat k)))) [0..<left]) best"
proof (induction left arbitrary: i best)
  case (Suc left)
  have "map (\<lambda>k. (grind_nonce (i + of_nat k), reach (grind_nonce (i + of_nat k)))) [0..<Suc left] =
      (grind_nonce i, reach (grind_nonce i))
      # map (\<lambda>k. (grind_nonce (i + 1 + of_nat k), reach (grind_nonce (i + 1 + of_nat k)))) [0..<left]"
    by (simp add: upt_conv_Cons map_Suc_upt [symmetric] add.assoc del: upt_Suc)
  then show ?case using Suc.IH [of "i + 1"] by (simp add: Let_def del: upt_Suc)
qed simp

lemma best_none:
  assumes "\<forall>t \<in> set tries. \<not> reaches bits (snd t)"
  shows "(\<forall>t \<in> set tries. snd t \<le> snd (best_of bits tries best)) \<and> snd best \<le> snd (best_of bits tries best)
    \<and> (best_of bits tries best = best \<or> best_of bits tries best \<in> set tries)"
  using assms
proof (induction tries arbitrary: best)
  case (Cons t tries)
  obtain x p where t: "t = (x, p)" by (cases t)
  show ?case
  proof (cases "snd best < p")
    case True
    then have "p \<noteq> 0" by auto
    then have "\<not> bits \<le> p" using Cons.prems by (simp add: t reaches_def)
    then show ?thesis using Cons.IH [of "(x, p)"] Cons.prems True by (auto simp: t)
  next
    case False
    then show ?thesis using Cons.IH [of best] Cons.prems by (auto simp: t)
  qed
qed simp

lemma best_first:
  assumes "\<forall>t \<in> set tries. \<not> reaches bits (snd t)" and "reaches bits q" and "\<not> reaches bits (snd best)"
  shows "best_of bits (tries @ (y, q) # later) best = (y, q)"
  using assms(1,3)
proof (induction tries arbitrary: best)
  case Nil
  have "snd best < q"
  proof (cases "bits \<le> snd best")
    case True
    then have "snd best = 0" using Nil by (simp add: reaches_def)
    then show ?thesis using assms(2) by (simp add: reaches_def word_gt_0)
  next
    case False
    then show ?thesis using assms(2) by (meson not_le_imp_less order_less_le_trans reaches_def)
  qed
  then show ?case using assms(2) by (simp add: reaches_def)
next
  case (Cons t tries)
  obtain x p where t: "t = (x, p)" by (cases t)
  have "\<not> bits \<le> p" if "snd best < p"
  proof -
    have "p \<noteq> 0" using that by auto
    then show ?thesis using Cons.prems(1) by (simp add: t reaches_def)
  qed
  then show ?case using Cons.IH [of "(x, p)"] Cons.IH [of best] Cons.prems by (auto simp: t)
qed

definition grind_proximity :: "crypto \<Rightarrow> bytes \<Rightarrow> u64 \<Rightarrow> bytes \<Rightarrow> nat \<Rightarrow> u8" where
  "grind_proximity cr eth net target i = proximity (overlay_address cr eth net (grind_nonce (of_nat i))) target"

lemma grind_tries:
  "grind_overlay_nonce cr eth net target bits max_tries =
     best_of bits (map (\<lambda>i. (grind_nonce (of_nat i), grind_proximity cr eth net target i)) [0..<unat max_tries]) (replicate 32 0, 0)"
  by (simp add: grind_overlay_nonce_def grind_loop_best grind_proximity_def)

lemma upt_split: "i < n \<Longrightarrow> [0..<n] = [0..<i] @ i # [Suc i..<n]"
  using upt_add_eq_append [of 0 i "n - i"] upt_conv_Cons [of i n] by simp

lemma grind_first:
  assumes i: "i < unat max_tries" and at: "reaches bits (grind_proximity cr eth net target i)"
    and before: "\<And>j. j < i \<Longrightarrow> \<not> reaches bits (grind_proximity cr eth net target j)"
  shows "grind_overlay_nonce cr eth net target bits max_tries = (grind_nonce (of_nat i), grind_proximity cr eth net target i)"
  unfolding grind_tries upt_split [OF i] map_append list.map
  by (rule best_first) (use at before in \<open>auto simp: reaches_def\<close>)

lemma grind_none:
  assumes "\<forall>i < unat max_tries. \<not> reaches bits (grind_proximity cr eth net target i)"
    and "grind_overlay_nonce cr eth net target bits max_tries = (nonce, p)"
  shows "(\<forall>i < unat max_tries. grind_proximity cr eth net target i \<le> p)
    \<and> (p = 0 \<or> (\<exists>i < unat max_tries. nonce = grind_nonce (of_nat i) \<and> p = grind_proximity cr eth net target i))"
proof -
  let ?tries = "map (\<lambda>i. (grind_nonce (of_nat i), grind_proximity cr eth net target i)) [0..<unat max_tries]"
  have "\<forall>t \<in> set ?tries. \<not> reaches bits (snd t)" using assms(1) by auto
  from best_none [OF this, of "(replicate 32 0, 0)"] have
    "\<forall>t \<in> set ?tries. snd t \<le> p" "(nonce, p) = (replicate 32 0, 0) \<or> (nonce, p) \<in> set ?tries"
    using assms(2) unfolding grind_tries by simp_all
  then show ?thesis by auto
qed

text \<open>
  C25: The grinder tries the nonces in order. If one within the limit reaches the wanted proximity, it
  returns the first that does; otherwise the best it saw, the proximity it reports is that of the nonce it
  returns, and no nonce within the limit comes closer.
\<close>

theorem grind_exact:
  "let po = grind_proximity cr eth net target in
    if \<exists>i < unat max_tries. bits \<le> po i \<and> po i \<noteq> 0
    then (let i = (LEAST i. bits \<le> po i \<and> po i \<noteq> 0)
          in grind_overlay_nonce cr eth net target bits max_tries = (grind_nonce (of_nat i), po i))
    else (case grind_overlay_nonce cr eth net target bits max_tries of (nonce, p) \<Rightarrow>
        (\<forall>i < unat max_tries. po i \<le> p) \<and> (p = 0 \<or> (\<exists>i < unat max_tries. nonce = grind_nonce (of_nat i) \<and> p = po i)))"
proof -
  let ?r = "\<lambda>i. reaches bits (grind_proximity cr eth net target i)"
  have "grind_overlay_nonce cr eth net target bits max_tries = (grind_nonce (of_nat (Least ?r)), grind_proximity cr eth net target (Least ?r))"
    if "i < unat max_tries" "?r i" for i
  proof (rule grind_first)
    have "Least ?r \<le> i" using that(2) by (rule Least_le)
    then show "Least ?r < unat max_tries" using that(1) by linarith
    show "?r (Least ?r)" using that(2) by (rule LeastI)
  qed (rule not_less_Least)
  then have "\<exists>i < unat max_tries. ?r i \<Longrightarrow> grind_overlay_nonce cr eth net target bits max_tries =
      (grind_nonce (of_nat (Least ?r)), grind_proximity cr eth net target (Least ?r))" by blast
  moreover have "\<not> (\<exists>i < unat max_tries. ?r i) \<Longrightarrow> case grind_overlay_nonce cr eth net target bits max_tries of (nonce, p) \<Rightarrow>
      (\<forall>i < unat max_tries. grind_proximity cr eth net target i \<le> p)
      \<and> (p = 0 \<or> (\<exists>i < unat max_tries. nonce = grind_nonce (of_nat i) \<and> p = grind_proximity cr eth net target i))"
    using grind_none [of max_tries bits cr eth net target] by (cases "grind_overlay_nonce cr eth net target bits max_tries") simp
  ultimately show ?thesis unfolding Let_def reaches_def by presburger
qed

theorem grind_exact_witness:
  "grind_overlay_nonce plain (replicate 20 1) 1 (replicate 32 0) 3 4 = (grind_nonce 0, 7)"
proof -
  have po: "grind_proximity plain (replicate 20 1) 1 (replicate 32 0) 0 = 7" by code_simp
  then have "(LEAST i. 3 \<le> grind_proximity plain (replicate 20 1) 1 (replicate 32 0) i
      \<and> grind_proximity plain (replicate 20 1) 1 (replicate 32 0) i \<noteq> 0) = 0" by (intro Least_equality) simp_all
  moreover have "\<exists>i < unat (4 :: u64). 3 \<le> grind_proximity plain (replicate 20 1) 1 (replicate 32 0) i
      \<and> grind_proximity plain (replicate 20 1) 1 (replicate 32 0) i \<noteq> 0" using po by (intro exI [of _ 0]) simp
  ultimately show ?thesis
    using grind_exact [of plain "replicate 20 1" 1 "replicate 32 0" 4 3] po unfolding Let_def by simp
qed

subsection \<open>The ids of a tile\<close>

definition tile :: "overlay_neighbourhood \<Rightarrow> active_peer list \<Rightarrow> active_peer list" where
  "tile nbhd active = filter (\<lambda>p. is_neighbour nbhd (ap_overlay p)) active"

lemma number_tile_eq:
  "number_tile nbhd n active = map (\<lambda>i. (n + of_nat i, ap_libp2p (tile nbhd active ! i))) [0..<length (tile nbhd active)]"
proof (induction active arbitrary: n)
  case (Cons p ps)
  show ?case
  proof (cases "is_neighbour nbhd (ap_overlay p)")
    case True
    then have "tile nbhd (p # ps) = p # tile nbhd ps" by (simp add: tile_def)
    then show ?thesis
      using True Cons [of "n + 1"] by (simp add: upt_conv_Cons map_Suc_upt [symmetric] add.assoc del: upt_Suc)
  next
    case False
    then have "tile nbhd (p # ps) = tile nbhd ps" by (simp add: tile_def)
    then show ?thesis using False Cons [of n] by simp
  qed
qed (simp add: tile_def)




subsection \<open>Whom a run pulls from\<close>

definition nw_logged :: "'r network \<Rightarrow> ('r \<times> (string \<times> bytes) list) network" where
  "nw_logged nw =
     \<lparr>nw_open = (\<lambda>proto p (r, trace). let (a, r1) = nw_open nw proto p r in (a, (r1, trace @ [(proto, p)]))),
      nw_accept = (\<lambda>proto (r, trace). let (s, r1) = nw_accept nw proto r in (s, (r1, trace))),
      nw_dial = (\<lambda>addr (r, trace). (nw_dial nw addr r, trace))\<rparr>"

lemma drive_loop_keeps:
  assumes "\<And>op1 r. P r \<Longrightarrow> P (snd (run op1 r))" and "P r" and "drive_loop k run s r = Done (s', r')"
  shows "P r'"
  using assms(2,3)
proof (induction k arbitrary: s r)
  case 0
  then show ?case by (subst (asm) drive_loop.simps) (auto split: prod.splits option.splits)
next
  case (Suc k)
  obtain o1 s1 where n: "next_op s = (o1, s1)" by fastforce
  show ?case
  proof (cases o1)
    case None
    with n Suc.prems show ?thesis by (subst (asm) drive_loop.simps) auto
  next
    case (Some op1)
    obtain a r1 where a: "run op1 r = (a, r1)" by fastforce
    have "P r1" using assms(1) [OF Suc.prems(1), of op1] a by simp
    moreover obtain s2 where "drive_loop k run s2 r1 = Done (s', r')"
      using Suc.prems(2) n Some a
      by (subst (asm) drive_loop.simps) (auto simp: bind_exec_eq_Done split: option.splits if_splits)
    ultimately show ?thesis by (rule Suc.IH)
  qed
qed

text \<open>The log of a run holds handshakes, and pull-sync streams to the peers in \<open>S\<close>.\<close>

definition logged_ok :: "bytes set \<Rightarrow> (string \<times> bytes) list \<Rightarrow> bool" where
  "logged_ok S trace \<longleftrightarrow> (\<forall>(proto, p) \<in> set trace. proto = HANDSHAKE_PROTOCOL
     \<or> proto \<in> {CURSORS_PROTOCOL, PULLSYNC_PROTOCOL} \<and> p \<in> S)"

lemma logged_ok_snoc [simp]:
  "logged_ok S (trace @ [(proto, p)]) \<longleftrightarrow>
     logged_ok S trace \<and> (proto = HANDSHAKE_PROTOCOL \<or> (proto = CURSORS_PROTOCOL \<or> proto = PULLSYNC_PROTOCOL) \<and> p \<in> S)"
  by (auto simp: logged_ok_def)

lemma libp2p_run_logged:
  assumes "libp2p_run (nw_logged nw) route codec op1 (r, trace) = Done (ev, (r', trace'))" and "logged_ok (snd ` set route) trace"
  shows "logged_ok (snd ` set route) trace'"
proof (cases "find (\<lambda>(m, _). m = op_peer op1) route")
  case (Some mt)
  define S where "S = snd ` set route"
  have "snd mt \<in> S" unfolding S_def using Some by (metis find_Some_iff imageI nth_mem)
  with Some assms show ?thesis
    unfolding S_def [symmetric] by (cases mt) (auto simp: libp2p_run_def nw_logged_def bind_exec_eq_Done Let_def split: prod.splits op.splits)
qed (use assms in \<open>simp add: libp2p_run_def\<close>)

fun logged_state :: "bytes set \<Rightarrow> ('r \<times> (string \<times> bytes) list) option \<Rightarrow> bool" where
  "logged_state S None = True"
| "logged_state S (Some (r, trace)) = logged_ok S trace"

lemma assemble_logged:
  assumes "assemble_and_pull (nw_logged nw) route session codec (r, trace) = Done (s', (r', trace'))"
    and "logged_ok (snd ` set route) trace"
  shows "logged_ok (snd ` set route) trace'"
proof -
  let ?run = "guarded (libp2p_run (nw_logged nw) route codec)" and ?S = "snd ` set route"
  obtain s where "drive ?run s (Some (r, trace)) = Done (s', Some (r', trace'))"
    using assms(1) by (auto simp: assemble_and_pull_def bind_exec_eq_Done split: option.splits)
  then have d: "drive_loop 1000000 ?run s (Some (r, trace)) = Done (s', Some (r', trace'))" by (simp add: drive_def)
  have keeps: "logged_state ?S (snd (?run op1 st))" if "logged_state ?S st" for op1 st
  proof (cases st)
    case (Some rt)
    obtain r0 trace0 where rt: "rt = (r0, trace0)" by (cases rt)
    show ?thesis
    proof (cases "libp2p_run (nw_logged nw) route codec op1 (r0, trace0)")
      case (Done res)
      obtain ev r1 trace1 where "res = (ev, (r1, trace1))" by (metis prod.collapse)
      with Done libp2p_run_logged [of nw route codec op1 r0 trace0 ev r1 trace1] that Some rt show ?thesis by (simp add: guarded_def)
    qed (simp add: guarded_def Some rt)
  qed (simp add: guarded_def)
  have "logged_state ?S (Some (r', trace'))"
    by (rule drive_loop_keeps [where P = "logged_state ?S", OF _ _ d]) (use keeps assms(2) in simp_all)
  then show ?thesis by simp
qed

text \<open>A neighbour of the tile, named by a binding that verifies, with whom a handshake succeeded.\<close>

definition supplier :: "crypto \<Rightarrow> 'o multiaddr_codec \<Rightarrow> 'r network \<Rightarrow> identity \<Rightarrow> bytes \<Rightarrow> bool" where
  "supplier cr mc nw i p \<longleftrightarrow>
     (\<exists>a eth. bzz_verify cr a (id_network_id i) = Some eth \<and> is_neighbour (id_neighbourhood i) (bz_overlay a)
        \<and> libp2p_peer_of mc (bz_underlay a) = Some p)
     \<and> (\<exists>r s observed eth. open_stream (fst (nw_open nw HANDSHAKE_PROTOCOL p r)) = Some s
        \<and> run_handshake cr s Initiator (id_bzz i) (id_network_id i) (id_full_node i) observed = Done (Some eth))"

lemma handshake_logged:
  assumes "handshake_neighbour cr (nw_logged nw) p mine net full obs (r, trace) = Done (eth, (r', trace'))"
  shows "(logged_ok S trace \<longrightarrow> logged_ok S trace') \<and> (eth \<noteq> None \<longrightarrow>
    (\<exists>s e. open_stream (fst (nw_open nw HANDSHAKE_PROTOCOL p r)) = Some s \<and> run_handshake cr s Initiator mine net full obs = Done (Some e)))"
  using assms
  by (auto simp: handshake_neighbour_def nw_logged_def bind_exec_eq_Done Let_def split: prod.splits option.splits)

lemma connect_logged:
  assumes "connect_neighbours cr mc (nw_logged nw) i ns (r, trace) = Done (active, (r', trace'))"
  shows "(logged_ok S trace \<longrightarrow> logged_ok S trace')
    \<and> (\<forall>p \<in> set active. \<exists>n \<in> set ns. ap_libp2p p = ng_libp2p n \<and> ap_overlay p = dp_overlay (ng_peer n)
        \<and> (\<exists>r s observed e. open_stream (fst (nw_open nw HANDSHAKE_PROTOCOL (ng_libp2p n) r)) = Some s
           \<and> run_handshake cr s Initiator (id_bzz i) (id_network_id i) (id_full_node i) observed = Done (Some e)))"
  using assms
proof (induction ns arbitrary: r trace active)
  case (Cons n ns)
  show ?case
  proof (cases "ma_parse mc (dp_underlay (ng_peer n))")
    case None
    with Cons show ?thesis by fastforce
  next
    case (Some addr)
    have dial: "nw_dial (nw_logged nw) x (r, trace) = (nw_dial nw x r, trace)" for x by (simp add: nw_logged_def)
    from Cons.prems Some obtain eth r1 trace1 active1 where
      h: "handshake_neighbour cr (nw_logged nw) (ng_libp2p n) (id_bzz i) (id_network_id i) (id_full_node i) (ma_bytes mc addr)
        (nw_dial nw (ma_bytes mc addr) r, trace) = Done (eth, (r1, trace1))"
      and c: "connect_neighbours cr mc (nw_logged nw) i ns (r1, trace1) = Done (active1, (r', trace'))"
      and a: "active = (if eth = None then active1
        else \<lparr>ap_overlay = dp_overlay (ng_peer n), ap_libp2p = ng_libp2p n, ap_full_node = True\<rparr> # active1)"
      by (auto simp: bind_exec_eq_Done dial)
    from handshake_logged [OF h, of S] Cons.IH [OF c] show ?thesis
      unfolding a by (cases eth) (fastforce, simp, blast)
  qed
qed simp

lemma receive_verified:
  assumes "receive_peers cr reads net = Done ps" and "p \<in> set ps"
  shows "\<exists>a eth. bzz_verify cr a net = Some eth \<and> dp_overlay p = bz_overlay a \<and> dp_underlay p = bz_underlay a"
proof -
  have loop: "hive_sound cr rx' \<and> hv_network_id rx' = hv_network_id rx"
    if "receive_loop cr reads rx = Done rx'" "hive_sound cr rx" for rx rx'
    using that
  proof (induction reads arbitrary: rx)
    case (Cons b bs)
    show ?case
    proof (cases "b = []")
      case False
      with Cons.prems(1) obtain rx1 where rx1: "hive_feed cr b rx = Done rx1" "receive_loop cr bs rx1 = Done rx'"
        by (auto simp: bind_exec_eq_Done)
      have "hive_sound cr (rx\<lparr>hv_buf := hv_buf rx @ b\<rparr>)" using Cons.prems(2) by (simp add: hive_sound_def)
      from hive_loop_sound [OF rx1(1) [unfolded hive_feed_def] this] have "hive_sound cr rx1" "hv_network_id rx1 = hv_network_id rx" by simp_all
      with Cons.IH [OF rx1(2)] show ?thesis by simp
    qed (use Cons.prems in simp)
  qed simp
  from assms(1) obtain rx where rx: "receive_loop cr reads (HiveReceiver_new net) = Done rx" "ps = hv_peers rx"
    by (auto simp: receive_peers_def bind_exec_eq_Done)
  have "hive_sound cr (HiveReceiver_new net)" by (simp add: hive_sound_def HiveReceiver_new_def)
  from loop [OF rx(1) this] have "hive_sound cr rx" "hv_network_id rx = net" by (simp_all add: HiveReceiver_new_def)
  with rx(2) assms(2) show ?thesis unfolding hive_sound_def by blast
qed

lemma selected:
  assumes "n \<in> set (select_neighbours mc nbhd ps)"
  shows "ng_peer n \<in> set ps \<and> is_neighbour nbhd (dp_overlay (ng_peer n)) \<and> libp2p_peer_of mc (dp_underlay (ng_peer n)) = Some (ng_libp2p n)"
  using assms by (auto simp: select_neighbours_def List.map_filter_def)

text \<open>
  C17: Whatever peers and network do, a run opens pull-sync streams only to suppliers: peers inside our tile
  that a verified binding of our network names, with whom the handshake succeeded. Every other stream it
  opens is a handshake.
\<close>

theorem run_pulls_from_tile:
  assumes "Runtime_run cr mc (nw_logged nw) bootnode i session codec (r, []) = Done (session', (r', trace))"
    and "(proto, p) \<in> set trace" and "proto \<noteq> HANDSHAKE_PROTOCOL"
  shows "proto \<in> {CURSORS_PROTOCOL, PULLSYNC_PROTOCOL} \<and> supplier cr mc nw i p"
proof (cases "peer_of bootnode")
  case (Some boot)
  have dial: "nw_dial (nw_logged nw) x (r, t) = (nw_dial nw x r, t)" for x r t by (simp add: nw_logged_def)
  let ?S = "{p. supplier cr mc nw i p}"
  from assms(1) Some obtain eth r1 t1 where
    h: "handshake_neighbour cr (nw_logged nw) boot (id_bzz i) (id_network_id i) (id_full_node i) (ma_bytes mc bootnode)
      (nw_dial nw (ma_bytes mc bootnode) r, []) = Done (eth, (r1, t1))"
    by (auto simp: Runtime_run_def bind_exec_eq_Done dial)
  have t1: "logged_ok S t1" for S using handshake_logged [OF h] by (auto simp: logged_ok_def)
  have "logged_ok ?S trace"
  proof (cases eth)
    case None
    with assms(1) Some h t1 show ?thesis by (auto simp: Runtime_run_def bind_exec_eq_Done dial)
  next
    case (Some e)
    with assms(1) \<open>peer_of bootnode = Some boot\<close> h obtain ns r2 t2 active r3 t3 where
      acc: "accept_hive_push cr mc (nw_logged nw) (id_network_id i) (id_neighbourhood i) (r1, t1) = Done (ns, (r2, t2))"
      and con: "connect_neighbours cr mc (nw_logged nw) i ns (r2, t2) = Done (active, (r3, t3))"
      and pull: "assemble_and_pull (nw_logged nw) (number_tile (id_neighbourhood i) 1 active) session codec (r3, t3) = Done (session', (r', trace))"
      by (auto simp: Runtime_run_def bind_exec_eq_Done dial pull_def melissi_active_peers_def)
    have t2: "t2 = t1"
      using acc by (auto simp: accept_hive_push_def nw_logged_def bind_exec_eq_Done split: prod.splits option.splits)
    have ns: "\<exists>a eth. bzz_verify cr a (id_network_id i) = Some eth \<and> is_neighbour (id_neighbourhood i) (bz_overlay a)
        \<and> libp2p_peer_of mc (bz_underlay a) = Some (ng_libp2p n)" if "n \<in> set ns" for n
    proof -
      from acc that obtain reads ps where "receive_peers cr reads (id_network_id i) = Done ps" "ns = select_neighbours mc (id_neighbourhood i) ps"
        by (auto simp: accept_hive_push_def nw_logged_def bind_exec_eq_Done split: prod.splits option.splits)
      with selected [of n mc "id_neighbourhood i" ps] that receive_verified [of cr reads "id_network_id i" ps "ng_peer n"] show ?thesis by metis
    qed
    have "snd ` set (number_tile (id_neighbourhood i) 1 active) \<subseteq> ?S"
    proof
      fix q assume "q \<in> snd ` set (number_tile (id_neighbourhood i) 1 active)"
      then obtain k where k: "k < length (tile (id_neighbourhood i) active)" "q = ap_libp2p (tile (id_neighbourhood i) active ! k)"
        by (auto simp: number_tile_eq)
      then have "tile (id_neighbourhood i) active ! k \<in> set active" using nth_mem [OF k(1)] by (auto simp: tile_def)
      with connect_logged [OF con, of ?S] k(2) obtain n where "n \<in> set ns" "q = ng_libp2p n"
        "\<exists>r s observed e. open_stream (fst (nw_open nw HANDSHAKE_PROTOCOL (ng_libp2p n) r)) = Some s
           \<and> run_handshake cr s Initiator (id_bzz i) (id_network_id i) (id_full_node i) observed = Done (Some e)" by metis
      with ns [of n] show "q \<in> ?S" by (simp add: supplier_def)
    qed
    moreover have "logged_ok (snd ` set (number_tile (id_neighbourhood i) 1 active)) t3"
      using connect_logged [OF con, of "snd ` set (number_tile (id_neighbourhood i) 1 active)"] t1 t2 by simp
    ultimately show ?thesis using assemble_logged [OF pull] unfolding logged_ok_def by fast
  qed
  with assms(2,3) show ?thesis by (auto simp: logged_ok_def)
qed (use assms in \<open>simp add: Runtime_run_def\<close>)

subsection \<open>A small network\<close>

text \<open>
  Every handshake is answered by \<open>b\<close>, the hive push names \<open>a\<close>, no pull-sync stream opens; a multiaddr is
  one peer id.
\<close>

definition one_peer :: "unit multiaddr_codec" where
  "one_peer = \<lparr>ma_parse = (\<lambda>bytes. Some [P2p bytes]), ma_bytes = (\<lambda>addr. case addr of [P2p p] \<Rightarrow> p | _ \<Rightarrow> []), ma_local = [P2p [1]]\<rparr>"

definition small_net :: "bzz_address \<Rightarrow> bzz_address \<Rightarrow> unit network" where
  "small_net a b =
     \<lparr>nw_open = (\<lambda>proto p r. (if proto = HANDSHAKE_PROTOCOL
          then [Some (on_wire [frame (synack_of [2] (Handshake_new Responder b 1 True [2]))] 2 [])] else [], r)),
      nw_accept = (\<lambda>proto r. (Some (on_wire [broadcast_frames [a]] 0 []), r)), nw_dial = (\<lambda>addr r. r)\<rparr>"

definition open_tile :: "bzz_address \<Rightarrow> identity" where
  "open_tile c = \<lparr>id_bzz = c, id_network_id = 1, id_full_node = True, id_neighbourhood = \<lparr>nb_overlay = replicate 32 0, nb_radius = 0\<rparr>\<rparr>"

lemma frame_not_Nil: "frame msg \<noteq> []"
  by (cases "uvarint (of_nat (length msg))") (auto simp: frame_def)

lemma small_reply:
  assumes "small_bzz b" and "bzz_verify plain b 1 = Some eb"
  shows "run_handshake plain (on_wire [frame (synack_of [2] (Handshake_new Responder b 1 True [2]))] 2 []) Initiator c 1 True obs = Done (Some eb)"
    and "run_handshake_learn plain (on_wire [frame (synack_of [2] (Handshake_new Responder b 1 True [2]))] 2 []) Initiator c 1 True obs =
      Done (Some (eb, bz_overlay b))"
proof -
  have "concat [frame (synack_of [2] (Handshake_new Responder b 1 True [2]))] = frame (synack_of [2] (Handshake_new Responder b 1 True [2]))"
    "[] \<notin> set [frame (synack_of [2] (Handshake_new Responder b 1 True [2]))]" using frame_not_Nil by (simp_all add: eq_commute)
  from initiator_over_stream [OF assms _ _ this, of 2 c True obs] obtain h s where
    "drive_handshake plain [] (Handshake_new Initiator c 1 True obs)
      (on_wire [frame (synack_of [2] (Handshake_new Responder b 1 True [2]))] 2 []) = Done (Some eb, h, s)"
    "hs_peer_overlay h = Some (bz_overlay b)" by auto
  then show "run_handshake plain (on_wire [frame (synack_of [2] (Handshake_new Responder b 1 True [2]))] 2 []) Initiator c 1 True obs = Done (Some eb)"
    "run_handshake_learn plain (on_wire [frame (synack_of [2] (Handshake_new Responder b 1 True [2]))] 2 []) Initiator c 1 True obs =
      Done (Some (eb, bz_overlay b))" by (simp_all add: run_handshake_def run_handshake_learn_def)
qed

lemma open_one: "open_stream [Some s] = Some s" "open_stream [] = None"
  by (simp_all add: open_stream_def)

lemma small_handshake:
  assumes "small_bzz b" and "bzz_verify plain b 1 = Some eb"
  shows "handshake_neighbour plain (small_net a b) p c 1 True obs r = Done (Some eb, r)"
    and "handshake_neighbour plain (nw_logged (small_net a b)) p c 1 True obs (r, trace) = Done (Some eb, (r, trace @ [(HANDSHAKE_PROTOCOL, p)]))"
  using small_reply [OF assms] by (simp_all add: handshake_neighbour_def small_net_def nw_logged_def open_one)

definition known_peer :: "bzz_address \<Rightarrow> bytes \<Rightarrow> discovered_peer" where
  "known_peer a eth = \<lparr>dp_overlay = bz_overlay a, dp_underlay = bz_underlay a, dp_eth = eth\<rparr>"

lemma small_selected:
  "select_neighbours one_peer (id_neighbourhood (open_tile c)) [known_peer a eth] =
    [\<lparr>ng_peer = known_peer a eth, ng_libp2p = bz_underlay a, ng_proximity = proximity (replicate 32 0) (bz_overlay a)\<rparr>]"
  by (simp add: select_neighbours_def known_peer_def libp2p_peer_of_def one_peer_def open_tile_def is_neighbour_def List.map_filter_def)

lemma small_push:
  assumes "small_bzz a" and "bzz_verify plain a 1 = Some ea"
  shows "receive_peers plain [broadcast_frames [a]] 1 = Done [known_peer a ea]"
proof -
  have "broadcast_frames [a] \<noteq> []" using frame_not_Nil by (simp add: broadcast_frames_def peer_batches.simps MAX_BATCH_def)
  then have "receive_loop plain [broadcast_frames [a]] rx = hive_feed plain (broadcast_frames [a]) rx" for rx
    using receive_fragments [of "[broadcast_frames [a]]"] by simp
  then have "receive_peers plain [broadcast_frames [a]] 1 = Done (verified_peers plain 1 [a])"
    using assms(1) by (simp add: receive_peers_def hive_feed_def HiveReceiver_new_def hive_loop_batches)
  then show ?thesis using assms(2) by (simp add: verified_peers_def known_peer_def List.map_filter_def)
qed

text \<open>
  C36: A run does not compare the identity a neighbour proves in its handshake with the one it was discovered
  under. Here the push names a binding of one key, whoever answers at its address proves another, and the
  peer is kept, and its tile judged, under the overlay it was announced with.
\<close>

theorem neighbour_identity_unchecked:
  "\<exists>a b c ea p. some_identity 7 = Some a \<and> some_identity 8 = Some b \<and> some_identity 9 = Some c \<and> bz_overlay a \<noteq> bz_overlay b
    \<and> accept_hive_push plain one_peer (small_net a b) 1 (id_neighbourhood (open_tile c)) () =
        Done (select_neighbours one_peer (id_neighbourhood (open_tile c)) [known_peer a ea], ())
    \<and> connect_neighbours plain one_peer (small_net a b) (open_tile c)
        (select_neighbours one_peer (id_neighbourhood (open_tile c)) [known_peer a ea]) () = Done ([p], ())
    \<and> ap_overlay p = bz_overlay a
    \<and> learn_peer_overlay plain one_peer (small_net a b) [P2p (ap_libp2p p)] c 1 True () = Done (Some (bz_overlay b), ())"
proof -
  obtain a ea where a: "some_identity 7 = Some a" "small_bzz a" "bzz_verify plain a 1 = Some ea" by (rule some_identity_ok)
  obtain b eb where b: "some_identity 8 = Some b" "small_bzz b" "bzz_verify plain b 1 = Some eb" by (rule some_identity_ok)
  obtain c ec where c: "some_identity 9 = Some c" "small_bzz c" "bzz_verify plain c 1 = Some ec" by (rule some_identity_ok)
  let ?n = "select_neighbours one_peer (id_neighbourhood (open_tile c)) [known_peer a ea]"
  have "map_option bz_overlay (some_identity 7) \<noteq> map_option bz_overlay (some_identity 8)" by code_simp
  then have ne: "bz_overlay a \<noteq> bz_overlay b" using a(1) b(1) by simp
  have acc: "accept_hive_push plain one_peer (small_net a b) 1 (id_neighbourhood (open_tile c)) () = Done (?n, ())"
    using small_push [OF a(2,3)] by (simp add: accept_hive_push_def small_net_def on_wire_def)
  have con: "connect_neighbours plain one_peer (small_net a b) (open_tile c) ?n () =
      Done ([\<lparr>ap_overlay = bz_overlay a, ap_libp2p = bz_underlay a, ap_full_node = True\<rparr>], ())"
    using small_handshake(1) [OF b(2,3)] unfolding small_selected by (simp add: one_peer_def known_peer_def open_tile_def)
  have "learn_peer_overlay plain one_peer (small_net a b) [P2p (bz_underlay a)] c 1 True () = Done (Some (bz_overlay b), ())"
    using small_reply(2) [OF b(2,3)] by (simp add: learn_peer_overlay_def small_net_def open_one)
  with a(1) b(1) c(1) ne acc con show ?thesis
    by (intro exI [of _ a] exI [of _ b] exI [of _ c] exI [of _ ea]) auto
qed

lemma small_run_op: "libp2p_run (nw_logged (small_net a b)) [(1, q)] codec op1 (r, trace) =
    (if op_peer op1 = 1 then Done (None, (r, trace @ [(case op1 of OpCursors _ \<Rightarrow> CURSORS_PROTOCOL | _ \<Rightarrow> PULLSYNC_PROTOCOL, q)]))
     else Done (None, (r, trace)))"
proof -
  have "CURSORS_PROTOCOL \<noteq> HANDSHAKE_PROTOCOL" "PULLSYNC_PROTOCOL \<noteq> HANDSHAKE_PROTOCOL"
    by (simp_all add: CURSORS_PROTOCOL_def HANDSHAKE_PROTOCOL_def PULLSYNC_PROTOCOL_def)
  then show ?thesis
    by (auto simp: libp2p_run_def nw_logged_def small_net_def run_op_def open_one split: op.splits)
qed

lemma small_assemble:
  "\<exists>s' r' trace'. assemble_and_pull (nw_logged (small_net a b)) [(1, q)] (Session_new (with_policy PRODUCTION 8 SHIPPED)) codec (r, trace) =
      Done (s', (r', trace')) \<and> (CURSORS_PROTOCOL, q) \<in> set trace'"
proof -
  let ?run = "guarded (libp2p_run (nw_logged (small_net a b)) [(1, q)] codec)"
  have "case feed (PeerSeen 1) (Session_new (with_policy PRODUCTION 8 SHIPPED)) of Panic \<Rightarrow> False | Done s \<Rightarrow> s_queue s = [GetCursors 1]"
    by code_simp
  then obtain s where s: "feed (PeerSeen 1) (Session_new (with_policy PRODUCTION 8 SHIPPED)) = Done s" "s_queue s = [GetCursors 1]"
    by (auto split: exec.splits)
  obtain evs s1 st where d: "drive_loop 1000000 ?run s (Some (r, trace)) = Done (s1, st)"
    using drive_loop_runs [of 1000000 ?run s "Some (r, trace)"] by blast
  define later where "later = trace @ [(CURSORS_PROTOCOL, q)]"
  have "next_op s = (Some (OpCursors 1), s\<lparr>s_queue := []\<rparr>)" using s(2) by (simp add: next_op_def)
  moreover have "?run (OpCursors 1) (Some (r, trace)) = (None, Some (r, later))" by (simp add: guarded_def small_run_op later_def)
  moreover have "(1000000 :: nat) = Suc 999999" by simp
  ultimately obtain s2 where d2: "drive_loop 999999 ?run s2 (Some (r, later)) = Done (s1, st)"
    using d by (subst (asm) drive_loop.simps) (auto simp: bind_exec_eq_Done)
  let ?P = "\<lambda>st. \<exists>r trace. st = Some (r, trace) \<and> (CURSORS_PROTOCOL, q) \<in> set trace"
  have "?P st"
    by (rule drive_loop_keeps [where P = ?P, OF _ _ d2]) (auto simp: guarded_def small_run_op later_def)
  then obtain r' trace' where "st = Some (r', trace')" "(CURSORS_PROTOCOL, q) \<in> set trace'" by blast
  then show ?thesis using s(1) d by (simp add: assemble_and_pull_def add_peer_def drive_def)
qed

theorem run_pulls_from_tile_witness:
  "\<exists>a b c session' r' trace. Runtime_run plain one_peer (nw_logged (small_net a b)) [P2p [1]] (open_tile c)
      (Session_new (with_policy PRODUCTION 8 SHIPPED)) (pull_codec plain) ((), []) = Done (session', (r', trace))
    \<and> (CURSORS_PROTOCOL, bz_underlay a) \<in> set trace \<and> supplier plain one_peer (small_net a b) (open_tile c) (bz_underlay a)"
proof -
  obtain a ea where a: "some_identity 7 = Some a" "small_bzz a" "bzz_verify plain a 1 = Some ea" by (rule some_identity_ok)
  obtain b eb where b: "some_identity 8 = Some b" "small_bzz b" "bzz_verify plain b 1 = Some eb" by (rule some_identity_ok)
  obtain c ec where c: "some_identity 9 = Some c" "small_bzz c" "bzz_verify plain c 1 = Some ec" by (rule some_identity_ok)
  let ?t1 = "[(HANDSHAKE_PROTOCOL, [1])]" let ?t2 = "?t1 @ [(HANDSHAKE_PROTOCOL, bz_underlay a)]"
  let ?n = "select_neighbours one_peer (id_neighbourhood (open_tile c)) [known_peer a ea]"
  have acc: "accept_hive_push plain one_peer (nw_logged (small_net a b)) 1 (id_neighbourhood (open_tile c)) ((), ?t1) = Done (?n, ((), ?t1))"
    using small_push [OF a(2,3)] by (simp add: accept_hive_push_def nw_logged_def small_net_def on_wire_def)
  have dial: "nw_dial (nw_logged (small_net a b)) x y = y" for x y by (cases y) (simp add: nw_logged_def small_net_def)
  have con: "connect_neighbours plain one_peer (nw_logged (small_net a b)) (open_tile c) ?n ((), ?t1) =
      Done ([\<lparr>ap_overlay = bz_overlay a, ap_libp2p = bz_underlay a, ap_full_node = True\<rparr>], ((), ?t2))"
    using small_handshake(2) [OF b(2,3)] unfolding small_selected by (simp add: one_peer_def known_peer_def open_tile_def dial)
  obtain s' r' trace where pulled: "assemble_and_pull (nw_logged (small_net a b)) [(1, bz_underlay a)]
      (Session_new (with_policy PRODUCTION 8 SHIPPED)) (pull_codec plain) ((), ?t2) = Done (s', (r', trace))"
    "(CURSORS_PROTOCOL, bz_underlay a) \<in> set trace" using small_assemble by blast
  have run: "Runtime_run plain one_peer (nw_logged (small_net a b)) [P2p [1]] (open_tile c)
      (Session_new (with_policy PRODUCTION 8 SHIPPED)) (pull_codec plain) ((), []) = Done (s', (r', trace))"
    using small_handshake(2) [OF b(2,3)] acc con pulled(1)
    by (simp add: Runtime_run_def dial) (simp add: open_tile_def pull_def melissi_active_peers_def is_neighbour_def)
  have "CURSORS_PROTOCOL \<noteq> HANDSHAKE_PROTOCOL" by (simp add: CURSORS_PROTOCOL_def HANDSHAKE_PROTOCOL_def)
  from run_pulls_from_tile [OF run pulled(2) this] run pulled(2) show ?thesis by blast
qed

end
