(* ===== verification/Pull_Main.thy ===== *)
theory Pull_Main
  imports Runtime_Props
begin

section \<open>The deployed binary: \<open>crates/net/src/bin/pull.rs\<close>\<close>

text \<open>
  The environment's variables, the identity ground into a peer's neighbourhood, and \<open>main\<close> up to its report.
  Variables are ASCII; \<open>None\<close> is one that is not set. Parsing and printing an address, the peer id of a libp2p
  key and the TXT lookup are parameters. Listening is part of the network's state, and the timeout around the
  run is not modelled: the result here is that of a run it does not cut.
\<close>

type_synonym env = "string \<Rightarrow> string option"

subsection \<open>Variables\<close>

definition digit_of :: "char \<Rightarrow> nat option" where
  "digit_of ch = (let c = of_char ch :: nat in if 48 \<le> c \<and> c \<le> 57 then Some (c - 48) else None)"

text \<open>\<open>u64::from_str\<close>: an optional plus, then digits, and no overflow.\<close>

definition parse_u64 :: "string \<Rightarrow> u64 option" where
  "parse_u64 s =
     (let t = (case s of ch # rest \<Rightarrow> if ch = CHR ''+'' then rest else s | [] \<Rightarrow> s);
          ds = map digit_of t; n = fold (\<lambda>d acc. 10 * acc + the d) ds 0
      in if t = [] \<or> None \<in> set ds then None else if n < 2 ^ 64 then Some (of_nat n) else None)"

definition env_u64 :: "env \<Rightarrow> string \<Rightarrow> u64 \<Rightarrow> u64" where
  "env_u64 env key d = (case Option.bind (env key) parse_u64 of Some v \<Rightarrow> v | None \<Rightarrow> d)"

definition hex_digit :: "char \<Rightarrow> u8 option" where
  "hex_digit ch =
     (let c = of_char ch :: nat
      in if 48 \<le> c \<and> c \<le> 57 then Some (of_nat (c - 48))
         else if 97 \<le> c \<and> c \<le> 102 then Some (of_nat (c - 87))
         else if 65 \<le> c \<and> c \<le> 70 then Some (of_nat (c - 55))
         else None)"

text \<open>\<open>u8::from_str_radix(_, 16)\<close> on two characters, the first of which may be a plus.\<close>

definition hex_byte :: "char \<Rightarrow> char \<Rightarrow> u8 option" where
  "hex_byte a b =
     (if a = CHR ''+'' then hex_digit b
      else Option.bind (hex_digit a) (\<lambda>x. map_option (\<lambda>y. 16 * x + y) (hex_digit b)))"

text \<open>The 32 slices of two; one past the end of the text panics, as does one that is no number.\<close>

fun secret_bytes :: "nat \<Rightarrow> string \<Rightarrow> bytes exec" where
  "secret_bytes 0 h = Done []"
| "secret_bytes (Suc n) (a # b # h) = (case hex_byte a b of
      None \<Rightarrow> Panic
    | Some x \<Rightarrow> bind_exec (secret_bytes n h) (\<lambda>xs. Done (x # xs)))"
| "secret_bytes (Suc n) _ = Panic"

definition env_secret :: "env \<Rightarrow> bytes exec" where
  "env_secret env = (case env ''MELISSI_SECRET'' of
      Some h \<Rightarrow> secret_bytes 32 h
    | None \<Rightarrow> Done (replicate 32 0x5A))"

text \<open>\<open>{:02x}\<close>, and the first four bytes of it.\<close>

definition nibble :: "nat \<Rightarrow> char" where
  "nibble n = (if n < 10 then char_of (48 + n) else char_of (87 + n))"

definition hex2 :: "u8 \<Rightarrow> string" where
  "hex2 x = [nibble (unat x div 16), nibble (unat x mod 16)]"

definition hex8 :: "bytes \<Rightarrow> string" where
  "hex8 b = concat (map hex2 (take 4 b))"

fun tcp_port_of :: "'o multiaddr \<Rightarrow> 16 word option" where
  "tcp_port_of [] = None"
| "tcp_port_of (Tcp port # ps) = Some port"
| "tcp_port_of (_ # ps) = tcp_port_of ps"

subsection \<open>The node\<close>

record 'o addressing =
  ad_codec :: "'o multiaddr_codec"
  ad_parse :: "string \<Rightarrow> 'o multiaddr option"
  ad_print :: "'o multiaddr \<Rightarrow> string"
  ad_peer_id :: "bytes \<Rightarrow> string option"
  ad_txt :: lookup

definition or_panic :: "'a option \<Rightarrow> 'a exec" where
  "or_panic x = (case x of Some a \<Rightarrow> Done a | None \<Rightarrow> Panic)"

definition resolve_bootnode :: "'o addressing \<Rightarrow> env \<Rightarrow> u64 \<Rightarrow> 'o multiaddr exec" where
  "resolve_bootnode ad env network_id = (case env ''MELISSI_BOOTNODE'' of
      Some b \<Rightarrow> or_panic (ad_parse ad b)
    | None \<Rightarrow> (case tcp_bootnodes (ad_txt ad) (ad_parse ad) (ad_print ad) network_id of
          Inl e \<Rightarrow> Panic
        | Inr addrs \<Rightarrow> (case addrs of [] \<Rightarrow> Panic | a # _ \<Rightarrow> Done a)))"

definition identity_at :: "crypto \<Rightarrow> bytes \<Rightarrow> bytes \<Rightarrow> u64 \<Rightarrow> bytes \<Rightarrow> bzz_address exec" where
  "identity_at cr secret underlay network_id nonce =
     or_panic (BzzAddress_new cr secret underlay network_id nonce 1700000000 (replicate 20 0))"

text \<open>Both modes learn the overlay of a peer and grind theirs towards it.\<close>

definition mined_identity :: "crypto \<Rightarrow> bytes \<Rightarrow> bytes \<Rightarrow> bytes \<Rightarrow> u64 \<Rightarrow> bytes \<Rightarrow> u8 \<Rightarrow> (bytes \<times> bzz_address) exec" where
  "mined_identity cr secret eth underlay network_id peer_overlay grind_bits =
     (let (nonce, po) = grind_overlay_nonce cr eth network_id peer_overlay grind_bits 50000000
      in bind_exec (identity_at cr secret underlay network_id nonce) (\<lambda>mine. Done (nonce, mine)))"

definition pull_main ::
  "crypto \<Rightarrow> 'o addressing \<Rightarrow> env \<Rightarrow> 'r network \<Rightarrow> 'r \<Rightarrow> (session \<times> 'r) exec" where
  "pull_main cr ad env nw r =
     (let network_id = env_u64 env ''MELISSI_NETWORK'' 10;
          radius = ucast (env_u64 env ''MELISSI_RADIUS'' 8) :: u8;
          grind_bits = ucast (env_u64 env ''MELISSI_GRIND'' 16) :: u8;
          full_node = env_u64 env ''MELISSI_FULLNODE'' 1 \<noteq> 0;
          base = (case env ''MELISSI_UNDERLAY'' of Some b \<Rightarrow> b | None \<Rightarrow> ''/ip4/127.0.0.1/tcp/1634'');
          session = Session_new (Node_new PRODUCTION radius)
      in bind_exec (env_secret env) (\<lambda>secret.
         bind_exec (or_panic (public_eth_address cr secret)) (\<lambda>eth.
         bind_exec (or_panic (ad_peer_id ad secret)) (\<lambda>peer_id.
         bind_exec (or_panic (ad_parse ad (base @ ''/p2p/'' @ peer_id))) (\<lambda>underlay.
         bind_exec (or_panic (tcp_port_of underlay)) (\<lambda>advertised_port.
         bind_exec (resolve_bootnode ad env network_id) (\<lambda>bootnode.
         bind_exec (identity_at cr secret (ma_bytes (ad_codec ad) underlay) network_id (replicate 32 0)) (\<lambda>probe.
         bind_exec (learn_peer_overlay cr (ad_codec ad) nw bootnode probe network_id full_node r) (\<lambda>(learned, r1).
         bind_exec (or_panic learned) (\<lambda>peer_overlay.
         bind_exec (mined_identity cr secret eth (ma_bytes (ad_codec ad) underlay) network_id peer_overlay grind_bits)
           (\<lambda>(nonce, mine).
         if env_u64 env ''MELISSI_DIRECT'' 0 \<noteq> 0
         then pull_direct cr (ad_codec ad) nw bootnode mine network_id full_node session (pull_codec cr) r1
         else bind_exec (MintedCodec_new cr secret 0) (\<lambda>minted_codec.
              Runtime_run cr (ad_codec ad) nw bootnode
                \<lparr>id_bzz = mine, id_network_id = network_id, id_full_node = full_node,
                  id_neighbourhood = \<lparr>nb_overlay = overlay_address cr eth network_id nonce, nb_radius = radius\<rparr>\<rparr>
                session (minted cr minted_codec) r1))))))))))))"

subsection \<open>The secret\<close>

lemma hex_nibble:
  assumes "n < 16"
  shows "hex_digit (nibble n) = Some (of_nat n)" and "nibble n \<noteq> CHR ''+''"
proof -
  have c: "of_char (nibble n) = (if n < 10 then 48 + n else 87 + n)" using assms by (simp add: nibble_def)
  show "hex_digit (nibble n) = Some (of_nat n)"
    unfolding hex_digit_def c using assms by (simp add: Let_def)
  show "nibble n \<noteq> CHR ''+''"
  proof
    assume "nibble n = CHR ''+''"
    then have "of_char (nibble n) = (43 :: nat)" by simp
    with c show False by (simp split: if_splits)
  qed
qed

lemma hex2_read: "hex_byte (nibble (unat x div 16)) (nibble (unat x mod 16)) = Some x"
proof -
  have "unat x < 2 ^ LENGTH(8)" by (rule unsigned_less)
  then have "unat x div 16 < 16" "unat x mod 16 < 16" by simp_all
  then have "hex_byte (nibble (unat x div 16)) (nibble (unat x mod 16)) = Some (16 * of_nat (unat x div 16) + of_nat (unat x mod 16))"
    using hex_nibble by (simp add: hex_byte_def)
  also have "(16 * of_nat (unat x div 16) + of_nat (unat x mod 16) :: u8) = of_nat (16 * (unat x div 16) + unat x mod 16)"
    by (simp only: of_nat_add of_nat_mult of_nat_numeral)
  also have "\<dots> = x" by (simp only: mult_div_mod_eq) simp
  finally show ?thesis .
qed

text \<open>
  A secret written in hexadecimal is read back as its 32 bytes; whatever follows the 64 characters is
  ignored, and a shorter text panics.
\<close>

theorem secret_roundtrip:
  assumes "env ''MELISSI_SECRET'' = Some (concat (map hex2 xs) @ rest)"
  shows "(length xs = 32 \<longrightarrow> env_secret env = Done xs)
    \<and> (length xs < 32 \<longrightarrow> length rest < 2 \<longrightarrow> env_secret env = Panic)"
proof -
  have full: "secret_bytes (length xs) (concat (map hex2 xs) @ rest) = Done xs" for xs
    by (induction xs) (simp_all add: hex2_def hex2_read)
  have short: "secret_bytes (length xs + Suc n) (concat (map hex2 xs) @ rest) = Panic" if "length rest < 2" for xs n
  proof (induction xs)
    case Nil
    show ?case using that by (cases rest rule: remdups_adj.cases) simp_all
  qed (simp add: hex2_def hex2_read)
  show ?thesis
    using full [of xs] short [of xs "31 - length xs"] assms by (auto simp: env_secret_def)
qed

theorem secret_roundtrip_witness:
  "env_secret (\<lambda>_. Some (concat (map hex2 (replicate 32 0x5A)) @ ''trailing'')) = Done (replicate 32 0x5A)"
  using secret_roundtrip [of "\<lambda>_. Some (concat (map hex2 (replicate 32 0x5A)) @ ''trailing'')" "replicate 32 0x5A" "''trailing''"] by simp

subsection \<open>The mined identity\<close>

text \<open>
  C26: The identity a node presents verifies to the address of its key, at the overlay its neighbourhood is
  built on; and if one of the fifty million nonces comes within the wanted bits of the peer's overlay, the
  node lies in the peer's neighbourhood of that depth.
\<close>

theorem mined_identity_fits:
  assumes "lawful cr" and "public_eth_address cr secret = Some eth"
    and "mined_identity cr secret eth underlay net peer_overlay bits = Done (nonce, mine)"
  shows "bzz_verify cr mine net = Some eth \<and> bz_overlay mine = overlay_address cr eth net nonce \<and> bz_underlay mine = underlay
    \<and> ((\<exists>i < 50000000. bits \<le> grind_proximity cr eth net peer_overlay i \<and> grind_proximity cr eth net peer_overlay i \<noteq> 0) \<longrightarrow>
        is_neighbour \<lparr>nb_overlay = peer_overlay, nb_radius = bits\<rparr> (bz_overlay mine))"
proof -
  obtain po where g: "grind_overlay_nonce cr eth net peer_overlay bits 50000000 = (nonce, po)"
    and new: "BzzAddress_new cr secret underlay net nonce 1700000000 (replicate 20 0) = Some mine"
    using assms(3) by (auto simp: mined_identity_def identity_at_def or_panic_def bind_exec_eq_Done split: prod.splits option.splits)
  have "bzz_verify cr mine net = Some eth" using BzzAddress_new_verifies(1) [OF assms(1) new] assms(2) by simp
  moreover have ov: "bz_overlay mine = overlay_address cr eth net nonce" "bz_underlay mine = underlay"
    using new assms(2) by (auto simp: BzzAddress_new_def Let_def bind_eq_Some_conv)
  moreover have "is_neighbour \<lparr>nb_overlay = peer_overlay, nb_radius = bits\<rparr> (bz_overlay mine)"
    if "\<exists>i < 50000000. bits \<le> grind_proximity cr eth net peer_overlay i \<and> grind_proximity cr eth net peer_overlay i \<noteq> 0"
  proof -
    let ?r = "\<lambda>i. reaches bits (grind_proximity cr eth net peer_overlay i)"
    have n: "unat (50000000 :: u64) = 50000000" by simp
    from that obtain i where i: "i < 50000000" "?r i" by (auto simp: reaches_def)
    define k where "k = Least ?r"
    have k: "?r k" unfolding k_def using i(2) by (rule LeastI)
    have "k \<le> i" unfolding k_def using i(2) by (rule Least_le)
    then have "k < unat (50000000 :: u64)" using i(1) n by linarith
    moreover have "\<not> ?r j" if "j < k" for j using that unfolding k_def by (rule not_less_Least)
    ultimately have "nonce = grind_nonce (of_nat k)" using grind_first [of k 50000000 bits cr eth net peer_overlay] k g by simp
    then show ?thesis using k ov(1) by (simp add: is_neighbour_def grind_proximity_def reaches_def)
  qed
  ultimately show ?thesis by blast
qed

theorem mined_identity_fits_witness:
  "\<exists>eth nonce mine. public_eth_address plain (replicate 32 7) = Some eth
    \<and> mined_identity plain (replicate 32 7) eth [4, 127, 0, 0, 1] 1 (replicate 32 0) 3 = Done (nonce, mine)
    \<and> bzz_verify plain mine 1 = Some eth \<and> is_neighbour \<lparr>nb_overlay = replicate 32 0, nb_radius = 3\<rparr> (bz_overlay mine)"
proof -
  obtain eth where eth: "public_eth_address plain (replicate 32 7) = Some eth" by (simp add: public_eth_address_def plain_def)
  obtain nonce po where g: "grind_overlay_nonce plain eth 1 (replicate 32 0) 3 50000000 = (nonce, po)" by fastforce
  obtain mine where mine: "BzzAddress_new plain (replicate 32 7) [4, 127, 0, 0, 1] 1 nonce 1700000000 (replicate 20 0) = Some mine"
    by (simp add: BzzAddress_new_def public_eth_address_def sign_def plain_def Let_def)
  have m: "mined_identity plain (replicate 32 7) eth [4, 127, 0, 0, 1] 1 (replicate 32 0) 3 = Done (nonce, mine)"
    using g mine by (simp add: mined_identity_def identity_at_def or_panic_def)
  have "case public_eth_address plain (replicate 32 7) of None \<Rightarrow> False
    | Some eth \<Rightarrow> grind_proximity plain eth 1 (replicate 32 0) 0 = 5" by code_simp
  then have "grind_proximity plain eth 1 (replicate 32 0) 0 = 5" using eth by simp
  then have "\<exists>i < 50000000. 3 \<le> grind_proximity plain eth 1 (replicate 32 0) i \<and> grind_proximity plain eth 1 (replicate 32 0) i \<noteq> 0"
    by (intro exI [of _ 0]) simp
  with mined_identity_fits [OF plain_lawful eth m] eth m show ?thesis by blast
qed

end
